(* ===== verification/Prelude.thy ===== *)
theory Prelude
  imports Main "HOL-Library.Word"
begin

text \<open>
  What every component of the development shares: the C integer types of the
  DOOM sources as HOL integers with the wrap-around of the 32-bit targets
  written out, the error value of \<open>I_Error\<close>, sequencing of operations
  that can fail, and the lemmas on lists and on ring buffers that several
  components use.
\<close>

unbundle bit_operations_syntax

section \<open>Lemma collections\<close>

named_theorems c_arith \<open>facts on the C arithmetic of the sources\<close>
named_theorems result_simps \<open>unfolding of sequenced fallible operations\<close>

section \<open>C integers\<close>

text \<open>
  The tree is built with \<^verbatim>\<open>-fno-strict-overflow\<close> (\<^verbatim>\<open>Makefile\<close>), so signed
  overflow wraps: an \<open>int\<close> expression is the mathematical integer reduced by
  \<open>i32\<close>, a \<open>short\<close> by \<open>i16\<close>. Right shifts of signed values are
  arithmetic, which is \<open>drop_bit\<close> on \<open>int\<close>; C division truncates towards zero.
\<close>

definition i32 :: "int \<Rightarrow> int" where
  "i32 x = signed_take_bit 31 x"

definition i16 :: "int \<Rightarrow> int" where
  "i16 x = signed_take_bit 15 x"

definition u32 :: "int \<Rightarrow> int" where
  "u32 x = take_bit 32 x"

definition u8 :: "int \<Rightarrow> int" where
  "u8 x = take_bit 8 x"

definition INT_MIN :: int where "INT_MIN = - (2 ^ 31)"
definition INT_MAX :: int where "INT_MAX = 2 ^ 31 - 1"

definition is_i32 :: "int \<Rightarrow> bool" where
  "is_i32 x \<longleftrightarrow> INT_MIN \<le> x \<and> x \<le> INT_MAX"

definition is_i16 :: "int \<Rightarrow> bool" where
  "is_i16 x \<longleftrightarrow> - (2 ^ 15) \<le> x \<and> x < 2 ^ 15"

definition c_div :: "int \<Rightarrow> int \<Rightarrow> int" where
  "c_div a b = sgn a * sgn b * (\<bar>a\<bar> div \<bar>b\<bar>)"

lemma i32_id [c_arith]: "is_i32 x \<Longrightarrow> i32 x = x"
  unfolding i32_def is_i32_def INT_MIN_def INT_MAX_def
  by (rule signed_take_bit_int_eq_self) auto

lemma is_i32_i32 [simp, c_arith]: "is_i32 (i32 x)"
  unfolding i32_def is_i32_def INT_MIN_def INT_MAX_def
  using signed_take_bit_int_less_exp [of 31 x] signed_take_bit_int_greater_eq_minus_exp [of 31 x]
  by simp

lemma i32_i32 [simp]: "i32 (i32 x) = i32 x"
  by (rule i32_id) simp

lemma i16_id [c_arith]: "is_i16 x \<Longrightarrow> i16 x = x"
  unfolding i16_def is_i16_def
  by (rule signed_take_bit_int_eq_self) auto

lemma is_i16_i16 [simp, c_arith]: "is_i16 (i16 x)"
  unfolding i16_def is_i16_def
  using signed_take_bit_int_less_exp [of 15 x] signed_take_bit_int_greater_eq_minus_exp [of 15 x]
  by simp

lemma is_i16_is_i32: "is_i16 x \<Longrightarrow> is_i32 x"
  by (auto simp: is_i16_def is_i32_def INT_MIN_def INT_MAX_def)

lemma is_i32_iff [c_arith]: "is_i32 x \<longleftrightarrow> - 2147483648 \<le> x \<and> x \<le> 2147483647"
  by (simp add: is_i32_def INT_MIN_def INT_MAX_def)

lemma i32_add_left [simp]: "i32 (i32 x + y) = i32 (x + y)"
  unfolding i32_def by (rule signed_take_bit_add [of 31 "signed_take_bit 31 x" y,
    simplified signed_take_bit_signed_take_bit, THEN sym, THEN trans]) (simp add: signed_take_bit_add)

lemma and_255_take_bit: "(k::int) AND 255 = take_bit 8 k"
  by (simp add: take_bit_eq_mask mask_eq_exp_minus_1)

text \<open>
  The port runs on 32-bit and on 64-bit targets (\<^verbatim>\<open>README.md\<close>); they differ in
  the width of \<open>long\<close>, of \<open>size_t\<close> and of pointers.
\<close>

datatype arch = ILP32 | LP64

fun sizeof_ptr :: "arch \<Rightarrow> int" where
  "sizeof_ptr ILP32 = 4"
| "sizeof_ptr LP64 = 8"

text \<open>The macro \<open>abs\<close> of \<^verbatim>\<open>include/linux/kernel.h\<close>, which computes in \<open>long\<close>.\<close>

fun abs_long :: "arch \<Rightarrow> int \<Rightarrow> int" where
  "abs_long ILP32 x = (if x < 0 then i32 (- x) else x)"
| "abs_long LP64 x = (if x < 0 then - x else x)"

lemma abs_long_eq:
  assumes "is_i32 x" "arch = LP64 \<or> x \<noteq> INT_MIN"
  shows "abs_long arch x = \<bar>x\<bar>"
  using assms by (cases arch) (auto simp: i32_id is_i32_def INT_MIN_def INT_MAX_def)

section \<open>Errors\<close>

text \<open>
  \<open>I_Error\<close> (\<^verbatim>\<open>i_system.c\<close>) prints its message and leaves the game through
  \<open>exit\<close>: nothing after it runs. The other values are the accesses the C
  standard leaves undefined, which the model keeps apart from every result.
\<close>

datatype doom_error =
    I_Error string
  | Bad_Access
  | Div_By_Zero

type_synonym 'a result = "doom_error + 'a"

definition bindE :: "'a result \<Rightarrow> ('a \<Rightarrow> 'b result) \<Rightarrow> 'b result" where
  "bindE m f = (case m of Inl e \<Rightarrow> Inl e | Inr x \<Rightarrow> f x)"

lemma bindE_simps [simp, result_simps]:
  "bindE (Inl e) f = Inl e"
  "bindE (Inr x) f = f x"
  by (simp_all add: bindE_def)

lemma bindE_Inr_iff [result_simps]:
  "bindE m f = Inr y \<longleftrightarrow> (\<exists>x. m = Inr x \<and> f x = Inr y)"
  by (cases m) auto

lemma bindE_Inl_iff [result_simps]:
  "bindE m f = Inl e \<longleftrightarrow> m = Inl e \<or> (\<exists>x. m = Inr x \<and> f x = Inl e)"
  by (cases m) auto

lemma bindE_assoc: "bindE (bindE m f) g = bindE m (\<lambda>x. bindE (f x) g)"
  by (cases m) auto

text \<open>The same where an operation may also not return (\<open>None\<close>), and a loop over a list.\<close>

definition bindO :: "'a result option \<Rightarrow> ('a \<Rightarrow> 'b result option) \<Rightarrow> 'b result option" where
  "bindO m f = (case m of None \<Rightarrow> None | Some (Inl e) \<Rightarrow> Some (Inl e) | Some (Inr x) \<Rightarrow> f x)"

lemma bindO_simps [simp]:
  "bindO None f = None" "bindO (Some (Inl e)) f = Some (Inl e)" "bindO (Some (Inr x)) f = f x"
  by (simp_all add: bindO_def)

primrec foldE :: "('a \<Rightarrow> 'b \<Rightarrow> 'b result) \<Rightarrow> 'a list \<Rightarrow> 'b \<Rightarrow> 'b result" where
  "foldE f [] b = Inr b"
| "foldE f (x # xs) b = bindE (f x b) (foldE f xs)"

section \<open>Ring buffers\<close>

text \<open>
  The input path has two ring buffers of a fixed size with a read and a write
  index. Their contents, oldest first, are the cells from the read index up to
  the write index.
\<close>

definition ring_contents :: "nat \<Rightarrow> 'a list \<Rightarrow> nat \<Rightarrow> nat \<Rightarrow> 'a list" where
  "ring_contents n buf rd wr =
     map (\<lambda>i. buf ! ((rd + i) mod n)) [0..<(wr + n - rd) mod n]"

lemma ring_contents_empty [simp]: "rd < n \<Longrightarrow> ring_contents n buf rd rd = []"
  by (simp add: ring_contents_def)

lemma ring_dist_Suc:
  fixes rd wr n :: nat
  assumes "rd < n" "wr < n" "Suc wr mod n \<noteq> rd"
  shows "(Suc wr mod n + n - rd) mod n = Suc ((wr + n - rd) mod n)"
proof (cases "Suc wr = n")
  case True
  with assms show ?thesis
    by (cases rd) (auto simp: mod_if)
next
  case False
  with assms have "Suc wr < n" by simp
  with assms show ?thesis
    by (auto simp: mod_if)
qed

lemma ring_index_ne:
  fixes rd wr n :: nat
  assumes "rd < n" "wr < n" "i < (wr + n - rd) mod n"
  shows "(rd + i) mod n \<noteq> wr"
proof (cases "rd \<le> wr")
  case True
  then have "wr + n - rd = wr - rd + n" by simp
  with assms have "i < wr - rd" by (simp only: mod_add_self2) simp
  with assms True show ?thesis by simp
next
  case False
  with assms have i: "i < wr + n - rd" by simp
  show ?thesis
  proof (cases "rd + i < n")
    case True
    with False show ?thesis by simp
  next
    case nless: False
    with i assms have "(rd + i) mod n = rd + i - n"
      by (simp add: mod_if)
    with i nless show ?thesis by simp
  qed
qed

lemma ring_index_end:
  fixes rd wr n :: nat
  assumes "rd < n" "wr < n"
  shows "(rd + (wr + n - rd) mod n) mod n = wr"
proof -
  have "(rd + (wr + n - rd) mod n) mod n = (rd + (wr + n - rd)) mod n"
    by (rule mod_add_right_eq)
  with assms show ?thesis by simp
qed

lemma ring_contents_put:
  assumes "length buf = n" "rd < n" "wr < n" "Suc wr mod n \<noteq> rd"
  shows "ring_contents n (buf[wr := x]) rd (Suc wr mod n) = ring_contents n buf rd wr @ [x]"
proof -
  let ?d = "(wr + n - rd) mod n"
  have "map (\<lambda>i. buf[wr := x] ! ((rd + i) mod n)) [0..<?d] = map (\<lambda>i. buf ! ((rd + i) mod n)) [0..<?d]"
    using ring_index_ne [OF assms(2,3)] by (auto simp: nth_list_update_neq [OF not_sym])
  moreover have "buf[wr := x] ! ((rd + ?d) mod n) = x"
    using assms by (simp add: ring_index_end)
  ultimately show ?thesis
    using assms by (simp add: ring_contents_def ring_dist_Suc)
qed

lemma ring_contents_get:
  assumes "rd < n" "wr < n" "rd \<noteq> wr"
  shows "ring_contents n buf rd wr = buf ! rd # ring_contents n buf (Suc rd mod n) wr"
proof -
  let ?d = "(wr + n - Suc rd mod n) mod n"
  have d: "(wr + n - rd) mod n = Suc ?d"
    using assms by (auto simp: mod_if)
  have "map (\<lambda>i. buf ! ((rd + i) mod n)) [0..<Suc ?d]
      = buf ! rd # map (\<lambda>i. buf ! ((rd + Suc i) mod n)) [0..<?d]"
    using assms by (simp only: upt_conv_Cons zero_less_Suc map_Suc_upt [symmetric] list.map map_map o_def)
       simp
  also have "map (\<lambda>i. buf ! ((rd + Suc i) mod n)) [0..<?d]
      = map (\<lambda>i. buf ! ((Suc rd mod n + i) mod n)) [0..<?d]"
    by (simp add: mod_simps)
  finally show ?thesis by (simp add: ring_contents_def d)
qed

lemma ring_contents_wrap:
  assumes "rd < n" "Suc wr mod n = rd"
  shows "ring_contents n buf rd (Suc wr mod n) = []"
  using assms by simp

lemma length_ring_contents: "0 < n \<Longrightarrow> length (ring_contents n buf rd wr) < n"
  by (simp add: ring_contents_def)

end
