(* ===== verification/Fixed.thy ===== *)
theory Fixed
  imports Prelude
begin

text \<open>
  The arithmetic base of the game: 16.16 fixed point (\<^verbatim>\<open>m_fixed.c\<close>), the table
  driven random numbers (\<^verbatim>\<open>m_random.c\<close>) and bounding boxes (\<^verbatim>\<open>m_bbox.c\<close>).
\<close>

section \<open>Fixed point: \<^verbatim>\<open>m_fixed.c\<close>\<close>

type_synonym fixed_t = int

definition FRACBITS :: nat where "FRACBITS = 16"
definition FRACUNIT :: fixed_t where "FRACUNIT = push_bit FRACBITS 1"

definition FixedMul :: "fixed_t \<Rightarrow> fixed_t \<Rightarrow> fixed_t" where
  "FixedMul a b = i32 (drop_bit FRACBITS (a * b))"

text \<open>
  \<open>div_s64\<close> is plain 64-bit division on a 64-bit target; a zero divisor is
  undefined there and in the 32-bit helper.
\<close>

definition div_s64 :: "int \<Rightarrow> int \<Rightarrow> int result" where
  "div_s64 a b = (if b = 0 then Inl Div_By_Zero else Inr (c_div a b))"

definition FixedDiv :: "arch \<Rightarrow> fixed_t \<Rightarrow> fixed_t \<Rightarrow> fixed_t result" where
  "FixedDiv arch a b =
     (if abs_long arch b \<le> drop_bit 14 (abs_long arch a)
      then Inr (if (a XOR b) < 0 then INT_MIN else INT_MAX)
      else bindE (div_s64 (push_bit 16 a) b) (\<lambda>r. Inr (i32 r)))"

lemma FRACUNIT_eq [simp]: "FRACUNIT = 65536"
  by (simp add: FRACUNIT_def FRACBITS_def)

lemma FixedMul_div: "FixedMul a b = i32 (a * b div 65536)"
  by (simp add: FixedMul_def FRACBITS_def drop_bit_eq_div)

lemma FixedMul_comm: "FixedMul a b = FixedMul b a"
  by (simp add: FixedMul_def mult.commute)

lemma FixedMul_unit: "is_i32 a \<Longrightarrow> FixedMul a FRACUNIT = a"
  by (simp add: FixedMul_div i32_id)

lemma c_div_abs: "\<bar>c_div a b\<bar> = \<bar>a\<bar> div \<bar>b\<bar>"
proof -
  have "0 \<le> \<bar>a\<bar> div \<bar>b\<bar>" by (simp add: div_int_pos_iff)
  then show ?thesis
    by (auto simp: c_div_def abs_mult abs_sgn_eq)
qed

lemma c_div_error: "b \<noteq> 0 \<Longrightarrow> \<bar>c_div a b * b - a\<bar> < \<bar>b\<bar>"
proof -
  assume "b \<noteq> 0"
  have eq: "\<bar>a\<bar> div \<bar>b\<bar> * \<bar>b\<bar> = \<bar>a\<bar> - \<bar>a\<bar> mod \<bar>b\<bar>"
    by (simp add: minus_mod_eq_div_mult)
  have "c_div a b * b - a = - sgn a * (\<bar>a\<bar> mod \<bar>b\<bar>)"
  proof -
    have "c_div a b * b = sgn a * (\<bar>a\<bar> div \<bar>b\<bar> * \<bar>b\<bar>)"
      by (simp add: c_div_def abs_sgn [of b] mult_ac)
    also have "\<dots> = sgn a * \<bar>a\<bar> - sgn a * (\<bar>a\<bar> mod \<bar>b\<bar>)"
      by (simp only: eq right_diff_distrib)
    also have "sgn a * \<bar>a\<bar> = a" by (simp add: sgn_mult_abs)
    finally show ?thesis by simp
  qed
  moreover have "\<bar>sgn a * (\<bar>a\<bar> mod \<bar>b\<bar>)\<bar> \<le> \<bar>a\<bar> mod \<bar>b\<bar>"
    using \<open>b \<noteq> 0\<close> by (auto simp: abs_mult abs_sgn_eq)
  moreover have "\<bar>a\<bar> mod \<bar>b\<bar> < \<bar>b\<bar>"
    using \<open>b \<noteq> 0\<close> by simp
  ultimately show ?thesis by simp
qed

text \<open>Where the guard lets the quotient through it fits, so nothing is truncated.\<close>

lemma FixedDiv_quotient_small:
  assumes "\<not> \<bar>b\<bar> \<le> \<bar>a\<bar> div 16384"
  shows "b \<noteq> 0" and "\<bar>c_div (a * 65536) b\<bar> < 2 ^ 30"
proof -
  show b: "b \<noteq> 0"
  proof
    assume "b = 0"
    moreover have "0 \<le> \<bar>a\<bar> div 16384" by (simp add: div_int_pos_iff)
    ultimately show False using assms by simp
  qed
  have "\<bar>a\<bar> < 16384 * \<bar>b\<bar>"
    using assms by linarith
  then have "\<bar>a\<bar> * 65536 < 2 ^ 30 * \<bar>b\<bar>" by simp
  moreover have "\<bar>a\<bar> * 65536 div \<bar>b\<bar> * \<bar>b\<bar> \<le> \<bar>a\<bar> * 65536"
    using b by (simp add: minus_mod_eq_div_mult [symmetric])
  ultimately have "\<bar>a\<bar> * 65536 div \<bar>b\<bar> * \<bar>b\<bar> < 2 ^ 30 * \<bar>b\<bar>" by simp
  then have "\<bar>a\<bar> * 65536 div \<bar>b\<bar> < 2 ^ 30"
    by (rule mult_right_less_imp_less) simp
  then show "\<bar>c_div (a * 65536) b\<bar> < 2 ^ 30"
    by (simp add: c_div_abs abs_mult)
qed

definition fixed_args_ok :: "arch \<Rightarrow> fixed_t \<Rightarrow> fixed_t \<Rightarrow> bool" where
  "fixed_args_ok arch a b \<longleftrightarrow>
     is_i32 a \<and> is_i32 b \<and> (arch = LP64 \<or> a \<noteq> INT_MIN \<and> b \<noteq> INT_MIN)"

lemma FixedDiv_cases:
  assumes "fixed_args_ok arch a b"
  shows "FixedDiv arch a b =
     Inr (if \<bar>b\<bar> \<le> \<bar>a\<bar> div 16384 then if (a < 0) \<noteq> (b < 0) then INT_MIN else INT_MAX
          else c_div (a * 65536) b)"
proof (cases "\<bar>b\<bar> \<le> \<bar>a\<bar> div 16384")
  case True
  with assms show ?thesis
    by (auto simp: FixedDiv_def fixed_args_ok_def abs_long_eq drop_bit_eq_div)
next
  case False
  note q = FixedDiv_quotient_small [OF False]
  have "is_i32 (c_div (a * 65536) b)"
    using q(2) unfolding is_i32_iff by simp linarith
  with assms False q(1) show ?thesis
    by (auto simp: FixedDiv_def fixed_args_ok_def abs_long_eq drop_bit_eq_div push_bit_eq_mult
        div_s64_def i32_id)
qed

section \<open>Random numbers: \<^verbatim>\<open>m_random.c\<close>\<close>

definition rndtable :: "int list" where
  "rndtable =
    [0, 8, 109, 220, 222, 241, 149, 107, 75, 248, 254, 140, 16, 66, 74, 21,
     211, 47, 80, 242, 154, 27, 205, 128, 161, 89, 77, 36, 95, 110, 85, 48,
     212, 140, 211, 249, 22, 79, 200, 50, 28, 188, 52, 140, 202, 120, 68, 145,
     62, 70, 184, 190, 91, 197, 152, 224, 149, 104, 25, 178, 252, 182, 202, 182,
     141, 197, 4, 81, 181, 242, 145, 42, 39, 227, 156, 198, 225, 193, 219, 93,
     122, 175, 249, 0, 175, 143, 70, 239, 46, 246, 163, 53, 163, 109, 168, 135,
     2, 235, 25, 92, 20, 145, 138, 77, 69, 166, 78, 176, 173, 212, 166, 113,
     94, 161, 41, 50, 239, 49, 111, 164, 70, 60, 2, 37, 171, 75, 136, 156,
     11, 56, 42, 146, 138, 229, 73, 146, 77, 61, 98, 196, 135, 106, 63, 197,
     195, 86, 96, 203, 113, 101, 170, 247, 181, 113, 80, 250, 108, 7, 255, 237,
     129, 226, 79, 107, 112, 166, 103, 241, 24, 223, 239, 120, 198, 58, 60, 82,
     128, 3, 184, 66, 143, 224, 145, 224, 81, 206, 163, 45, 63, 90, 168, 114,
     59, 33, 159, 95, 28, 139, 123, 98, 125, 196, 15, 70, 194, 253, 54, 14,
     109, 226, 71, 17, 161, 93, 186, 87, 244, 138, 20, 52, 123, 251, 26, 36,
     17, 46, 52, 231, 232, 76, 31, 221, 84, 37, 216, 165, 212, 106, 197, 242,
     98, 43, 39, 175, 254, 145, 190, 84, 118, 222, 187, 136, 120, 163, 236, 249]"

record rng =
  rndindex :: nat
  prndindex :: nat

definition P_Random :: "rng \<Rightarrow> int \<times> rng" where
  "P_Random s = (let s' = s\<lparr>prndindex := (prndindex s + 1) AND 255\<rparr>
                 in (rndtable ! prndindex s', s'))"

definition M_Random :: "rng \<Rightarrow> int \<times> rng" where
  "M_Random s = (let s' = s\<lparr>rndindex := (rndindex s + 1) AND 255\<rparr>
                 in (rndtable ! rndindex s', s'))"

definition M_ClearRandom :: "rng \<Rightarrow> rng" where
  "M_ClearRandom s = s\<lparr>rndindex := 0, prndindex := 0\<rparr>"

definition rng_ok :: "rng \<Rightarrow> bool" where
  "rng_ok s \<longleftrightarrow> rndindex s < 256 \<and> prndindex s < 256"

lemma and_255_mod: "(n::nat) AND 255 = n mod 256"
proof -
  have "(n AND mask 8) = take_bit 8 n" by (simp add: take_bit_eq_mask)
  then show ?thesis by (simp add: mask_eq_exp_minus_1 take_bit_eq_mod)
qed

lemma length_rndtable [simp]: "length rndtable = 256"
  by (simp add: rndtable_def)

lemma rndtable_range: "i < 256 \<Longrightarrow> 0 \<le> rndtable ! i \<and> rndtable ! i \<le> 255"
proof -
  have "list_all (\<lambda>v. 0 \<le> v \<and> v \<le> 255) rndtable"
    by (simp add: rndtable_def)
  then show "i < 256 \<Longrightarrow> 0 \<le> rndtable ! i \<and> rndtable ! i \<le> 255"
    by (simp add: list_all_length)
qed

lemma P_Random_range: "0 \<le> fst (P_Random s) \<and> fst (P_Random s) \<le> 255"
  using rndtable_range [of "(prndindex s + 1) mod 256"]
  by (simp add: P_Random_def and_255_mod)

lemma P_Random_rng_ok [simp]: "rng_ok s \<Longrightarrow> rng_ok (snd (P_Random s))"
  by (simp add: P_Random_def rng_ok_def and_255_mod)

lemma M_Random_rng_ok [simp]: "rng_ok s \<Longrightarrow> rng_ok (snd (M_Random s))"
  by (simp add: M_Random_def rng_ok_def and_255_mod)

text \<open>
  The two streams: a run is any interleaving of draws of the play simulation
  (\<open>True\<close>) and of the menu, sound and screen code (\<open>False\<close>).
\<close>

fun rng_run :: "rng \<Rightarrow> bool list \<Rightarrow> int list \<times> rng" where
  "rng_run s [] = ([], s)"
| "rng_run s (True # ds) =
     (case P_Random s of (v, s') \<Rightarrow> case rng_run s' ds of (vs, s'') \<Rightarrow> (v # vs, s''))"
| "rng_run s (False # ds) = (case M_Random s of (_, s') \<Rightarrow> rng_run s' ds)"

lemma mod_256_shift: "(Suc n mod 256 + k) mod 256 = (n + Suc k) mod 256" for n k :: nat
  by presburger

lemma draws_Cons:
  "map (\<lambda>k. rndtable ! ((n + Suc k) mod 256)) [0..<Suc m]
     = rndtable ! (Suc n mod 256) # map (\<lambda>k. rndtable ! ((Suc n mod 256 + Suc k) mod 256)) [0..<m]"
  by (simp only: upt_conv_Cons zero_less_Suc map_Suc_upt [symmetric] list.map map_map o_def mod_256_shift)
     simp

lemma rng_run_playsim:
  "rng_ok s \<Longrightarrow> rng_run s ds =
     (map (\<lambda>k. rndtable ! ((prndindex s + Suc k) mod 256)) [0..<count_list ds True],
      \<lparr>rndindex = (rndindex s + count_list ds False) mod 256,
       prndindex = (prndindex s + count_list ds True) mod 256\<rparr>)"
proof (induction s ds rule: rng_run.induct)
  case (1 s)
  then show ?case by (simp add: rng_ok_def)
next
  case (2 s ds)
  let ?s = "s\<lparr>prndindex := Suc (prndindex s) mod 256\<rparr>"
  have step: "P_Random s = (rndtable ! (Suc (prndindex s) mod 256), ?s)"
    by (simp add: P_Random_def and_255_mod)
  have "rng_ok ?s" using "2.prems" by (simp add: rng_ok_def)
  with "2.IH" [OF step [symmetric]] show ?case
    using draws_Cons [of "prndindex s" "count_list ds True"] by (simp add: step mod_256_shift)
next
  case (3 s ds)
  let ?s = "s\<lparr>rndindex := Suc (rndindex s) mod 256\<rparr>"
  have step: "M_Random s = (rndtable ! (Suc (rndindex s) mod 256), ?s)"
    by (simp add: M_Random_def and_255_mod)
  have "rng_ok ?s" using "3.prems" by (simp add: rng_ok_def)
  with "3.IH" [OF step [symmetric]] show ?case
    by (simp add: step mod_256_shift)
qed

section \<open>Bounding boxes: \<^verbatim>\<open>m_bbox.c\<close>\<close>

record bbox =
  BOXTOP :: fixed_t
  BOXBOTTOM :: fixed_t
  BOXLEFT :: fixed_t
  BOXRIGHT :: fixed_t

definition M_ClearBox :: bbox where
  "M_ClearBox = \<lparr>BOXTOP = INT_MIN, BOXBOTTOM = INT_MAX, BOXLEFT = INT_MAX, BOXRIGHT = INT_MIN\<rparr>"

definition M_AddToBox :: "bbox \<Rightarrow> fixed_t \<Rightarrow> fixed_t \<Rightarrow> bbox" where
  "M_AddToBox box x y =
     (let box = (if x < BOXLEFT box then box\<lparr>BOXLEFT := x\<rparr>
                 else if x > BOXRIGHT box then box\<lparr>BOXRIGHT := x\<rparr> else box)
      in (if y < BOXBOTTOM box then box\<lparr>BOXBOTTOM := y\<rparr>
          else if y > BOXTOP box then box\<lparr>BOXTOP := y\<rparr> else box))"

definition add_points :: "bbox \<Rightarrow> (fixed_t \<times> fixed_t) list \<Rightarrow> bbox" where
  "add_points box ps = fold (\<lambda>(x, y) b. M_AddToBox b x y) ps box"

text \<open>One axis of \<open>M_AddToBox\<close>.\<close>

definition axis_add :: "fixed_t \<times> fixed_t \<Rightarrow> fixed_t \<Rightarrow> fixed_t \<times> fixed_t" where
  "axis_add lh v = (if v < fst lh then (v, snd lh) else if snd lh < v then (fst lh, v) else lh)"

lemma M_AddToBox_axes:
  "(BOXLEFT (M_AddToBox b x y), BOXRIGHT (M_AddToBox b x y)) = axis_add (BOXLEFT b, BOXRIGHT b) x"
  "(BOXBOTTOM (M_AddToBox b x y), BOXTOP (M_AddToBox b x y)) = axis_add (BOXBOTTOM b, BOXTOP b) y"
  by (simp_all add: M_AddToBox_def axis_add_def Let_def)

lemma add_points_axes:
  "(BOXLEFT (add_points b ps), BOXRIGHT (add_points b ps))
     = fold (\<lambda>v lh. axis_add lh v) (map fst ps) (BOXLEFT b, BOXRIGHT b)"
  "(BOXBOTTOM (add_points b ps), BOXTOP (add_points b ps))
     = fold (\<lambda>v lh. axis_add lh v) (map snd ps) (BOXBOTTOM b, BOXTOP b)"
  unfolding add_points_def
  by (induction ps arbitrary: b) (auto simp: M_AddToBox_axes)

lemma axis_fold_lo:
  "fst (fold (\<lambda>v lh. axis_add lh v) vs lh) = fold min vs (fst lh)"
  by (induction vs arbitrary: lh) (auto simp: axis_add_def min_def)

lemma axis_fold_hi_bounds:
  "snd lh \<le> snd (fold (\<lambda>v lh. axis_add lh v) vs lh)"
  "snd (fold (\<lambda>v lh. axis_add lh v) vs lh) \<in> insert (snd lh) (set vs)"
proof (induction vs arbitrary: lh)
  case (Cons v vs)
  { case 1
    have "snd lh \<le> snd (axis_add lh v)" by (simp add: axis_add_def)
    with Cons(1) [of "axis_add lh v"] show ?case by simp
  next
    case 2
    have "snd (axis_add lh v) \<in> {snd lh, v}" by (simp add: axis_add_def)
    with Cons(2) [of "axis_add lh v"] show ?case by auto
  }
qed simp_all

lemma axis_fold_hi_seen:
  "v \<in> set vs \<Longrightarrow> fst lh \<le> v \<Longrightarrow> v \<le> snd (fold (\<lambda>v lh. axis_add lh v) vs lh)"
proof (induction vs arbitrary: lh)
  case (Cons u vs)
  show ?case
  proof (cases "u = v")
    case True
    with Cons.prems have "v \<le> snd (axis_add lh u)" by (auto simp: axis_add_def)
    with axis_fold_hi_bounds(1) [of "axis_add lh u" vs] show ?thesis by simp
  next
    case False
    moreover have "fst (axis_add lh u) \<le> fst lh" by (simp add: axis_add_def)
    ultimately show ?thesis using Cons.IH [of "axis_add lh u"] Cons.prems by simp
  qed
qed simp

text \<open>
  The second test of \<open>M_AddToBox\<close> is skipped when the first one fires, so a value
  that lowers the minimum is not considered for the maximum; the next occurrence of
  the same value is.
\<close>

lemma axis_fold_hi_twice:
  "2 \<le> count_list vs v \<Longrightarrow> v \<le> snd (fold (\<lambda>v lh. axis_add lh v) vs lh)"
proof (induction vs arbitrary: lh)
  case (Cons u vs)
  show ?case
  proof (cases "u = v")
    case True
    with Cons.prems have "v \<in> set vs"
      by (metis Suc_le_lessD Suc_le_mono count_list.simps(2) count_notin numeral_2_eq_2 not_less0
          add.commute plus_1_eq_Suc)
    moreover have "fst (axis_add lh u) \<le> v" using True by (simp add: axis_add_def)
    ultimately show ?thesis using axis_fold_hi_seen [of v vs "axis_add lh u"] by simp
  next
    case False
    with Cons show ?thesis by simp
  qed
qed simp

section \<open>Properties\<close>

lemma c_div_mult_le: "\<bar>c_div a b * b\<bar> \<le> \<bar>a\<bar>"
proof -
  have "\<bar>c_div a b * b\<bar> = \<bar>a\<bar> - \<bar>a\<bar> mod \<bar>b\<bar>"
    by (simp add: abs_mult c_div_abs minus_mod_eq_div_mult)
  moreover have "0 \<le> \<bar>a\<bar> mod \<bar>b\<bar>"
    by (cases "b = 0") auto
  ultimately show ?thesis by simp
qed

lemma div_near:
  fixes a v e :: int
  assumes "\<bar>v - a * 65536\<bar> < e"
  shows "\<bar>v div 65536 - a\<bar> \<le> e div 65536 + 1"
proof -
  have "v div 65536 * 65536 \<le> v" "v < v div 65536 * 65536 + 65536"
    "e < e div 65536 * 65536 + 65536"
    by (simp_all add: minus_mod_eq_div_mult [symmetric])
  with assms show ?thesis by linarith
qed

lemma div_between:
  fixes v a :: int
  assumes "\<bar>v\<bar> \<le> \<bar>a * 65536\<bar>" "is_i32 a" "a = INT_MIN \<longrightarrow> v \<le> 0"
  shows "is_i32 (v div 65536)"
proof -
  have v: "v div 65536 * 65536 \<le> v" "v < v div 65536 * 65536 + 65536"
    by (simp_all add: minus_mod_eq_div_mult [symmetric])
  have "- (\<bar>a\<bar> * 65536) \<le> v" "v \<le> \<bar>a\<bar> * 65536"
    using assms(1) by (auto simp: abs_mult)
  with v assms(2,3) show ?thesis
    unfolding is_i32_def INT_MIN_def INT_MAX_def by (cases "a = - (2 ^ 31)") auto
qed

lemma c_div_trunc:
  assumes "b \<noteq> 0"
  shows "\<bar>c_div a b\<bar> * \<bar>b\<bar> \<le> \<bar>a\<bar>" "\<bar>a\<bar> < (\<bar>c_div a b\<bar> + 1) * \<bar>b\<bar>" "0 \<le> c_div a b * (a * b)"
proof -
  have m: "\<bar>a\<bar> div \<bar>b\<bar> * \<bar>b\<bar> = \<bar>a\<bar> - \<bar>a\<bar> mod \<bar>b\<bar>" by (simp add: minus_mod_eq_div_mult)
  have "0 \<le> \<bar>a\<bar> mod \<bar>b\<bar>" "\<bar>a\<bar> mod \<bar>b\<bar> < \<bar>b\<bar>" using assms by simp_all
  then show "\<bar>c_div a b\<bar> * \<bar>b\<bar> \<le> \<bar>a\<bar>" "\<bar>a\<bar> < (\<bar>c_div a b\<bar> + 1) * \<bar>b\<bar>"
    using m by (simp_all add: c_div_abs distrib_right)
  have "c_div a b * (a * b) = (\<bar>a\<bar> div \<bar>b\<bar>) * ((sgn a * a) * (sgn b * b))"
    unfolding c_div_def by (simp only: mult_ac)
  also have "\<dots> = (\<bar>a\<bar> div \<bar>b\<bar>) * (\<bar>a\<bar> * \<bar>b\<bar>)" by (simp only: abs_sgn mult.commute)
  finally show "0 \<le> c_div a b * (a * b)" by (simp add: div_int_pos_iff)
qed

text \<open>
  C7. \<open>FixedDiv\<close> never traps and always returns a value of type \<open>int\<close>. It saturates, with the sign of the
  quotient, exactly when the magnitude of the exact quotient of \<open>a * FRACUNIT\<close> by \<open>b\<close> is at least \<open>2 ^ 30\<close>
  (which is one bit below the range of an \<open>int\<close>); otherwise it returns the quotient truncated towards
  zero: the largest magnitude whose product with \<open>b\<close> does not exceed \<open>a * FRACUNIT\<close>, with the
  sign of the quotient. On a 32-bit target this needs both arguments to differ from \<open>INT_MIN\<close>.
\<close>

theorem FixedDiv_correct:
  assumes "fixed_args_ok arch a b"
  shows "\<exists>q. FixedDiv arch a b = Inr q \<and> is_i32 q \<and>
     (if 2 ^ 30 * \<bar>b\<bar> \<le> \<bar>a * FRACUNIT\<bar>
      then q = (if (a < 0) \<noteq> (b < 0) then INT_MIN else INT_MAX)
      else \<bar>q\<bar> < 2 ^ 30 \<and> \<bar>q\<bar> * \<bar>b\<bar> \<le> \<bar>a * FRACUNIT\<bar> \<and> \<bar>a * FRACUNIT\<bar> < (\<bar>q\<bar> + 1) * \<bar>b\<bar> \<and> 0 \<le> q * (a * b))"
proof -
  have g: "2 ^ 30 * \<bar>b\<bar> \<le> \<bar>a * FRACUNIT\<bar> \<longleftrightarrow> \<bar>b\<bar> \<le> \<bar>a\<bar> div 16384" by (simp add: abs_mult) linarith
  show ?thesis
  proof (cases "\<bar>b\<bar> \<le> \<bar>a\<bar> div 16384")
    case True
    have "is_i32 INT_MIN" "is_i32 INT_MAX" by (simp_all add: is_i32_def INT_MIN_def INT_MAX_def)
    then show ?thesis unfolding g using True FixedDiv_cases [OF assms] by auto
  next
    case False
    note q = FixedDiv_quotient_small [OF False]
    have "is_i32 (c_div (a * 65536) b)" using q(2) unfolding is_i32_iff by simp linarith
    moreover have "0 \<le> c_div (a * 65536) b * (a * b)"
      using c_div_trunc(3) [OF q(1), of "a * 65536"] by (simp add: mult.assoc mult.left_commute zero_le_mult_iff mult_le_0_iff)
    ultimately show ?thesis
      unfolding g using False FixedDiv_cases [OF assms] q c_div_trunc(1,2) [OF q(1), of "a * 65536"] by simp
  qed
qed

theorem FixedDiv_correct_witness:
  "fixed_args_ok LP64 INT_MIN 3 \<and> FixedDiv LP64 INT_MIN 3 = Inr INT_MIN \<and>
   fixed_args_ok ILP32 (- 5) (2 * FRACUNIT) \<and> FixedDiv ILP32 (- 5) (2 * FRACUNIT) = Inr (- 2)"
proof -
  have 1: "fixed_args_ok LP64 INT_MIN 3" and 2: "fixed_args_ok ILP32 (- 5) (2 * FRACUNIT)"
    by (simp_all add: fixed_args_ok_def is_i32_def INT_MIN_def INT_MAX_def)
  have "FixedDiv LP64 INT_MIN 3 = Inr INT_MIN"
    using FixedDiv_correct [OF 1] by (simp add: INT_MIN_def)
  moreover obtain q where "FixedDiv ILP32 (- 5) (2 * FRACUNIT) = Inr q" and q: "\<bar>q\<bar> * 131072 \<le> 327680" "327680 < (\<bar>q\<bar> + 1) * 131072" "q \<le> 0"
    using FixedDiv_correct [OF 2] by (auto simp: zero_le_mult_iff)
  moreover have "q = - 2" using q by (simp add: abs_if split: if_splits)
  ultimately show ?thesis using 1 2 by simp
qed

text \<open>
  C11. Where \<open>FixedDiv\<close> does not saturate (\<open>|a| >> 14 < |b|\<close>; a saturated result cannot be multiplied back), multiplying its
  quotient by \<open>b\<close> with \<open>FixedMul\<close> loses at most \<open>|b| / FRACUNIT + 1\<close> units: there, fixed point division and multiplication are
  inverse up to rounding, and the product does not overflow.
\<close>

theorem FixedMul_FixedDiv:
  assumes ok: "fixed_args_ok arch a b"
    and nosat: "\<bar>a\<bar> div 2 ^ 14 < \<bar>b\<bar>"
    and q: "FixedDiv arch a b = Inr q"
  shows "\<bar>FixedMul q b - a\<bar> \<le> \<bar>b\<bar> div FRACUNIT + 1"
proof -
  have "\<not> \<bar>b\<bar> \<le> \<bar>a\<bar> div 16384" using nosat by simp
  with q FixedDiv_cases [OF ok] have q: "q = c_div (a * 65536) b" by auto
  have b: "b \<noteq> 0" using FixedDiv_quotient_small(1) nosat by auto
  have neg: "a = INT_MIN \<longrightarrow> q * b \<le> 0"
    by (auto simp: q c_div_def sgn_if INT_MIN_def mult_le_0_iff div_int_pos_iff)
  have "\<bar>q * b\<bar> \<le> \<bar>a * 65536\<bar>" unfolding q by (rule c_div_mult_le)
  then have "is_i32 (q * b div 65536)"
    using ok neg by (intro div_between) (auto simp: fixed_args_ok_def)
  then have "FixedMul q b = q * b div 65536"
    by (simp add: FixedMul_div i32_id)
  moreover have "\<bar>q * b - a * 65536\<bar> < \<bar>b\<bar>"
    unfolding q using b by (rule c_div_error)
  ultimately show ?thesis
    using div_near [of "q * b" a "\<bar>b\<bar>"] by simp
qed

theorem FixedMul_FixedDiv_witness:
  "\<bar>FixedMul 21845 (3 * FRACUNIT) - 65536\<bar> \<le> \<bar>3 * FRACUNIT\<bar> div FRACUNIT + 1"
proof -
  have ok: "fixed_args_ok ILP32 65536 (3 * FRACUNIT)"
    by (simp add: fixed_args_ok_def is_i32_iff INT_MIN_def)
  moreover have "FixedDiv ILP32 65536 (3 * FRACUNIT) = Inr 21845"
    using FixedDiv_cases [OF ok] by (simp add: c_div_def)
  ultimately show ?thesis
    using FixedMul_FixedDiv [of ILP32 65536 "3 * FRACUNIT" 21845] by simp
qed

text \<open>
  C16. \<open>FixedDiv\<close> is meant to saturate instead of dividing by zero. Of all arguments on both targets there is exactly one
  pair for which it does divide by zero: \<open>INT_MIN\<close> by zero on a 32-bit target, where \<open>abs(INT_MIN)\<close> is
  negative in \<open>long\<close> and passes the guard. In all other cases it returns a value of type \<open>int\<close>.
\<close>

theorem FixedDiv_INT_MIN_zero:
  assumes "is_i32 a" "is_i32 b"
  shows "(if arch = ILP32 \<and> a = INT_MIN \<and> b = 0 then FixedDiv arch a b = Inl Div_By_Zero
    else \<exists>q. FixedDiv arch a b = Inr q \<and> is_i32 q)"
proof -
  have m: "i32 (2 ^ 31) = - (2 ^ 31)"
    by (simp add: i32_def signed_take_bit_eq_if_positive signed_take_bit_eq_if_negative bit_iff_odd)
  have r: "is_i32 INT_MIN" "is_i32 INT_MAX" by (simp_all add: is_i32_def INT_MIN_def INT_MAX_def)
  show ?thesis
  proof (cases "b = 0")
    case True
    have "0 \<le> abs_long arch a \<longleftrightarrow> \<not> (arch = ILP32 \<and> a = INT_MIN)"
      using assms(1) m abs_long_eq [OF assms(1), of arch] by (cases arch; cases "a = INT_MIN") (auto simp: INT_MIN_def)
    moreover have "abs_long arch b = 0" using True by (cases arch) simp_all
    ultimately have "FixedDiv arch a b = (if arch = ILP32 \<and> a = INT_MIN then Inl Div_By_Zero else Inr (if (a XOR b) < 0 then INT_MIN else INT_MAX))"
      unfolding FixedDiv_def div_s64_def True by (simp only: drop_bit_nonnegative_int_iff) simp
    then show ?thesis using True r by (cases "arch = ILP32 \<and> a = INT_MIN") (auto split: if_splits)
  next
    case False
    then show ?thesis using r by (auto simp: FixedDiv_def div_s64_def)
  qed
qed

theorem FixedDiv_INT_MIN_zero_witness:
  "FixedDiv ILP32 INT_MIN 0 = Inl Div_By_Zero \<and> (\<exists>q. FixedDiv LP64 INT_MIN 0 = Inr q \<and> is_i32 q)"
proof -
  have "is_i32 INT_MIN" "is_i32 0" by (simp_all add: is_i32_def INT_MIN_def INT_MAX_def)
  then show ?thesis using FixedDiv_INT_MIN_zero [of INT_MIN 0 ILP32] FixedDiv_INT_MIN_zero [of INT_MIN 0 LP64] by simp
qed

text \<open>
  C12. The play simulation's random numbers depend only on how many of them were
  drawn since \<open>M_ClearRandom\<close>: however the draws of the menu, status bar and
  sound code (\<open>M_Random\<close>) are interleaved, the \<open>k\<close>-th \<open>P_Random\<close> is entry
  \<open>k + 1 mod 256\<close> of the table, so demos and net games stay in step.
\<close>

theorem P_Random_deterministic:
  "fst (rng_run (M_ClearRandom s) ds) =
     map (\<lambda>k. rndtable ! (Suc k mod 256)) [0..<count_list ds True]"
proof -
  have "rng_ok (M_ClearRandom s)" by (simp add: M_ClearRandom_def rng_ok_def)
  from rng_run_playsim [OF this, of ds] show ?thesis
    by (simp add: M_ClearRandom_def)
qed

lemma axis_exact:
  assumes "vs \<noteq> []" "\<forall>v\<in>set vs. 2 \<le> count_list vs v" "\<forall>v\<in>set vs. is_i32 v"
    and "fold (\<lambda>v lh. axis_add lh v) vs (INT_MAX, INT_MIN) = (lo, hi)"
  shows "lo = Min (set vs) \<and> hi = Max (set vs)"
proof
  have lo: "lo = fold min vs INT_MAX"
    using axis_fold_lo [of vs "(INT_MAX, INT_MIN)"] assms(4) by simp
  have "fold min vs INT_MAX = Min (insert INT_MAX (set vs))"
    by (simp add: Min.set_eq_fold [of INT_MAX vs, symmetric])
  also have "\<dots> = Min (set vs)"
    using assms(1,3) by (auto simp: is_i32_def min_def Min_le_iff intro!: antisym)
  finally show "lo = Min (set vs)" using lo by simp
  have up: "v \<le> hi" if "v \<in> set vs" for v
    using axis_fold_hi_twice [of vs v "(INT_MAX, INT_MIN)"] assms(2,4) that by simp
  moreover have "hi \<in> set vs"
  proof -
    have "hi \<in> insert INT_MIN (set vs)"
      using axis_fold_hi_bounds(2) [of vs "(INT_MAX, INT_MIN)"] assms(4) by simp
    moreover have "hi = INT_MIN \<Longrightarrow> hi \<in> set vs"
      using assms(1,3) up by (cases vs) (force simp: is_i32_def)+
    ultimately show ?thesis by auto
  qed
  ultimately show "hi = Max (set vs)"
    by (metis List.finite_set Max_eqI)
qed

text \<open>
  C13. A box that starts cleared and receives every point at least twice, as the
  sector boxes of \<open>P_GroupLines\<close> receive every vertex of a closed outline, is the
  exact bounding box. (A point added once to a cleared box only sets the lower
  bounds.)
\<close>

theorem M_AddToBox_bounding_box:
  assumes "ps \<noteq> []"
    and "\<forall>v\<in>set (map fst ps). 2 \<le> count_list (map fst ps) v"
    and "\<forall>v\<in>set (map snd ps). 2 \<le> count_list (map snd ps) v"
    and "\<forall>(x, y)\<in>set ps. is_i32 x \<and> is_i32 y"
  shows "add_points M_ClearBox ps =
    \<lparr>BOXTOP = Max (snd ` set ps), BOXBOTTOM = Min (snd ` set ps),
     BOXLEFT = Min (fst ` set ps), BOXRIGHT = Max (fst ` set ps)\<rparr>"
proof -
  let ?b = "add_points M_ClearBox ps"
  have "BOXLEFT ?b = Min (set (map fst ps)) \<and> BOXRIGHT ?b = Max (set (map fst ps))"
    using assms add_points_axes(1) [of M_ClearBox ps]
    by (intro axis_exact) (auto simp: M_ClearBox_def)
  moreover have "BOXBOTTOM ?b = Min (set (map snd ps)) \<and> BOXTOP ?b = Max (set (map snd ps))"
    using assms add_points_axes(2) [of M_ClearBox ps]
    by (intro axis_exact) (auto simp: M_ClearBox_def)
  ultimately show ?thesis by simp
qed

theorem M_AddToBox_bounding_box_witness:
  "add_points M_ClearBox [(5, 1), (2, 7), (2, 1), (5, 7)] =
     \<lparr>BOXTOP = Max {1, 7}, BOXBOTTOM = Min {1, 7}, BOXLEFT = Min {5, 2}, BOXRIGHT = Max {5, 2}\<rparr>"
  using M_AddToBox_bounding_box [of "[(5, 1), (2, 7), (2, 1), (5, 7)]"]
  by (simp add: is_i32_iff insert_commute)

end
