(* ===== verification/Input.thy ===== *)
theory Input
  imports Fixed
begin

text \<open>
  The input path of the port. barebox reports a key (\<^verbatim>\<open>struct input_event\<close>) to
  \<open>key_input_notify\<close>, which translates it and puts it in a ring of 16 keys
  (\<^verbatim>\<open>doomgeneric_barebox.c\<close>); once per frame \<open>I_GetEvent\<close> (\<^verbatim>\<open>i_input.c\<close>) takes keys
  out, tracks the shift key and posts events to the ring of 64 events of
  \<^verbatim>\<open>d_event.c\<close>, which the game reads with \<open>D_PopEvent\<close>. Both rings satisfy the queue
  contract \<open>fifo\<close>.
\<close>

section \<open>The queue contract\<close>

text \<open>
  An operation on a queue is a put (\<open>Some x\<close>) or a get (\<open>None\<close>); a run collects
  what the gets returned. \<open>fits\<close> follows the number of queued elements along the
  operations and says that it never passes the capacity.
\<close>

fun queue_run ::
  "('a \<Rightarrow> 's \<Rightarrow> 's) \<Rightarrow> ('s \<Rightarrow> ('a \<times> 's) option) \<Rightarrow> 's \<Rightarrow> 'a option list \<Rightarrow> 'a list \<times> 's" where
  "queue_run pt gt s [] = ([], s)"
| "queue_run pt gt s (Some x # ops) = queue_run pt gt (pt x s) ops"
| "queue_run pt gt s (None # ops) =
     (case gt s of None \<Rightarrow> queue_run pt gt s ops
      | Some (x, s') \<Rightarrow> (case queue_run pt gt s' ops of (xs, s'') \<Rightarrow> (x # xs, s'')))"

fun fits :: "nat \<Rightarrow> nat \<Rightarrow> 'a option list \<Rightarrow> bool" where
  "fits c n [] \<longleftrightarrow> True"
| "fits c n (Some x # ops) \<longleftrightarrow> n < c \<and> fits c (Suc n) ops"
| "fits c n (None # ops) \<longleftrightarrow> fits c (n - 1) ops"

definition puts :: "'a option list \<Rightarrow> 'a list" where
  "puts ops = List.map_filter id ops"

lemma puts_simps [simp]:
  "puts [] = []" "puts (Some x # ops) = x # puts ops" "puts (None # ops) = puts ops"
  by (simp_all add: puts_def List.map_filter_simps)

locale fifo =
  fixes put :: "'a \<Rightarrow> 's \<Rightarrow> 's"
    and get :: "'s \<Rightarrow> ('a \<times> 's) option"
    and contents :: "'s \<Rightarrow> 'a list"
    and valid :: "'s \<Rightarrow> bool"
    and elem :: "'a \<Rightarrow> bool"
    and capacity :: nat
  assumes valid_put: "valid s \<Longrightarrow> valid (put x s)"
    and valid_get: "valid s \<Longrightarrow> get s = Some (x, s') \<Longrightarrow> valid s'"
    and contents_put: "valid s \<Longrightarrow> elem x \<Longrightarrow> length (contents s) < capacity \<Longrightarrow> contents (put x s) = contents s @ [x]"
    and contents_put_full: "valid s \<Longrightarrow> length (contents s) = capacity \<Longrightarrow> contents (put x s) = []"
    and get_None: "valid s \<Longrightarrow> get s = None \<longleftrightarrow> contents s = []"
    and get_Some: "valid s \<Longrightarrow> get s = Some (x, s') \<Longrightarrow> contents s = x # contents s'"
begin

lemma run_fifo:
  "valid s \<Longrightarrow> list_all elem (puts ops) \<Longrightarrow> fits capacity (length (contents s)) ops \<Longrightarrow>
   queue_run put get s ops = (xs, s') \<Longrightarrow> valid s' \<and> contents s @ puts ops = xs @ contents s'"
proof (induction ops arbitrary: s xs s')
  case Nil
  then show ?case by simp
next
  case (Cons op ops)
  show ?case
  proof (cases op)
    case (Some x)
    have "contents (put x s) = contents s @ [x]"
      using Cons.prems Some by (intro contents_put) auto
    moreover have "valid s' \<and> contents (put x s) @ puts ops = xs @ contents s'"
      using Cons.prems Some calculation by (intro Cons.IH valid_put) auto
    ultimately show ?thesis using Some by simp
  next
    case None
    show ?thesis
    proof (cases "get s")
      case empty: None
      have "contents s = []" using empty Cons.prems(1) by (simp add: get_None [symmetric])
      moreover have "valid s' \<and> contents s @ puts ops = xs @ contents s'"
        using Cons.prems None empty calculation by (intro Cons.IH) auto
      ultimately show ?thesis using None by simp
    next
      case (Some p)
      then obtain x s1 where p: "get s = Some (x, s1)" by (cases p) auto
      obtain ys s2 where r: "queue_run put get s1 ops = (ys, s2)" by fastforce
      have c: "contents s = x # contents s1" by (rule get_Some [OF Cons.prems(1) p])
      have eq: "xs = x # ys" "s' = s2" using Cons.prems(4) None p r by auto
      have "valid s2 \<and> contents s1 @ puts ops = ys @ contents s2"
        using Cons.prems None c by (intro Cons.IH [OF valid_get [OF Cons.prems(1) p] _ _ r]) auto
      with None c eq show ?thesis by simp
    qed
  qed
qed

end

section \<open>Events: \<^verbatim>\<open>d_event.c\<close>\<close>

datatype evtype_t = ev_keydown | ev_keyup | ev_mouse | ev_joystick | ev_quit

record event_t =
  ev_type :: evtype_t
  data1 :: int
  data2 :: int
  data3 :: int
  data4 :: int

definition MAXEVENTS :: nat where "MAXEVENTS = 64"

record evqueue =
  events :: "event_t list"
  eventhead :: nat
  eventtail :: nat

definition D_PostEvent :: "event_t \<Rightarrow> evqueue \<Rightarrow> evqueue" where
  "D_PostEvent ev q =
     q\<lparr>events := (events q)[eventhead q := ev],
       eventhead := (eventhead q + 1) mod MAXEVENTS\<rparr>"

definition D_PopEvent :: "evqueue \<Rightarrow> (event_t \<times> evqueue) option" where
  "D_PopEvent q =
     (if eventtail q = eventhead q then None
      else Some (events q ! eventtail q, q\<lparr>eventtail := (eventtail q + 1) mod MAXEVENTS\<rparr>))"

definition ev_valid :: "evqueue \<Rightarrow> bool" where
  "ev_valid q \<longleftrightarrow> length (events q) = MAXEVENTS \<and> eventhead q < MAXEVENTS \<and> eventtail q < MAXEVENTS"

definition ev_contents :: "evqueue \<Rightarrow> event_t list" where
  "ev_contents q = ring_contents MAXEVENTS (events q) (eventtail q) (eventhead q)"

section \<open>The key queue: \<^verbatim>\<open>doomgeneric_barebox.c\<close>\<close>

definition KEYQUEUE_SIZE :: nat where "KEYQUEUE_SIZE = 16"

record keyqueue =
  s_KeyQueue :: "int list"
  s_KeyQueueWriteIndex :: nat
  s_KeyQueueReadIndex :: nat

text \<open>The cells are \<open>unsigned short\<close>.\<close>

definition addKeyToQueue :: "int \<Rightarrow> keyqueue \<Rightarrow> keyqueue" where
  "addKeyToQueue keyData q =
     q\<lparr>s_KeyQueue := (s_KeyQueue q)[s_KeyQueueWriteIndex q := take_bit 16 keyData],
       s_KeyQueueWriteIndex := (s_KeyQueueWriteIndex q + 1) mod KEYQUEUE_SIZE\<rparr>"

definition DG_GetKey :: "keyqueue \<Rightarrow> ((int \<times> int) \<times> keyqueue) option" where
  "DG_GetKey q =
     (if s_KeyQueueReadIndex q = s_KeyQueueWriteIndex q then None
      else (let keyData = s_KeyQueue q ! s_KeyQueueReadIndex q
            in Some ((drop_bit 8 keyData, keyData AND 255),
                     q\<lparr>s_KeyQueueReadIndex := (s_KeyQueueReadIndex q + 1) mod KEYQUEUE_SIZE\<rparr>)))"

definition NR_KEYS :: nat where "NR_KEYS = 256"

text \<open>The keymap of \<^verbatim>\<open>drivers/input/keymap.c\<close> and the character classes of \<^verbatim>\<open>lib/ctype.c\<close>.\<close>

definition keycode_bb_keys :: "int list" where
  "keycode_bb_keys =
    [255, 27, 49, 50, 51, 52, 53, 54, 55, 56, 57, 48, 45, 61, 8, 9,
     113, 119, 101, 114, 116, 121, 117, 105, 111, 112, 91, 93, 10, 0, 97, 115,
     100, 102, 103, 104, 106, 107, 108, 59, 96, 94, 0, 92, 122, 120, 99, 118,
     98, 110, 109, 44, 46, 47, 0, 0, 0, 32, 0, 0, 0, 0, 0, 0,
     0, 0, 0, 0, 0, 0, 0, 55, 56, 57, 45, 52, 53, 54, 43, 49,
     50, 51, 48, 46, 0, 0, 0, 0, 0, 0, 0, 0, 0, 0, 0, 0,
     10, 0, 0, 0, 0, 0, 1, 16, 135, 2, 6, 133, 14, 136, 15, 137,
     0, 0, 0, 0, 0, 61, 0, 0, 0, 44, 0, 0, 0, 0, 0, 0,
     0, 0, 0, 0, 0, 0, 0, 0, 0, 0, 0, 0, 0, 0, 0, 0,
     0, 0, 0, 0, 0, 0, 0, 0, 0, 0, 0, 0, 0, 0, 0, 0,
     0, 0, 0, 0, 0, 0, 0, 0, 0, 0, 0, 0, 0, 0, 0, 0,
     0, 0, 0, 0, 0, 0, 0, 0, 0, 0, 0, 0, 0, 0, 0, 0,
     0, 0, 0, 0, 0, 0, 0, 0, 0, 0, 0, 0, 0, 0, 0, 0,
     0, 0, 0, 0, 0, 0, 0, 0, 0, 0, 0, 0, 0, 0, 0, 0,
     0, 0, 0, 0, 0, 0, 0, 0, 0, 0, 0, 0, 0, 0, 0, 0,
     0, 0, 0, 0, 0, 0, 0, 0, 0, 0, 0, 0, 0, 0, 0, 0]"

definition ctype_table :: "int list" where
  "ctype_table =
    [8, 8, 8, 8, 8, 8, 8, 8, 8, 40, 40, 40, 40, 40, 8, 8,
     8, 8, 8, 8, 8, 8, 8, 8, 8, 8, 8, 8, 8, 8, 8, 8,
     160, 16, 16, 16, 16, 16, 16, 16, 16, 16, 16, 16, 16, 16, 16, 16,
     4, 4, 4, 4, 4, 4, 4, 4, 4, 4, 16, 16, 16, 16, 16, 16,
     16, 65, 65, 65, 65, 65, 65, 1, 1, 1, 1, 1, 1, 1, 1, 1,
     1, 1, 1, 1, 1, 1, 1, 1, 1, 1, 1, 16, 16, 16, 16, 16,
     16, 66, 66, 66, 66, 66, 66, 2, 2, 2, 2, 2, 2, 2, 2, 2,
     2, 2, 2, 2, 2, 2, 2, 2, 2, 2, 2, 16, 16, 16, 16, 8,
     0, 0, 0, 0, 0, 0, 0, 0, 0, 0, 0, 0, 0, 0, 0, 0,
     0, 0, 0, 0, 0, 0, 0, 0, 0, 0, 0, 0, 0, 0, 0, 0,
     160, 16, 16, 16, 16, 16, 16, 16, 16, 16, 16, 16, 16, 16, 16, 16,
     16, 16, 16, 16, 16, 16, 16, 16, 16, 16, 16, 16, 16, 16, 16, 16,
     1, 1, 1, 1, 1, 1, 1, 1, 1, 1, 1, 1, 1, 1, 1, 1,
     1, 1, 1, 1, 1, 1, 1, 16, 1, 1, 1, 1, 1, 1, 1, 2,
     2, 2, 2, 2, 2, 2, 2, 2, 2, 2, 2, 2, 2, 2, 2, 2,
     2, 2, 2, 2, 2, 2, 2, 16, 2, 2, 2, 2, 2, 2, 2, 2]"

definition isprint :: "int \<Rightarrow> bool" where
  "isprint c \<longleftrightarrow> ctype_table ! nat (take_bit 8 c) AND (16 OR 1 OR 2 OR 4 OR 128) \<noteq> 0"

fun special_key :: "nat \<Rightarrow> int option" where
  "special_key key =
     (if key = 28 then Some 13
      else if key = 105 then Some 172
      else if key = 106 then Some 174
      else if key = 103 then Some 173
      else if key = 108 then Some 175
      else if key = 97 \<or> key = 29 \<or> key = 44 then Some 163
      else if key = 57 then Some 162
      else if key = 18 \<or> key = 54 then Some 182
      else if key = 1 \<or> key = 14 then Some 27
      else None)"

text \<open>
  The \<open>default\<close> branch reads the keymap for every code up to and including
  \<open>NR_KEYS\<close>; the table has \<open>NR_KEYS\<close> entries.
\<close>

definition convertToDoomKey :: "nat \<Rightarrow> int result" where
  "convertToDoomKey key =
     (case special_key key of
        Some k \<Rightarrow> Inr k
      | None \<Rightarrow>
          if key > NR_KEYS then Inr (-1)
          else if key \<ge> length keycode_bb_keys then Inl Bad_Access
          else (let k = keycode_bb_keys ! key in Inr (if isprint k then k else -1)))"

record input_event =
  code :: nat
  val :: int

definition key_input_notify :: "input_event \<Rightarrow> keyqueue \<Rightarrow> keyqueue result" where
  "key_input_notify ev q =
     bindE (convertToDoomKey (code ev)) (\<lambda>keyData.
       if keyData < 0 then Inr q
       else Inr (addKeyToQueue (keyData OR push_bit 8 (val ev)) q))"

definition key_valid :: "keyqueue \<Rightarrow> bool" where
  "key_valid q \<longleftrightarrow> length (s_KeyQueue q) = KEYQUEUE_SIZE \<and>
     s_KeyQueueWriteIndex q < KEYQUEUE_SIZE \<and> s_KeyQueueReadIndex q < KEYQUEUE_SIZE"

definition key_contents :: "keyqueue \<Rightarrow> (int \<times> int) list" where
  "key_contents q = map (\<lambda>d. (drop_bit 8 d, d AND 255))
     (ring_contents KEYQUEUE_SIZE (s_KeyQueue q) (s_KeyQueueReadIndex q) (s_KeyQueueWriteIndex q))"

text \<open>A key as the queue carries it: the press value and the key code, 8 bits each.\<close>

definition key_word :: "int \<times> int \<Rightarrow> int" where
  "key_word pk = snd pk OR push_bit 8 (fst pk)"

definition key_pair_ok :: "int \<times> int \<Rightarrow> bool" where
  "key_pair_ok pk \<longleftrightarrow> 0 \<le> fst pk \<and> fst pk < 256 \<and> 0 \<le> snd pk \<and> snd pk < 256"

section \<open>Events from keys: \<^verbatim>\<open>i_input.c\<close>\<close>

definition shiftxform :: "int list" where
  "shiftxform =
    [0, 1, 2, 3, 4, 5, 6, 7, 8, 9, 10, 11, 12, 13, 14, 15,
     16, 17, 18, 19, 20, 21, 22, 23, 24, 25, 26, 27, 28, 29, 30, 31,
     32, 33, 34, 35, 36, 37, 38, 34, 40, 41, 42, 43, 60, 95, 62, 63,
     41, 33, 64, 35, 36, 37, 94, 38, 42, 40, 58, 58, 60, 43, 62, 63,
     64, 65, 66, 67, 68, 69, 70, 71, 72, 73, 74, 75, 76, 77, 78, 79,
     80, 81, 82, 83, 84, 85, 86, 87, 88, 89, 90, 91, 33, 93, 34, 95,
     39, 65, 66, 67, 68, 69, 70, 71, 72, 73, 74, 75, 76, 77, 78, 79,
     80, 81, 82, 83, 84, 85, 86, 87, 88, 89, 90, 123, 124, 125, 126, 127]"

definition TranslateKey :: "int \<Rightarrow> int" where
  "TranslateKey key = key"

definition GetTypedChar :: "int \<Rightarrow> int \<Rightarrow> int" where
  "GetTypedChar shiftdown key =
     (let key = TranslateKey key
      in if shiftdown > 0
         then (if 0 \<le> key \<and> nat key < length shiftxform then shiftxform ! nat key else 0)
         else key)"

definition DOOM_KEY_RSHIFT :: int where "DOOM_KEY_RSHIFT = 0x80 + 0x36"

definition UpdateShiftStatus :: "int \<Rightarrow> int \<Rightarrow> int \<Rightarrow> int" where
  "UpdateShiftStatus pressed key shiftdown =
     (let change = (if pressed \<noteq> 0 then 1 else -1)
      in if key = DOOM_KEY_RSHIFT then i32 (shiftdown + change) else shiftdown)"

record input_state =
  keyq :: keyqueue
  evq :: evqueue
  shiftdown :: int

text \<open>
  One round of the loop of \<open>I_GetEvent\<close>; the flag says that the loop is left by
  \<open>break\<close>. \<open>data3\<close> and \<open>data4\<close> of the local variable \<open>event\<close> are never
  written: they keep what \<open>ev0\<close>, the stack, held.
\<close>

definition I_GetEvent_body :: "event_t \<Rightarrow> int \<times> int \<Rightarrow> input_state \<Rightarrow> bool \<times> input_state" where
  "I_GetEvent_body ev0 pk s =
     (let (pressed, key) = pk;
          s = s\<lparr>shiftdown := UpdateShiftStatus pressed key (shiftdown s)\<rparr>
      in if pressed \<noteq> 0
         then (let ev = ev0\<lparr>ev_type := ev_keydown, data1 := TranslateKey key,
                            data2 := GetTypedChar (shiftdown s) key\<rparr>
               in (False, if data1 ev \<noteq> 0 then s\<lparr>evq := D_PostEvent ev (evq s)\<rparr> else s))
         else (let ev = ev0\<lparr>ev_type := ev_keyup, data1 := TranslateKey key, data2 := 0\<rparr>
               in (True, if data1 ev \<noteq> 0 then s\<lparr>evq := D_PostEvent ev (evq s)\<rparr> else s)))"

partial_function (option) I_GetEvent_loop :: "event_t \<Rightarrow> input_state \<Rightarrow> input_state option" where
  "I_GetEvent_loop ev0 s =
     (case DG_GetKey (keyq s) of
        None \<Rightarrow> Some s
      | Some (pk, q) \<Rightarrow>
          (case I_GetEvent_body ev0 pk (s\<lparr>keyq := q\<rparr>) of
             (stop, s') \<Rightarrow> if stop then Some s' else I_GetEvent_loop ev0 s'))"

definition I_GetEvent :: "event_t \<Rightarrow> input_state \<Rightarrow> input_state option" where
  "I_GetEvent ev0 s = I_GetEvent_loop ev0 s"

section \<open>Both rings are queues\<close>

lemma ring_full_iff:
  fixes rd wr n :: nat
  assumes "rd < n" "wr < n"
  shows "(wr + n - rd) mod n = n - 1 \<longleftrightarrow> Suc wr mod n = rd"
  using assms by (auto simp: mod_if)

lemma ring_length: "length (ring_contents n buf rd wr) = (wr + n - rd) mod n"
  by (simp add: ring_contents_def)

lemma ring_not_full:
  fixes rd wr n :: nat
  assumes "rd < n" "wr < n" "(wr + n - rd) mod n < n - 1"
  shows "Suc wr mod n \<noteq> rd"
  using assms ring_full_iff [of rd n wr] by auto

lemma ring_empty_iff:
  assumes "rd < n" "wr < n"
  shows "ring_contents n buf rd wr = [] \<longleftrightarrow> rd = wr"
  using assms ring_contents_get [of rd n wr buf] by (cases "rd = wr") auto

interpretation evq: fifo D_PostEvent D_PopEvent ev_contents ev_valid "\<lambda>_. True" "MAXEVENTS - 1"
proof unfold_locales
  fix q :: evqueue and ev q'
  assume v: "ev_valid q"
  show "ev_valid (D_PostEvent ev q)"
    using v by (simp add: ev_valid_def D_PostEvent_def MAXEVENTS_def)
  show "ev_valid q'" if "D_PopEvent q = Some (ev, q')"
    using v that by (auto simp: ev_valid_def D_PopEvent_def MAXEVENTS_def split: if_splits)
  show "ev_contents (D_PostEvent ev q) = ev_contents q @ [ev]"
    if "length (ev_contents q) < MAXEVENTS - 1"
  proof -
    have "Suc (eventhead q) mod MAXEVENTS \<noteq> eventtail q"
      using v that ring_not_full by (simp add: ev_contents_def ring_length ev_valid_def)
    with v show ?thesis
      using ring_contents_put [of "events q" MAXEVENTS "eventtail q" "eventhead q" ev]
      by (simp add: ev_contents_def D_PostEvent_def ev_valid_def)
  qed
  show "ev_contents (D_PostEvent ev q) = []" if "length (ev_contents q) = MAXEVENTS - 1"
  proof -
    have "Suc (eventhead q) mod MAXEVENTS = eventtail q"
      using v that ring_full_iff by (simp add: ev_contents_def ring_length ev_valid_def)
    with v show ?thesis by (simp add: ev_contents_def D_PostEvent_def ev_valid_def)
  qed
  show "D_PopEvent q = None \<longleftrightarrow> ev_contents q = []"
    using v by (simp add: D_PopEvent_def ev_contents_def ring_empty_iff ev_valid_def)
  show "ev_contents q = ev # ev_contents q'" if "D_PopEvent q = Some (ev, q')"
    using v that ring_contents_get [of "eventtail q" MAXEVENTS "eventhead q" "events q"]
    by (auto simp: D_PopEvent_def ev_contents_def ev_valid_def split: if_splits)
qed

lemma key_word_split:
  assumes "key_pair_ok pk"
  shows "drop_bit 8 (take_bit 16 (key_word pk)) = fst pk" "take_bit 16 (key_word pk) AND 255 = snd pk"
proof -
  obtain p k where pk: "pk = (p, k)" by (cases pk)
  have k: "take_bit 8 k = k" and p: "take_bit 8 p = p"
    using assms by (auto simp: key_pair_ok_def pk take_bit_int_eq_self_iff)
  have d: "drop_bit 8 k = 0" using assms by (simp add: key_pair_ok_def pk drop_bit_eq_div)
  have m: "(255::int) = mask 8" by (simp add: mask_eq_exp_minus_1)
  show "drop_bit 8 (take_bit 16 (key_word pk)) = fst pk"
    using k p d by (simp add: pk key_word_def drop_bit_take_bit drop_bit_push_bit_int)
  show "take_bit 16 (key_word pk) AND 255 = snd pk"
    using k p by (simp add: pk key_word_def m take_bit_eq_mask [symmetric] take_bit_push_bit)
qed

interpretation keyq: fifo "\<lambda>pk. addKeyToQueue (key_word pk)" DG_GetKey key_contents key_valid
  key_pair_ok "KEYQUEUE_SIZE - 1"
proof unfold_locales
  fix q :: keyqueue and pk q'
  assume v: "key_valid q"
  show "key_valid (addKeyToQueue (key_word pk) q)"
    using v by (simp add: key_valid_def addKeyToQueue_def KEYQUEUE_SIZE_def)
  show "key_valid q'" if "DG_GetKey q = Some (pk, q')"
    using v that by (auto simp: key_valid_def DG_GetKey_def KEYQUEUE_SIZE_def Let_def split: if_splits)
  show "key_contents (addKeyToQueue (key_word pk) q) = key_contents q @ [pk]"
    if "key_pair_ok pk" "length (key_contents q) < KEYQUEUE_SIZE - 1"
  proof -
    have "Suc (s_KeyQueueWriteIndex q) mod KEYQUEUE_SIZE \<noteq> s_KeyQueueReadIndex q"
      using v that ring_not_full by (simp add: key_contents_def ring_length key_valid_def)
    with v show ?thesis
      using key_word_split [OF that(1)]
        ring_contents_put [of "s_KeyQueue q" KEYQUEUE_SIZE "s_KeyQueueReadIndex q"
          "s_KeyQueueWriteIndex q" "take_bit 16 (key_word pk)"]
      by (simp add: key_contents_def addKeyToQueue_def key_valid_def)
  qed
  show "key_contents (addKeyToQueue (key_word pk) q) = []"
    if "length (key_contents q) = KEYQUEUE_SIZE - 1"
  proof -
    have "Suc (s_KeyQueueWriteIndex q) mod KEYQUEUE_SIZE = s_KeyQueueReadIndex q"
      using v that ring_full_iff by (simp add: key_contents_def ring_length key_valid_def)
    with v show ?thesis by (simp add: key_contents_def addKeyToQueue_def key_valid_def)
  qed
  show "DG_GetKey q = None \<longleftrightarrow> key_contents q = []"
    using v by (simp add: DG_GetKey_def key_contents_def ring_empty_iff key_valid_def Let_def)
  show "key_contents q = pk # key_contents q'" if "DG_GetKey q = Some (pk, q')"
    using v that ring_contents_get [of "s_KeyQueueReadIndex q" KEYQUEUE_SIZE
      "s_KeyQueueWriteIndex q" "s_KeyQueue q"]
    by (auto simp: DG_GetKey_def key_contents_def key_valid_def Let_def split: if_splits)
qed

lemma length_key_contents: "length (key_contents q) \<le> 15"
  using length_ring_contents [of KEYQUEUE_SIZE "s_KeyQueue q" "s_KeyQueueReadIndex q" "s_KeyQueueWriteIndex q"]
  by (simp add: key_contents_def KEYQUEUE_SIZE_def)

section \<open>What a frame's input is\<close>

text \<open>
  The specification of \<open>I_GetEvent\<close>: a frame takes the queued keys up to and
  including the first release, and turns each into an event under the shift
  state that the keys before it leave.
\<close>

fun frame_keys :: "(int \<times> int) list \<Rightarrow> (int \<times> int) list" where
  "frame_keys [] = []"
| "frame_keys (pk # ks) = (if fst pk \<noteq> 0 then pk # frame_keys ks else [pk])"

definition key_event :: "event_t \<Rightarrow> int \<Rightarrow> int \<times> int \<Rightarrow> event_t" where
  "key_event ev0 sh pk =
     (if fst pk \<noteq> 0
      then ev0\<lparr>ev_type := ev_keydown, data1 := snd pk, data2 := GetTypedChar sh (snd pk)\<rparr>
      else ev0\<lparr>ev_type := ev_keyup, data1 := snd pk, data2 := 0\<rparr>)"

fun shift_after :: "int \<Rightarrow> (int \<times> int) list \<Rightarrow> int" where
  "shift_after sh [] = sh"
| "shift_after sh (pk # ks) = shift_after (UpdateShiftStatus (fst pk) (snd pk) sh) ks"

fun key_events :: "event_t \<Rightarrow> int \<Rightarrow> (int \<times> int) list \<Rightarrow> event_t list" where
  "key_events ev0 sh [] = []"
| "key_events ev0 sh (pk # ks) =
     (let sh' = UpdateShiftStatus (fst pk) (snd pk) sh
      in (if snd pk \<noteq> 0 then [key_event ev0 sh' pk] else []) @ key_events ev0 sh' ks)"

lemma I_GetEvent_body_spec:
  assumes "ev_valid (evq s)" "length (ev_contents (evq s)) < 63"
    and "I_GetEvent_body ev0 pk s = (brk, s')"
  shows "brk \<longleftrightarrow> fst pk = 0" "keyq s' = keyq s" "ev_valid (evq s')"
    "shiftdown s' = UpdateShiftStatus (fst pk) (snd pk) (shiftdown s)"
    "ev_contents (evq s') = ev_contents (evq s) @
       (if snd pk \<noteq> 0 then [key_event ev0 (shiftdown s') pk] else [])"
  using assms evq.contents_put [of "evq s"] evq.valid_put [of "evq s"]
  by (auto simp: I_GetEvent_body_def Let_def TranslateKey_def MAXEVENTS_def key_event_def
      split: prod.splits if_splits)

lemma I_GetEvent_loop_spec:
  assumes "key_valid (keyq s)" "ev_valid (evq s)"
    and "length (ev_contents (evq s)) + length (key_contents (keyq s)) \<le> 63"
  shows "\<exists>s'. I_GetEvent_loop ev0 s = Some s' \<and> key_valid (keyq s') \<and> ev_valid (evq s') \<and>
    key_contents (keyq s) = frame_keys (key_contents (keyq s)) @ key_contents (keyq s') \<and>
    ev_contents (evq s') = ev_contents (evq s) @
      key_events ev0 (shiftdown s) (frame_keys (key_contents (keyq s))) \<and>
    shiftdown s' = shift_after (shiftdown s) (frame_keys (key_contents (keyq s)))"
  using assms
proof (induction "length (key_contents (keyq s))" arbitrary: s rule: less_induct)
  case (less s)
  show ?case
  proof (cases "DG_GetKey (keyq s)")
    case None
    then have "key_contents (keyq s) = []" using keyq.get_None less.prems by blast
    with None less.prems show ?thesis by (subst I_GetEvent_loop.simps) simp
  next
    case (Some r)
    then obtain pk q where g: "DG_GetKey (keyq s) = Some (pk, q)" by (cases r) auto
    let ?s = "s\<lparr>keyq := q\<rparr>"
    obtain brk s1 where b: "I_GetEvent_body ev0 pk ?s = (brk, s1)" by fastforce
    have c: "key_contents (keyq s) = pk # key_contents q"
      and vq: "key_valid q"
      using keyq.get_Some [OF _ g] keyq.valid_get [OF _ g] less.prems by auto
    have "ev_valid (evq ?s)" "length (ev_contents (evq ?s)) < 63"
      using less.prems c by auto
    note bs = I_GetEvent_body_spec [OF this b]
    show ?thesis
    proof (cases brk)
      case True
      with g b bs c vq show ?thesis by (subst I_GetEvent_loop.simps) (simp add: Let_def)
    next
      case False
      have "length (key_contents (keyq s1)) < length (key_contents (keyq s))"
        "length (ev_contents (evq s1)) + length (key_contents (keyq s1)) \<le> 63"
        using less.prems bs c by auto
      with less.hyps [of s1] bs vq False g b c show ?thesis
        by (subst I_GetEvent_loop.simps) (auto simp: Let_def)
    qed
  qed
qed

section \<open>Properties\<close>

text \<open>
  C5. \<open>I_GetEvent\<close> always returns. It takes the queued keys in order, up to and
  including the first key release, leaves the rest for the next frame, and appends
  exactly their events, with the typed character under the shift state of the
  moment, to the event queue; it needs room for at most 15 more events.
\<close>

theorem I_GetEvent_correct:
  assumes "key_valid (keyq s)" "ev_valid (evq s)" "length (ev_contents (evq s)) \<le> 48"
  shows "\<exists>s'. I_GetEvent ev0 s = Some s' \<and> key_valid (keyq s') \<and> ev_valid (evq s') \<and>
    key_contents (keyq s) = frame_keys (key_contents (keyq s)) @ key_contents (keyq s') \<and>
    ev_contents (evq s') = ev_contents (evq s) @
      key_events ev0 (shiftdown s) (frame_keys (key_contents (keyq s))) \<and>
    shiftdown s' = shift_after (shiftdown s) (frame_keys (key_contents (keyq s)))"
  unfolding I_GetEvent_def using assms length_key_contents [of "keyq s"]
  by (intro I_GetEvent_loop_spec) (auto simp: KEYQUEUE_SIZE_def)

definition empty_input :: input_state where
  "empty_input =
     \<lparr>keyq = \<lparr>s_KeyQueue = replicate 16 0, s_KeyQueueWriteIndex = 0, s_KeyQueueReadIndex = 0\<rparr>,
      evq = \<lparr>events = replicate 64 \<lparr>ev_type = ev_keydown, data1 = 0, data2 = 0, data3 = 0, data4 = 0\<rparr>,
             eventhead = 0, eventtail = 0\<rparr>,
      shiftdown = 0\<rparr>"

lemma empty_input_valid:
  "key_valid (keyq empty_input)" "ev_valid (evq empty_input)"
  "key_contents (keyq empty_input) = []" "ev_contents (evq empty_input) = []"
  "shiftdown empty_input = 0"
  by (simp_all add: empty_input_def key_valid_def ev_valid_def KEYQUEUE_SIZE_def MAXEVENTS_def
      key_contents_def ev_contents_def)

theorem I_GetEvent_correct_witness:
  "\<exists>s'. I_GetEvent \<lparr>ev_type = ev_mouse, data1 = 0, data2 = 0, data3 = 7, data4 = 9\<rparr>
     (empty_input\<lparr>keyq := addKeyToQueue (key_word (0, 182))
       (addKeyToQueue (key_word (1, 97)) (addKeyToQueue (key_word (1, 182)) (keyq empty_input)))\<rparr>) = Some s' \<and>
   ev_contents (evq s') =
     [\<lparr>ev_type = ev_keydown, data1 = 182, data2 = 0, data3 = 7, data4 = 9\<rparr>,
      \<lparr>ev_type = ev_keydown, data1 = 97, data2 = 65, data3 = 7, data4 = 9\<rparr>,
      \<lparr>ev_type = ev_keyup, data1 = 182, data2 = 0, data3 = 7, data4 = 9\<rparr>]"
proof -
  let ?q = "addKeyToQueue (key_word (0, 182))
       (addKeyToQueue (key_word (1, 97)) (addKeyToQueue (key_word (1, 182)) (keyq empty_input)))"
  let ?s = "empty_input\<lparr>keyq := ?q\<rparr>"
  have "key_valid ?q"
    by (intro keyq.valid_put empty_input_valid)
  moreover have "key_contents ?q = [(1, 182), (1, 97), (0, 182)]"
    by (simp add: keyq.contents_put keyq.valid_put empty_input_valid key_pair_ok_def KEYQUEUE_SIZE_def)
  moreover have "i32 1 = 1" "i32 0 = 0"
    by (simp_all add: i32_id is_i32_iff)
  ultimately show ?thesis
    using I_GetEvent_correct [of ?s "\<lparr>ev_type = ev_mouse, data1 = 0, data2 = 0, data3 = 7, data4 = 9\<rparr>"]
    by (auto simp: empty_input_valid key_event_def GetTypedChar_def UpdateShiftStatus_def
        DOOM_KEY_RSHIFT_def TranslateKey_def shiftxform_def)
qed

text \<open>
  C9. Through any interleaving of posts and reads in which no more than 63 events
  are ever outstanding, the event queue neither loses, duplicates nor reorders
  an event: what was read, followed by what is still queued, is what was queued
  before followed by what was posted.
\<close>

theorem event_queue_fifo:
  assumes "ev_valid q" "fits 63 (length (ev_contents q)) ops"
    and "queue_run D_PostEvent D_PopEvent q ops = (evs, q')"
  shows "ev_valid q' \<and> ev_contents q @ puts ops = evs @ ev_contents q'"
  using assms by (intro evq.run_fifo) (auto simp: MAXEVENTS_def list_all_iff)

text \<open>Two key events are posted, one is read, a third is posted, one more is read.\<close>

definition demo_key :: "int \<Rightarrow> event_t" where
  "demo_key c = \<lparr>ev_type = ev_keydown, data1 = c, data2 = c, data3 = 0, data4 = 0\<rparr>"

definition demo_ops :: "event_t option list" where
  "demo_ops = [Some (demo_key 97), Some (demo_key 98), None, Some (demo_key 99), None]"

lemma demo_ops_fit: "fits 63 (length (ev_contents (evq empty_input))) demo_ops" "puts demo_ops = [demo_key 97, demo_key 98, demo_key 99]"
  by (simp_all add: demo_ops_def empty_input_valid)

theorem event_queue_fifo_witness:
  "fst (queue_run D_PostEvent D_PopEvent (evq empty_input) demo_ops) = [demo_key 97, demo_key 98] \<and>
   ev_contents (snd (queue_run D_PostEvent D_PopEvent (evq empty_input) demo_ops)) = [demo_key 99]"
proof -
  obtain evs q where r: "queue_run D_PostEvent D_PopEvent (evq empty_input) demo_ops = (evs, q)" by fastforce
  have "[demo_key 97, demo_key 98, demo_key 99] = evs @ ev_contents q"
    using event_queue_fifo [OF _ demo_ops_fit(1) r] demo_ops_fit(2) by (simp add: empty_input_valid)
  moreover have "length evs = 2"
    using r by (simp add: demo_ops_def empty_input_def D_PostEvent_def D_PopEvent_def MAXEVENTS_def Let_def split: prod.splits if_splits) auto
  then obtain x y where "evs = [x, y]" by (auto simp: length_Suc_conv numeral_2_eq_2)
  ultimately show ?thesis by (simp add: r)
qed

text \<open>
  C14. The 16th key that arrives before a read empties the key queue: the write index
  catches up with the read index, and all pending keys, the new one included, are lost.
\<close>

theorem key_queue_overflow:
  assumes "key_valid q" "length (key_contents q) = 15"
  shows "key_contents (addKeyToQueue (key_word pk) q) = []"
  using assms by (intro keyq.contents_put_full) (auto simp: KEYQUEUE_SIZE_def)

lemma fill_keys:
  assumes "key_pair_ok pk"
  shows "n \<le> 15 \<Longrightarrow> key_valid ((addKeyToQueue (key_word pk) ^^ n) (keyq empty_input)) \<and>
     length (key_contents ((addKeyToQueue (key_word pk) ^^ n) (keyq empty_input))) = n"
proof (induction n)
  case (Suc n)
  then show ?case
    using assms by (simp add: keyq.valid_put keyq.contents_put KEYQUEUE_SIZE_def)
qed (simp add: empty_input_valid)

theorem key_queue_overflow_witness:
  "key_contents (addKeyToQueue (key_word (0, 97))
     ((addKeyToQueue (key_word (1, 97)) ^^ 15) (keyq empty_input))) = []"
  using fill_keys [of "(1, 97)" 15]
  by (intro key_queue_overflow) (simp_all add: key_pair_ok_def)

lemma length_keycode_bb_keys: "length keycode_bb_keys = NR_KEYS"
  by (simp add: keycode_bb_keys_def NR_KEYS_def)

text \<open>
  C15. \<open>convertToDoomKey\<close> reads one entry past the end of the keymap for the key code
  \<open>NR_KEYS\<close> (\<open>BTN_MISC\<close>, which barebox reports) and for no other code.
\<close>

theorem convertToDoomKey_bad_access:
  "convertToDoomKey key = Inl Bad_Access \<longleftrightarrow> key = NR_KEYS"
  by (auto simp: convertToDoomKey_def length_keycode_bb_keys Let_def NR_KEYS_def split: option.splits)

end
