(* ===== verification/Cheat.thy ===== *)
theory Cheat
  imports Input
begin

text \<open>
  Cheat codes: the matcher of \<^verbatim>\<open>m_cheat.c\<close>, which the status bar feeds with the
  typed character (\<open>data2\<close>) of every key event, and what the key translation of the
  port means for it.
\<close>

section \<open>The matcher: \<^verbatim>\<open>m_cheat.c\<close>\<close>

text \<open>
  \<open>sequence\<close> holds the characters before the terminating zero, so its length is
  \<open>strlen(cht->sequence)\<close>.
\<close>

record cheatseq_t =
  sequence :: "int list"
  sequence_len :: nat
  parameter_chars :: int
  chars_read :: nat
  param_chars_read :: int
  parameter_buf :: "int list"

definition MAX_CHEAT_PARAMS :: nat where "MAX_CHEAT_PARAMS = 5"

text \<open>The middle part: the state change for one key.\<close>

definition cheat_advance :: "cheatseq_t \<Rightarrow> int \<Rightarrow> cheatseq_t result" where
  "cheat_advance cht key =
     (if chars_read cht < length (sequence cht)
      then Inr (if key = sequence cht ! chars_read cht
                then cht\<lparr>chars_read := chars_read cht + 1, param_chars_read := 0\<rparr>
                else cht\<lparr>chars_read := 0, param_chars_read := 0\<rparr>)
      else if param_chars_read cht < parameter_chars cht
      then (if 0 \<le> param_chars_read cht \<and> nat (param_chars_read cht) < length (parameter_buf cht)
            then Inr (cht\<lparr>parameter_buf := (parameter_buf cht)[nat (param_chars_read cht) := key],
                          param_chars_read := param_chars_read cht + 1\<rparr>)
            else Inl Bad_Access)
      else Inr cht)"

definition cht_CheckCheat :: "cheatseq_t \<Rightarrow> int \<Rightarrow> (bool \<times> cheatseq_t) result" where
  "cht_CheckCheat cht key =
     (if parameter_chars cht > 0 \<and> length (sequence cht) < sequence_len cht then Inr (False, cht)
      else bindE (cheat_advance cht key) (\<lambda>cht.
        if length (sequence cht) \<le> chars_read cht \<and> parameter_chars cht \<le> param_chars_read cht
        then Inr (True, cht\<lparr>chars_read := 0, param_chars_read := 0\<rparr>)
        else Inr (False, cht)))"

definition cht_GetParam :: "cheatseq_t \<Rightarrow> int list" where
  "cht_GetParam cht = take (nat (parameter_chars cht)) (parameter_buf cht)"

text \<open>The answers of the matcher to a sequence of typed characters.\<close>

fun cheat_run :: "cheatseq_t \<Rightarrow> int list \<Rightarrow> (bool list \<times> cheatseq_t) result" where
  "cheat_run cht [] = Inr ([], cht)"
| "cheat_run cht (k # ks) =
     bindE (cht_CheckCheat cht k) (\<lambda>(b, cht').
       bindE (cheat_run cht' ks) (\<lambda>(bs, cht''). Inr (b # bs, cht'')))"

definition cheat_ok :: "cheatseq_t \<Rightarrow> bool" where
  "cheat_ok cht \<longleftrightarrow>
     chars_read cht \<le> length (sequence cht) \<and>
     0 \<le> param_chars_read cht \<and> param_chars_read cht \<le> parameter_chars cht \<and>
     nat (parameter_chars cht) \<le> length (parameter_buf cht) \<and>
     (chars_read cht < length (sequence cht) \<longrightarrow> param_chars_read cht = 0) \<and>
     (chars_read cht < length (sequence cht) \<or> param_chars_read cht < parameter_chars cht)"

text \<open>Between the state change and the final test a code may be complete.\<close>

definition cheat_complete :: "cheatseq_t \<Rightarrow> bool" where
  "cheat_complete cht \<longleftrightarrow>
     length (sequence cht) \<le> chars_read cht \<and> parameter_chars cht \<le> param_chars_read cht"

text \<open>What has been matched so far is the end of what has been typed.\<close>

definition typed_so_far :: "cheatseq_t \<Rightarrow> int list" where
  "typed_so_far cht =
     take (chars_read cht) (sequence cht) @ take (nat (param_chars_read cht)) (parameter_buf cht)"

definition cheat_fresh :: "cheatseq_t \<Rightarrow> bool" where
  "cheat_fresh cht \<longleftrightarrow> chars_read cht = 0 \<and> param_chars_read cht = 0 \<and> sequence cht \<noteq> [] \<and>
     0 \<le> parameter_chars cht \<and> nat (parameter_chars cht) \<le> length (parameter_buf cht)"

lemma cheat_fresh_ok: "cheat_fresh cht \<Longrightarrow> cheat_ok cht \<and> typed_so_far cht = []"
  by (simp add: cheat_fresh_def cheat_ok_def typed_so_far_def)

text \<open>One key: either the match is dropped, or it grows by exactly this key.\<close>

lemma cheat_advance_cases:
  assumes "cheat_ok cht"
  obtains (reset) cht' where "cheat_advance cht key = Inr cht'" "cheat_fresh cht'"
      "sequence cht' = sequence cht" "parameter_chars cht' = parameter_chars cht"
      "sequence_len cht' = sequence_len cht"
      "chars_read cht < length (sequence cht)" "key \<noteq> sequence cht ! chars_read cht"
  | (grow) cht' where "cheat_advance cht key = Inr cht'" "cheat_complete cht' \<or> cheat_ok cht'"
      "sequence cht' = sequence cht" "parameter_chars cht' = parameter_chars cht"
      "sequence_len cht' = sequence_len cht"
      "length (parameter_buf cht') = length (parameter_buf cht)"
      "chars_read cht' \<le> length (sequence cht)" "param_chars_read cht' \<le> parameter_chars cht"
      "typed_so_far cht' = typed_so_far cht @ [key]"
      "chars_read cht < length (sequence cht) \<Longrightarrow> key = sequence cht ! chars_read cht"
proof (cases "chars_read cht < length (sequence cht)")
  case True
  show ?thesis
  proof (cases "key = sequence cht ! chars_read cht")
    case key: True
    let ?c = "cht\<lparr>chars_read := chars_read cht + 1, param_chars_read := 0\<rparr>"
    show ?thesis
      by (rule grow [of ?c]) (use True key assms in \<open>auto simp: cheat_advance_def cheat_ok_def
          cheat_complete_def typed_so_far_def take_Suc_conv_app_nth\<close>)
  next
    case key: False
    let ?c = "cht\<lparr>chars_read := 0, param_chars_read := 0\<rparr>"
    show ?thesis
      by (rule reset [of ?c]) (use True key assms in \<open>auto simp: cheat_advance_def cheat_ok_def
          cheat_fresh_def\<close>)
  qed
next
  case False
  let ?n = "nat (param_chars_read cht)"
  let ?c = "cht\<lparr>parameter_buf := (parameter_buf cht)[?n := key],
             param_chars_read := param_chars_read cht + 1\<rparr>"
  have n: "?n < length (parameter_buf cht)" "nat (param_chars_read cht + 1) = Suc ?n"
    using False assms by (auto simp: cheat_ok_def)
  show ?thesis
    by (rule grow [of ?c]) (use False assms n in \<open>auto simp: cheat_advance_def cheat_ok_def
        cheat_complete_def typed_so_far_def take_Suc_conv_app_nth\<close>)
qed

text \<open>A code that is not disabled by the guard on shortened sequences.\<close>

definition cheat_ready :: "cheatseq_t \<Rightarrow> bool" where
  "cheat_ready cht \<longleftrightarrow> cheat_ok cht \<and> sequence cht \<noteq> [] \<and>
     \<not> (parameter_chars cht > 0 \<and> length (sequence cht) < sequence_len cht)"

lemma cht_CheckCheat_cases:
  assumes ready: "cheat_ready cht"
  obtains (miss) cht' where "cht_CheckCheat cht key = Inr (False, cht')" "cheat_ready cht'"
      "sequence cht' = sequence cht" "parameter_chars cht' = parameter_chars cht"
      "sequence_len cht' = sequence_len cht"
      "typed_so_far cht' = typed_so_far cht @ [key] \<or>
       typed_so_far cht' = [] \<and> chars_read cht < length (sequence cht) \<and> key \<noteq> sequence cht ! chars_read cht"
  | (hit) cht' where "cht_CheckCheat cht key = Inr (True, cht')"
      "sequence cht' = sequence cht" "parameter_chars cht' = parameter_chars cht"
      "sequence_len cht' = sequence_len cht"
      "typed_so_far cht @ [key] = sequence cht @ cht_GetParam cht'"
      "cheat_ready cht'" "typed_so_far cht' = []"
      "chars_read cht < length (sequence cht) \<Longrightarrow> key = sequence cht ! chars_read cht"
proof -
  have ok: "cheat_ok cht" and en: "\<not> (parameter_chars cht > 0 \<and> length (sequence cht) < sequence_len cht)"
    and ne: "sequence cht \<noteq> []"
    using ready by (auto simp: cheat_ready_def)
  from ok show ?thesis
  proof (cases rule: cheat_advance_cases [where key = key])
    case (reset c)
    then have "\<not> cheat_complete c" by (simp add: cheat_complete_def cheat_fresh_def)
    with reset en ne cheat_fresh_ok [of c] show ?thesis
      by (intro miss [of c]) (auto simp: cht_CheckCheat_def cheat_complete_def cheat_ready_def)
  next
    case (grow c)
    show ?thesis
    proof (cases "cheat_complete c")
      case True
      let ?c = "c\<lparr>chars_read := 0, param_chars_read := 0\<rparr>"
      have "0 \<le> parameter_chars cht" "nat (parameter_chars cht) \<le> length (parameter_buf cht)"
        using ok by (simp_all add: cheat_ok_def)
      then have f: "cheat_fresh ?c" using grow ne by (simp add: cheat_fresh_def)
      from grow True en ne cheat_fresh_ok [OF f] show ?thesis
        by (intro hit [of ?c]) (auto simp: cht_CheckCheat_def cheat_complete_def typed_so_far_def
            cht_GetParam_def cheat_ready_def)
    next
      case False
      with grow en ne show ?thesis
        by (intro miss [of c]) (auto simp: cht_CheckCheat_def cheat_complete_def cheat_ready_def)
    qed
  qed
qed

lemma cheat_run_history:
  assumes "cheat_ready cht" "hist = pre @ typed_so_far cht"
  shows "\<exists>bs cht' pre'. cheat_run cht ks = Inr (bs, cht') \<and> cheat_ready cht' \<and>
    sequence cht' = sequence cht \<and> parameter_chars cht' = parameter_chars cht \<and>
    hist @ ks = pre' @ typed_so_far cht'"
  using assms
proof (induction ks arbitrary: cht hist pre)
  case Nil
  then show ?case by auto
next
  case (Cons k ks)
  from Cons.prems(1) show ?case
  proof (cases rule: cht_CheckCheat_cases [where key = k])
    case (miss c)
    have "\<exists>pre'. hist @ [k] = pre' @ typed_so_far c"
      using miss(6) Cons.prems(2) by auto
    then obtain pre' where "hist @ [k] = pre' @ typed_so_far c" ..
    from Cons.IH [OF miss(2) this] miss show ?thesis by fastforce
  next
    case (hit c)
    have "hist @ [k] = (hist @ [k]) @ typed_so_far c" using hit by simp
    from Cons.IH [OF \<open>cheat_ready c\<close> this] hit show ?thesis by fastforce
  qed
qed

lemma cheat_run_match:
  assumes "cheat_ready cht" "typed_so_far cht @ rest = sequence cht @ ps" "rest \<noteq> []"
    and "length ps = nat (parameter_chars cht)"
  shows "\<exists>cht'. cheat_run cht rest = Inr (replicate (length rest - 1) False @ [True], cht') \<and>
    cht_GetParam cht' = ps"
  using assms
proof (induction rest arbitrary: cht)
  case Nil
  then show ?case by simp
next
  case (Cons k rest)
  have ok: "cheat_ok cht" using Cons.prems(1) by (simp add: cheat_ready_def)
  have key: "k = sequence cht ! chars_read cht" if "chars_read cht < length (sequence cht)"
  proof -
    have "typed_so_far cht = take (chars_read cht) (sequence cht)"
      using ok that by (simp add: typed_so_far_def cheat_ok_def)
    then have "(typed_so_far cht @ k # rest) ! chars_read cht = k"
      using that by (simp add: nth_append)
    with Cons.prems(2) that show ?thesis by (simp add: nth_append)
  qed
  from Cons.prems(1) show ?case
  proof (cases rule: cht_CheckCheat_cases [where key = k])
    case (miss c)
    then have t: "typed_so_far c = typed_so_far cht @ [k]" using key by auto
    show ?thesis
    proof (cases rest)
      case Nil
      with Cons.prems(2) t miss have "typed_so_far c = sequence c @ ps" by simp
      moreover have "cheat_ok c" using miss(2) by (simp add: cheat_ready_def)
      then have "length (typed_so_far c) < length (sequence c) + nat (parameter_chars c)"
        by (auto simp: typed_so_far_def cheat_ok_def)
      ultimately show ?thesis using Cons.prems(4) miss by simp
    next
      case (Cons k' rest')
      with Cons.IH [OF miss(2)] Cons.prems t miss show ?thesis by auto
    qed
  next
    case (hit c)
    with Cons.prems have "rest = []"
      by (metis append.assoc append_Cons append_eq_append_conv append_self_conv cheat_ok_def cheat_ready_def
          cht_GetParam_def length_take min.absorb2 self_append_conv append_Nil same_append_eq)
    with hit Cons.prems show ?thesis by simp
  qed
qed

lemma cheat_run_length: "cheat_run cht ks = Inr (bs, cht') \<Longrightarrow> length bs = length ks"
  by (induction cht ks arbitrary: bs rule: cheat_run.induct) (auto simp: bindE_Inr_iff)

text \<open>A code with a character that is not typed never matches.\<close>

lemma cheat_run_never:
  assumes "cheat_ready cht" "c \<in> set (sequence cht)" "c \<notin> set (typed_so_far cht)" "c \<notin> set ks"
  shows "\<exists>bs cht'. cheat_run cht ks = Inr (bs, cht') \<and> True \<notin> set bs"
  using assms
proof (induction ks arbitrary: cht)
  case (Cons k ks)
  from Cons.prems(1) show ?case
  proof (cases rule: cht_CheckCheat_cases [where key = k])
    case (miss cht1)
    then have "c \<in> set (sequence cht1)" "c \<notin> set (typed_so_far cht1)" using Cons.prems by auto
    from Cons.IH [OF miss(2) this] Cons.prems(4) miss(1) show ?thesis by auto
  next
    case (hit cht1)
    have "c \<in> set (typed_so_far cht @ [k])" unfolding hit(5) using Cons.prems(2) by simp
    then show ?thesis using Cons.prems(3,4) by simp
  qed
qed simp

section \<open>Characters that can be typed\<close>

text \<open>
  The states of the input path that occur: from the empty queues, by key reports
  of barebox, frames, and reads of the game.
\<close>

inductive input_reach :: "input_state \<Rightarrow> bool" where
  init: "input_reach empty_input"
| notify: "input_reach s \<Longrightarrow> key_input_notify ev (keyq s) = Inr q \<Longrightarrow> input_reach (s\<lparr>keyq := q\<rparr>)"
| frame: "input_reach s \<Longrightarrow> I_GetEvent ev0 s = Some s' \<Longrightarrow> input_reach s'"
| pop: "input_reach s \<Longrightarrow> D_PopEvent (evq s) = Some (ev, q) \<Longrightarrow> input_reach (s\<lparr>evq := q\<rparr>)"

text \<open>
  The lower-case \<open>e\<close> and \<open>z\<close> and the space, whose keys are mapped to running, to firing and to using.
\<close>

definition lost_char :: "int \<Rightarrow> bool" where
  "lost_char c \<longleftrightarrow> c = 101 \<or> c = 122 \<or> c = 32"

lemma convertToDoomKey_not_lost:
  assumes "convertToDoomKey key = Inr k" "0 \<le> k"
  shows "\<not> lost_char k" "k < 256"
proof -
  have tab: "\<forall>i < 256. (special_key i = None \<longrightarrow> \<not> lost_char (keycode_bb_keys ! i)) \<and> keycode_bb_keys ! i < 256"
  proof -
    have "list_all (\<lambda>(i, v). (special_key i = None \<longrightarrow> \<not> lost_char v) \<and> v < 256)
        (List.enumerate 0 keycode_bb_keys)"
      by (simp add: keycode_bb_keys_def lost_char_def)
    then show ?thesis
      using length_keycode_bb_keys
      by (simp add: list_all_length nth_enumerate_eq NR_KEYS_def)
  qed
  have sp: "special_key key = Some v \<Longrightarrow> \<not> lost_char v \<and> v < 256" for v
    by (auto simp: lost_char_def split: if_splits)
  show "\<not> lost_char k" "k < 256"
    using assms tab sp
    by (auto simp: convertToDoomKey_def length_keycode_bb_keys NR_KEYS_def Let_def
        simp del: special_key.simps split: option.splits if_splits)
qed

lemma GetTypedChar_not_lost: "\<not> lost_char k \<Longrightarrow> \<not> lost_char (GetTypedChar sh k)"
proof -
  have "list_all (\<lambda>(i, v). lost_char v \<longrightarrow> i = 32) (List.enumerate 0 shiftxform)"
    by (simp add: shiftxform_def lost_char_def)
  then have "nat k = 32" if "nat k < length shiftxform" "lost_char (shiftxform ! nat k)" using that by (simp add: list_all_length nth_enumerate_eq)
  then show "\<not> lost_char k \<Longrightarrow> \<not> lost_char (GetTypedChar sh k)"
    by (auto simp: GetTypedChar_def TranslateKey_def Let_def lost_char_def)
qed

definition no_lost :: "input_state \<Rightarrow> bool" where
  "no_lost s \<longleftrightarrow>
     key_valid (keyq s) \<and> ev_valid (evq s) \<and>
     (\<forall>d\<in>set (s_KeyQueue (keyq s)). \<not> lost_char (d AND 255)) \<and>
     (\<forall>ev\<in>set (events (evq s)). \<not> lost_char (data2 ev))"

lemma no_lost_post:
  assumes "no_lost s" "\<not> lost_char (data2 ev)"
  shows "no_lost (s\<lparr>shiftdown := x, evq := D_PostEvent ev (evq s)\<rparr>)"
  using assms set_update_subset_insert [of "events (evq s)" "eventhead (evq s)" ev]
    evq.valid_put [of "evq s" ev]
  by (auto simp: no_lost_def D_PostEvent_def)

lemma no_lost_body:
  assumes "no_lost s" "\<not> lost_char (snd pk)" "I_GetEvent_body ev0 pk s = (brk, s')"
  shows "no_lost s'"
proof -
  have "no_lost (s\<lparr>shiftdown := x\<rparr>)" for x using assms(1) by (simp add: no_lost_def)
  then show ?thesis
    using assms no_lost_post
    by (auto simp: I_GetEvent_body_def Let_def TranslateKey_def GetTypedChar_not_lost
        lost_char_def [of 0] split: prod.splits if_splits)
qed

lemma no_lost_loop:
  "I_GetEvent_loop ev0 s = Some s' \<Longrightarrow> no_lost s \<Longrightarrow> no_lost s'"
proof (induction ev0 s s' rule: I_GetEvent_loop.raw_induct [rotated, consumes 1, case_names 1])
  case (1 loop ev0 s s')
  show ?case
  proof (cases "DG_GetKey (keyq s)")
    case (Some r)
    then obtain pk q where g: "DG_GetKey (keyq s) = Some (pk, q)" by (cases r) auto
    obtain brk s1 where b: "I_GetEvent_body ev0 pk (s\<lparr>keyq := q\<rparr>) = (brk, s1)" by fastforce
    have q: "no_lost (s\<lparr>keyq := q\<rparr>)" "\<not> lost_char (snd pk)"
      using "1.prems" g keyq.valid_get [OF _ g]
      by (auto simp: no_lost_def DG_GetKey_def Let_def key_valid_def split: if_splits)
    from no_lost_body [OF this b] have "no_lost s1" .
    with 1 g b show ?thesis by (cases brk) auto
  qed (use 1 in simp)
qed

lemma and_255_low: "take_bit 16 ((k::int) OR push_bit 8 v) AND 255 = k AND 255"
  by (simp add: and_255_take_bit take_bit_push_bit)

lemma no_lost_addKey:
  assumes "no_lost s" "\<not> lost_char (take_bit 16 d AND 255)"
  shows "no_lost (s\<lparr>keyq := addKeyToQueue d (keyq s)\<rparr>)"
  using assms set_update_subset_insert [of "s_KeyQueue (keyq s)" "s_KeyQueueWriteIndex (keyq s)"
      "take_bit 16 d"]
  by (auto simp: no_lost_def addKeyToQueue_def key_valid_def KEYQUEUE_SIZE_def)

lemma no_lost_notify:
  assumes "no_lost s" "key_input_notify ev (keyq s) = Inr q"
  shows "no_lost (s\<lparr>keyq := q\<rparr>)"
proof -
  obtain k where k: "convertToDoomKey (code ev) = Inr k"
    "q = (if k < 0 then keyq s else addKeyToQueue (k OR push_bit 8 (val ev)) (keyq s))"
    using assms(2) by (auto simp: key_input_notify_def bindE_Inr_iff split: if_splits)
  show ?thesis
  proof (cases "k < 0")
    case False
    with convertToDoomKey_not_lost [OF k(1)] have "\<not> lost_char (k AND 255)"
      using False by (simp add: and_255_take_bit take_bit_int_eq_self)
    then have "\<not> lost_char (take_bit 16 (k OR push_bit 8 (val ev)) AND 255)"
      by (simp only: and_255_low) simp
    with False k assms(1) show ?thesis by (simp add: no_lost_addKey)
  qed (use k assms(1) in simp)
qed

lemma input_reach_no_lost: "input_reach s \<Longrightarrow> no_lost s"
proof (induction rule: input_reach.induct)
  case init
  show ?case by (simp add: no_lost_def empty_input_valid) (simp add: empty_input_def lost_char_def)
next
  case (notify s ev q)
  then show ?case by (rule_tac no_lost_notify)
next
  case (frame s ev0 s')
  then show ?case by (auto simp: I_GetEvent_def intro: no_lost_loop)
next
  case (pop s ev q)
  then show ?case
    using evq.valid_get by (auto simp: no_lost_def D_PopEvent_def split: if_splits)
qed

section \<open>Properties\<close>

text \<open>
  C6. The matcher answers yes exactly to its code: typed from the start, the code
  followed by its parameters is answered with a yes on the last key only, and
  \<open>cht_GetParam\<close> then returns the parameters; and a yes, whatever was typed before,
  means that the keys typed last are the code followed by the returned parameters.
\<close>

theorem cheat_matches_code:
  assumes "cheat_fresh cht" "\<not> (parameter_chars cht > 0 \<and> length (sequence cht) < sequence_len cht)"
  shows "(\<forall>ps. length ps = nat (parameter_chars cht) \<longrightarrow>
      (\<exists>cht'. cheat_run cht (sequence cht @ ps) =
          Inr (replicate (length (sequence cht @ ps) - 1) False @ [True], cht') \<and> cht_GetParam cht' = ps)) \<and>
    (\<forall>ks bs cht1 k cht2. cheat_run cht ks = Inr (bs, cht1) \<longrightarrow> cht_CheckCheat cht1 k = Inr (True, cht2) \<longrightarrow>
      (\<exists>pre. ks @ [k] = pre @ sequence cht @ cht_GetParam cht2))"
proof (intro conjI allI impI)
  have r: "cheat_ready cht" and t: "typed_so_far cht = []" and ne: "sequence cht \<noteq> []"
    using assms cheat_fresh_ok by (auto simp: cheat_ready_def cheat_fresh_def)
  show "\<exists>cht'. cheat_run cht (sequence cht @ ps) =
          Inr (replicate (length (sequence cht @ ps) - 1) False @ [True], cht') \<and> cht_GetParam cht' = ps"
    if "length ps = nat (parameter_chars cht)" for ps
    using cheat_run_match [OF r, of "sequence cht @ ps" ps] t ne that by simp
  show "\<exists>pre. ks @ [k] = pre @ sequence cht @ cht_GetParam cht2"
    if "cheat_run cht ks = Inr (bs, cht1)" and hit: "cht_CheckCheat cht1 k = Inr (True, cht2)"
    for ks bs cht1 k cht2
  proof -
    from cheat_run_history [OF r, of "[]" "[]" ks] t that(1) obtain pre
      where c1: "cheat_ready cht1" "sequence cht1 = sequence cht" "ks = pre @ typed_so_far cht1"
      by auto
    from c1(1) show ?thesis
      using hit c1(2,3) by (cases rule: cht_CheckCheat_cases [where key = k]) auto
  qed
qed

definition cheat_of :: "string \<Rightarrow> int \<Rightarrow> cheatseq_t" where
  "cheat_of str n = \<lparr>sequence = map of_char str, sequence_len = length str, parameter_chars = n,
     chars_read = 0, param_chars_read = 0, parameter_buf = replicate 5 0\<rparr>"

theorem cheat_matches_code_witness:
  "cheat_fresh (cheat_of ''idmus'' 2) \<and>
   (\<exists>cht'. cheat_run (cheat_of ''idmus'' 2) (sequence (cheat_of ''idmus'' 2) @ [48, 53]) =
      Inr (replicate 6 False @ [True], cht') \<and> cht_GetParam cht' = [48, 53])"
proof -
  have f: "cheat_fresh (cheat_of ''idmus'' 2)" by (simp add: cheat_of_def cheat_fresh_def)
  have p: "length [48, 53::int] = nat (parameter_chars (cheat_of ''idmus'' 2))"
    "length (sequence (cheat_of ''idmus'' 2) @ [48, 53]) - 1 = 6"
    "\<not> (parameter_chars (cheat_of ''idmus'' 2) > 0 \<and>
        length (sequence (cheat_of ''idmus'' 2)) < sequence_len (cheat_of ''idmus'' 2))"
    by (simp_all add: cheat_of_def)
  show ?thesis
    using cheat_matches_code [OF f p(3), THEN conjunct1, THEN spec, THEN mp, OF p(1)] f
    unfolding p(2) by blast
qed

lemma popped_not_lost:
  assumes "input_reach s" "D_PopEvent (evq s) = Some (ev, q)"
  shows "\<not> lost_char (data2 ev)"
  using input_reach_no_lost [OF assms(1)] assms(2) by (auto simp: no_lost_def D_PopEvent_def ev_valid_def split: if_splits)

text \<open>
  C10. On this port no code that contains an \<open>e\<close>, a \<open>z\<close> or a space can be entered: the keys
  for these characters are translated to running, firing and using, so the events the game
  reads never carry these characters. Whatever sequence of events the game reads, the matcher of such a code,
  fed with them from the start, answers no to every single one. This
  disables \<open>idchoppers\<close>, \<open>idclev\<close> and all seven \<open>idbehold\<close> codes.
\<close>

theorem cheat_with_e_unreachable:
  assumes "cheat_fresh cht" "\<not> (parameter_chars cht > 0 \<and> length (sequence cht) < sequence_len cht)"
    and "c \<in> set (sequence cht)" "lost_char c"
    and "\<forall>ev\<in>set evs. \<exists>s q. input_reach s \<and> D_PopEvent (evq s) = Some (ev, q)"
  shows "\<exists>cht'. cheat_run cht (map data2 evs) = Inr (replicate (length evs) False, cht')"
proof -
  have r: "cheat_ready cht" and t: "typed_so_far cht = []"
    using assms(1,2) cheat_fresh_ok by (auto simp: cheat_ready_def cheat_fresh_def)
  have "c \<notin> set (map data2 evs)" using assms(4,5) popped_not_lost by fastforce
  then obtain bs cht' where b: "cheat_run cht (map data2 evs) = Inr (bs, cht')" "True \<notin> set bs"
    using cheat_run_never [OF r assms(3), of "map data2 evs"] t by auto
  have "length bs = length (map data2 evs)" using cheat_run_length [OF b(1)] .
  with b(2) have "bs = replicate (length evs) False" by (intro replicate_eqI) auto
  with b(1) show ?thesis by blast
qed

text \<open>A key press as the game sees it.\<close>

definition typed :: "int \<Rightarrow> event_t" where
  "typed c = \<lparr>ev_type = ev_keydown, data1 = c, data2 = c, data3 = 0, data4 = 0\<rparr>"

lemma typed_reachable:
  assumes "convertToDoomKey kc = Inr c" "c = 105 \<or> c = 100"
  shows "\<exists>s q. input_reach s \<and> D_PopEvent (evq s) = Some (typed c, q)"
proof -
  let ?ev = "\<lparr>code = kc, val = 1\<rparr>"
  let ?q = "addKeyToQueue (key_word (1, c)) (keyq empty_input)"
  let ?s = "empty_input\<lparr>keyq := ?q\<rparr>"
  have "key_input_notify ?ev (keyq empty_input) = Inr ?q"
    using assms by (auto simp: key_input_notify_def key_word_def)
  then have reach: "input_reach ?s"
    by (rule input_reach.notify [OF input_reach.init])
  have "key_contents ?q = [(1, c)]" "key_valid ?q"
    using assms(2) by (auto simp: keyq.contents_put keyq.valid_put empty_input_valid key_pair_ok_def KEYQUEUE_SIZE_def)
  with I_GetEvent_correct [of ?s "typed c"] obtain s'
    where s': "I_GetEvent (typed c) ?s = Some s'" "ev_valid (evq s')" "ev_contents (evq s') = [typed c]"
    using assms(2) by (auto simp: empty_input_valid key_event_def UpdateShiftStatus_def DOOM_KEY_RSHIFT_def
        GetTypedChar_def TranslateKey_def typed_def)
  then obtain ev q where "D_PopEvent (evq s') = Some (ev, q)"
    using evq.get_None by (cases "D_PopEvent (evq s')") auto
  with evq.get_Some [of "evq s'" ev q] s' have "D_PopEvent (evq s') = Some (typed c, q)" by simp
  with input_reach.frame [OF reach s'(1)] show ?thesis by blast
qed

lemma keys_i_d: "convertToDoomKey 23 = Inr 105" "convertToDoomKey 32 = Inr 100"
  by (simp_all add: convertToDoomKey_def NR_KEYS_def keycode_bb_keys_def isprint_def ctype_table_def take_bit_eq_mod)

theorem cheat_with_e_unreachable_witness:
  "\<exists>cht'. cheat_run (cheat_of ''idclev'' 2) (map data2 [typed 105, typed 100]) = Inr ([False, False], cht')"
proof -
  have "\<forall>ev\<in>set [typed 105, typed 100]. \<exists>s q. input_reach s \<and> D_PopEvent (evq s) = Some (ev, q)"
    using typed_reachable [OF keys_i_d(1)] typed_reachable [OF keys_i_d(2)] by simp
  from cheat_with_e_unreachable [OF _ _ _ _ this, of "cheat_of ''idclev'' 2" 101] show ?thesis
    by (auto simp: cheat_of_def cheat_fresh_def lost_char_def numeral_2_eq_2)
qed

end
