(* ===== verification/Stdio.thy ===== *)
theory Stdio
  imports Prelude
begin

text \<open>
  Files: the part of \<^verbatim>\<open>fs/fs.c\<close> and \<^verbatim>\<open>commands/doom/std.c\<close> through which the game reads and
  writes. The file system calls the driver of the device through the table \<open>fs_driver_d\<close>; the
  table belongs to the file, so that every definition and theorem is about any driver, with
  the errors it may return and the operations it may lack. What the theorems need of a
  driver is stated as \<open>driver_reads\<close> and \<open>driver_writes\<close>.
\<close>

text \<open>
  The entries of the driver's table the game reaches, as functions of the bytes the device keeps
  of the file. \<open>open\<close> and \<open>truncate\<close> return 0 or a negated error number, of which the
  number is given; \<open>read\<close> and \<open>write\<close> get the position and return a count or a negated error number. An optional entry may be \<open>NULL\<close>.
\<close>

record fs_driver_d =
  drv_open :: "(int list \<Rightarrow> nat) option"
  drv_truncate :: "(nat \<Rightarrow> int list \<Rightarrow> nat \<times> int list) option"
  drv_read :: "nat \<Rightarrow> nat \<Rightarrow> int list \<Rightarrow> int \<times> int list \<times> int list"
  drv_write :: "(nat \<Rightarrow> int list \<Rightarrow> int list \<Rightarrow> int \<times> int list) option"
  drv_lseek :: "(int \<Rightarrow> int) option"

text \<open>
  An open file together with its inode. \<open>size\<close> is the size the file system keeps, or
  \<open>FILE_SIZE_STREAM\<close>; positions are natural numbers, so seeking a stream to before its start is not covered.
\<close>

record FILE =
  f_drv :: fs_driver_d
  f_data :: "int list"
  f_pos :: nat
  f_size :: int
  f_flags :: int

definition FILE_SIZE_STREAM :: int where "FILE_SIZE_STREAM = - 1"
definition O_ACCMODE :: int where "O_ACCMODE = 3"
definition O_RDONLY :: int where "O_RDONLY = 0"
definition O_WRONLY :: int where "O_WRONLY = 1"
definition O_TRUNC :: int where "O_TRUNC = 512"
definition O_APPEND :: int where "O_APPEND = 1024"
definition EBADF :: int where "EBADF = 9"
definition ENOSPC :: int where "ENOSPC = 28"
definition EROFS :: int where "EROFS = 30"

lemmas file_consts = FILE_SIZE_STREAM_def O_ACCMODE_def O_RDONLY_def O_WRONLY_def O_TRUNC_def O_APPEND_def
  EBADF_def ENOSPC_def EROFS_def

section \<open>The file system\<close>

definition fsdev_truncate :: "nat \<Rightarrow> FILE \<Rightarrow> int \<times> FILE" where
  "fsdev_truncate len f =
     (case drv_truncate (f_drv f) of
        Some trunc \<Rightarrow> (case trunc len (f_data f) of (e, d) \<Rightarrow> (- int e, f\<lparr>f_data := d\<rparr>))
      | None \<Rightarrow> (- EROFS, f))"

text \<open>
  \<open>__read\<close> and \<open>__write\<close> at the position of the file, which is not past the size. The check that they run in
  the context of a command has no effect on the file.
\<close>

definition read_at :: "nat \<Rightarrow> FILE \<Rightarrow> int \<times> int list \<times> FILE" where
  "read_at count f =
     (if f_flags f AND O_ACCMODE = O_WRONLY then (- EBADF, [], f)
      else let count = (if f_size f \<noteq> FILE_SIZE_STREAM \<and> int (f_pos f + count) > f_size f
                        then nat (f_size f - int (f_pos f)) else count)
           in if count = 0 then (0, [], f)
              else (case drv_read (f_drv f) (f_pos f) count (f_data f) of
                      (ret, bs, d) \<Rightarrow> (ret, bs, f\<lparr>f_data := d\<rparr>)))"

definition call_write :: "(nat \<Rightarrow> int list \<Rightarrow> int list \<Rightarrow> int \<times> int list) \<Rightarrow> int list \<Rightarrow> FILE \<Rightarrow> int \<times> FILE" where
  "call_write write bs f = (case write (f_pos f) bs (f_data f) of (ret, d) \<Rightarrow> (ret, f\<lparr>f_data := d\<rparr>))"

definition write_at :: "int list \<Rightarrow> FILE \<Rightarrow> int \<times> FILE" where
  "write_at bs f =
     (case drv_write (f_drv f) of
        None \<Rightarrow> (- EBADF, f)
      | Some write \<Rightarrow>
          if f_flags f AND O_ACCMODE = O_RDONLY then (- EBADF, f)
          else if f_size f \<noteq> FILE_SIZE_STREAM \<and> int (f_pos f + length bs) > f_size f
          then (case fsdev_truncate (f_pos f + length bs) f of
                  (ret, f) \<Rightarrow>
                    if ret \<noteq> 0
                    then (let count = nat (f_size f - int (f_pos f))
                          in if ret \<noteq> - ENOSPC \<or> count = 0 then (ret, f)
                             else call_write write (take count bs) f)
                    else call_write write bs (f\<lparr>f_size := int (f_pos f + length bs)\<rparr>))
          else call_write write bs f)"

definition fs_read :: "nat \<Rightarrow> FILE \<Rightarrow> int \<times> int list \<times> FILE" where
  "fs_read count f =
     (case read_at count f of
        (ret, bs, f) \<Rightarrow> (ret, bs, if ret > 0 then f\<lparr>f_pos := f_pos f + nat ret\<rparr> else f))"

definition fs_write :: "int list \<Rightarrow> FILE \<Rightarrow> int \<times> FILE" where
  "fs_write bs f =
     (case write_at bs f of
        (ret, f) \<Rightarrow> (ret, if ret > 0 then f\<lparr>f_pos := f_pos f + nat ret\<rparr> else f))"

datatype whence = SEEK_SET | SEEK_CUR | SEEK_END

definition lseek :: "int \<Rightarrow> whence \<Rightarrow> FILE \<Rightarrow> int \<times> FILE" where
  "lseek offset wh f =
     (let pos = (case wh of SEEK_SET \<Rightarrow> 0 | SEEK_CUR \<Rightarrow> int (f_pos f) | SEEK_END \<Rightarrow> f_size f) + offset
      in if f_size f \<noteq> FILE_SIZE_STREAM \<and> (pos < 0 \<or> pos > f_size f) then (- 1, f)
         else case drv_lseek (f_drv f) of
                Some seek \<Rightarrow> if seek pos < 0 then (- 1, f) else (pos, f\<lparr>f_pos := nat pos\<rparr>)
              | None \<Rightarrow> (pos, f\<lparr>f_pos := nat pos\<rparr>))"

text \<open>
  The end of \<open>open\<close>, once the path has led to the inode of \<open>f\<close> and a descriptor was found: the
  error, 0 when the file is open, and what the file is then. When the driver
  cannot truncate, \<open>open\<close> fails, but the size in the inode is already 0.
\<close>

definition open_file :: "int \<Rightarrow> FILE \<Rightarrow> int \<times> FILE" where
  "open_file flags f =
     (let f = f\<lparr>f_flags := flags, f_pos := 0\<rparr>;
          error = (case drv_open (f_drv f) of Some opn \<Rightarrow> - int (opn (f_data f)) | None \<Rightarrow> 0)
      in if error \<noteq> 0 then (error, f)
         else let (error, f) =
                    (if flags AND O_TRUNC \<noteq> 0
                     then (case fsdev_truncate 0 f of (error, f) \<Rightarrow> (error, f\<lparr>f_size := 0\<rparr>)) else (0, f))
              in if error \<noteq> 0 then (error, f)
                 else (0, if flags AND O_APPEND \<noteq> 0 then f\<lparr>f_pos := nat (f_size f)\<rparr> else f))"

section \<open>The streams of the game\<close>

text \<open>
  \<open>size_t\<close> is unsigned, so the negative result that \<open>fread\<close> and \<open>fwrite\<close> return for an error
  becomes the largest value of the type.
\<close>

definition size_t :: "arch \<Rightarrow> int \<Rightarrow> int" where
  "size_t arch x = x mod 2 ^ nat (8 * sizeof_ptr arch)"

definition errno_wrap :: "int \<Rightarrow> int" where
  "errno_wrap ret = (if ret \<ge> 0 then ret else - 1)"

text \<open>\<open>fopen\<close> looks for the letters of the mode in the name of the file.\<close>

definition fopen_flags :: "string \<Rightarrow> int" where
  "fopen_flags filename =
     (if CHR ''r'' \<in> set filename then 0 OR O_RDONLY
      else if CHR ''w'' \<in> set filename then 0 OR (O_WRONLY OR O_TRUNC) else 0)"

text \<open>
  \<open>node\<close> is the file that the path leads to; without \<open>O_CREAT\<close> a missing one is an error. A
  directory, a symbolic link that does not resolve and a table of descriptors that is full are \<open>None\<close> as well.
\<close>

definition fopen :: "string \<Rightarrow> FILE option \<Rightarrow> FILE option" where
  "fopen filename node =
     (case node of
        None \<Rightarrow> None
      | Some f \<Rightarrow> (case open_file (fopen_flags filename) f of
                    (fd, f) \<Rightarrow> if errno_wrap fd < 0 then None else Some f))"

definition fseek :: "int \<Rightarrow> whence \<Rightarrow> FILE \<Rightarrow> int \<times> FILE" where
  "fseek offset wh f = (case lseek offset wh f of (r, f) \<Rightarrow> (if errno_wrap r < 0 then - 1 else 0, f))"

definition fread :: "arch \<Rightarrow> nat \<Rightarrow> nat \<Rightarrow> FILE \<Rightarrow> int \<times> int list \<times> FILE" where
  "fread arch sz nmemb f =
     (case fs_read (sz * nmemb) f of
        (r, bs, f) \<Rightarrow> (let ret = errno_wrap r
                       in (size_t arch (if ret < 0 then ret else ret div int sz), bs, f)))"

definition fwrite :: "arch \<Rightarrow> nat \<Rightarrow> int list \<Rightarrow> FILE \<Rightarrow> int \<times> FILE" where
  "fwrite arch sz bs f =
     (case fs_write bs f of
        (r, f) \<Rightarrow> (let ret = errno_wrap r
                   in (size_t arch (if ret < 0 then ret else ret div int sz), f)))"

definition ftell :: "FILE \<Rightarrow> int" where
  "ftell f = errno_wrap (fst (lseek 0 SEEK_CUR f))"

section \<open>Drivers that work\<close>

text \<open>
  What a driver is for: it opens the file, seeks to any position, and reads the bytes that
  are asked for; and, for the second, it lets a file grow to \<open>cap\<close> bytes, keeping those it has, and
  puts bytes where it is told.
\<close>

definition driver_reads :: "fs_driver_d \<Rightarrow> bool" where
  "driver_reads drv \<longleftrightarrow>
     (\<forall>opn d. drv_open drv = Some opn \<longrightarrow> opn d = 0) \<and>
     (\<forall>seek pos. drv_lseek drv = Some seek \<longrightarrow> 0 \<le> pos \<longrightarrow> 0 \<le> seek pos) \<and>
     (\<forall>pos n d. 0 < n \<longrightarrow> pos + n \<le> length d \<longrightarrow> drv_read drv pos n d = (int n, take n (drop pos d), d))"

definition driver_writes :: "fs_driver_d \<Rightarrow> nat \<Rightarrow> bool" where
  "driver_writes drv cap \<longleftrightarrow> (\<exists>trunc write. drv_truncate drv = Some trunc \<and> drv_write drv = Some write \<and>
     (\<forall>len d. length d \<le> len \<longrightarrow> len \<le> cap \<longrightarrow>
        (\<exists>d'. trunc len d = (0, d') \<and> length d' = len \<and> take (length d) d' = d)) \<and>
     (\<forall>pos bs d. pos + length bs \<le> length d \<longrightarrow>
        write pos bs d = (int (length bs), take pos d @ bs @ drop (pos + length bs) d)))"

section \<open>One byte\<close>

text \<open>A file that can be read; one with \<open>bs\<close> still to come; one that is written at its end, with room for \<open>n\<close> bytes.\<close>

definition file_readable :: "FILE \<Rightarrow> bool" where
  "file_readable f \<longleftrightarrow> driver_reads (f_drv f) \<and> f_flags f AND O_ACCMODE \<noteq> O_WRONLY \<and> f_size f = int (length (f_data f))"

definition unread :: "FILE \<Rightarrow> int list \<Rightarrow> bool" where
  "unread f bs \<longleftrightarrow> file_readable f \<and> f_pos f \<le> length (f_data f) \<and> drop (f_pos f) (f_data f) = bs"

definition at_end :: "FILE \<Rightarrow> nat \<Rightarrow> bool" where
  "at_end f n \<longleftrightarrow> driver_reads (f_drv f) \<and> f_flags f AND O_ACCMODE \<noteq> O_RDONLY \<and> f_size f = int (length (f_data f)) \<and>
     f_pos f = length (f_data f) \<and> (\<exists>cap. driver_writes (f_drv f) cap \<and> length (f_data f) + n \<le> cap)"

definition skip_bytes :: "nat \<Rightarrow> FILE \<Rightarrow> FILE" where
  "skip_bytes n f = f\<lparr>f_pos := f_pos f + n\<rparr>"

definition put_bytes :: "int list \<Rightarrow> FILE \<Rightarrow> FILE" where
  "put_bytes bs f = f\<lparr>f_data := f_data f @ bs, f_pos := f_pos f + length bs, f_size := f_size f + int (length bs)\<rparr>"

lemma skip_bytes_simps [simp]:
  "f_pos (skip_bytes n f) = f_pos f + n" "f_data (skip_bytes n f) = f_data f"
  "skip_bytes 0 f = f" "skip_bytes m (skip_bytes n f) = skip_bytes (n + m) f"
  by (simp_all add: skip_bytes_def)

lemma put_bytes_simps [simp]:
  "f_pos (put_bytes bs f) = f_pos f + length bs" "put_bytes [] f = f"
  "put_bytes cs (put_bytes bs f) = put_bytes (bs @ cs) f"
  by (simp_all add: put_bytes_def)

lemma unread_skip: "unread f (bs @ cs) \<Longrightarrow> unread (skip_bytes (length bs) f) cs"
proof -
  assume a: "unread f (bs @ cs)"
  then have d: "drop (f_pos f) (f_data f) = bs @ cs" by (simp add: unread_def)
  then have "length (f_data f) - f_pos f = length bs + length cs" by (metis length_append length_drop)
  moreover have "drop (f_pos f + length bs) (f_data f) = cs"
    using d by (metis add.commute append_eq_conv_conj drop_drop)
  ultimately show ?thesis using a by (auto simp: unread_def skip_bytes_def file_readable_def)
qed

lemma at_end_less: "at_end f (m + n) \<Longrightarrow> at_end f m"
  unfolding at_end_def by (meson add_left_mono le_add1 order_trans)

lemma at_end_mono: "at_end f n \<Longrightarrow> m \<le> n \<Longrightarrow> at_end f m"
  using at_end_less [of f m "n - m"] by simp

lemma at_end_put: "at_end f (length bs + n) \<Longrightarrow> at_end (put_bytes bs f) n"
  by (simp add: at_end_def put_bytes_def add.assoc)

text \<open>Seeking to a position of the file succeeds.\<close>

lemma lseek_ok:
  assumes "driver_reads (f_drv f)" "f_size f = int (length (f_data f))"
    and "(case wh of SEEK_SET \<Rightarrow> 0 | SEEK_CUR \<Rightarrow> int (f_pos f) | SEEK_END \<Rightarrow> f_size f) + offset = int n" "n \<le> length (f_data f)"
  shows "lseek offset wh f = (int n, f\<lparr>f_pos := n\<rparr>)"
proof -
  have "\<not> seek (int n) < 0" if "drv_lseek (f_drv f) = Some seek" for seek
    using assms(1) that by (simp add: driver_reads_def not_less)
  then show ?thesis using assms(2-4) by (auto simp: lseek_def Let_def split: option.splits)
qed

lemma ftell_file_readable: "file_readable f \<Longrightarrow> f_pos f \<le> length (f_data f) \<Longrightarrow> ftell f = int (f_pos f)"
  using lseek_ok [of f SEEK_CUR 0 "f_pos f"] by (simp add: ftell_def file_readable_def errno_wrap_def)

lemma ftell_unread: "unread f bs \<Longrightarrow> ftell f = int (f_pos f)"
  by (simp add: unread_def ftell_file_readable)

lemma ftell_at_end: "at_end f n \<Longrightarrow> ftell f = int (f_pos f)"
  using lseek_ok [of f SEEK_CUR 0 "f_pos f"] by (simp add: ftell_def at_end_def errno_wrap_def)

lemma size_t_small: "0 \<le> x \<Longrightarrow> x \<le> 1 \<Longrightarrow> size_t arch x = x"
  by (cases arch) (simp_all add: size_t_def)

lemma size_t_error: "1 \<le> size_t arch (- 1)"
  by (cases arch) (simp_all add: size_t_def zmod_minus1)

lemma read_at_file:
  assumes "file_readable f" "f_pos f + n \<le> length (f_data f)"
  shows "read_at n f = (int n, take n (drop (f_pos f) (f_data f)), f)"
proof (cases "n = 0")
  case False
  then have "drv_read (f_drv f) (f_pos f) n (f_data f) = (int n, take n (drop (f_pos f) (f_data f)), f_data f)"
    using assms by (simp add: file_readable_def driver_reads_def)
  then show ?thesis using assms False by (simp add: read_at_def file_readable_def)
qed (use assms in \<open>simp add: read_at_def file_readable_def\<close>)

lemma fread_byte:
  assumes "unread f (b # bs)"
  shows "fread arch 1 1 f = (1, [b], skip_bytes 1 f)"
proof -
  have d: "drop (f_pos f) (f_data f) = b # bs" "file_readable f" using assms by (simp_all add: unread_def)
  then have "length (drop (f_pos f) (f_data f)) = Suc (length bs)" by simp
  then have l: "f_pos f + 1 \<le> length (f_data f)" by simp
  have "read_at 1 f = (1, [b], f)" using read_at_file [OF d(2) l] d by simp
  then show ?thesis by (simp add: fread_def fs_read_def errno_wrap_def size_t_small skip_bytes_def)
qed

lemma fread_end:
  assumes "unread f []"
  shows "fread arch 1 1 f = (0, [], f)"
proof -
  have "f_pos f = length (f_data f)" using assms by (simp add: unread_def)
  then have "read_at 1 f = (0, [], f)" using assms by (simp add: read_at_def unread_def file_readable_def file_consts)
  then show ?thesis by (simp add: fread_def fs_read_def errno_wrap_def size_t_small)
qed

lemma fwrite_byte:
  assumes "at_end f 1"
  shows "fwrite arch 1 [b] f = (1, put_bytes [b] f)"
proof -
  obtain cap trunc wr where w: "drv_truncate (f_drv f) = Some trunc" "drv_write (f_drv f) = Some wr"
    "\<forall>len d. length d \<le> len \<longrightarrow> len \<le> cap \<longrightarrow> (\<exists>d'. trunc len d = (0, d') \<and> length d' = len \<and> take (length d) d' = d)"
    "\<forall>pos bs d. pos + length bs \<le> length d \<longrightarrow> wr pos bs d = (int (length bs), take pos d @ bs @ drop (pos + length bs) d)"
    "length (f_data f) + 1 \<le> cap" using assms unfolding at_end_def driver_writes_def by blast
  let ?n = "length (f_data f)"
  obtain d where d: "trunc (?n + 1) (f_data f) = (0, d)" "length d = ?n + 1" "take ?n d = f_data f"
    using w(3,5) by (meson le_add1)
  have "wr ?n [b] d = (1, f_data f @ [b])" using w(4) d(2,3) by simp
  then have "write_at [b] f = (1, f\<lparr>f_data := f_data f @ [b], f_size := f_size f + 1\<rparr>)"
    using assms w(1,2) d(1) by (simp add: write_at_def at_end_def fsdev_truncate_def call_write_def file_consts add.commute)
  then show ?thesis by (simp add: fwrite_def fs_write_def errno_wrap_def size_t_small put_bytes_def)
qed

text \<open>
  A byte that does not reach the device: the file was opened for reading or its driver cannot
  write, or there is no room. The caller cannot see it.
\<close>

lemma fsdev_truncate_error: "fst (fsdev_truncate len f) \<le> 0"
  by (auto simp: fsdev_truncate_def EROFS_def split: option.splits prod.splits)

lemma open_file_ok:
  assumes "\<forall>opn. drv_open (f_drv f) = Some opn \<longrightarrow> opn (f_data f) = 0" "flags AND O_APPEND = 0"
  shows "open_file flags f =
    (if flags AND O_TRUNC \<noteq> 0
     then (fst (fsdev_truncate 0 f), (snd (fsdev_truncate 0 f))\<lparr>f_flags := flags, f_pos := 0, f_size := 0\<rparr>)
     else (0, f\<lparr>f_flags := flags, f_pos := 0\<rparr>))"
proof -
  have t: "fsdev_truncate 0 (f\<lparr>f_flags := flags, f_pos := 0\<rparr>) =
      (fst (fsdev_truncate 0 f), (snd (fsdev_truncate 0 f))\<lparr>f_flags := flags, f_pos := 0\<rparr>)"
    by (cases "drv_truncate (f_drv f)") (simp_all add: fsdev_truncate_def case_prod_unfold)
  show ?thesis
    using assms by (cases "drv_open (f_drv f)") (simp_all add: open_file_def Let_def t)
qed

lemma fwrite_full:
  assumes "int (f_pos f) = f_size f" "fsdev_truncate (f_pos f + 1) f = (e, f)" "e \<noteq> 0"
  shows "fwrite arch 1 [b] f = (size_t arch (- 1), f)"
proof -
  have e: "e < 0" using fsdev_truncate_error [of "f_pos f + 1" f] assms(2,3) by simp
  have "write_at [b] f = (- EBADF, f) \<or> write_at [b] f = (e, f)"
    using assms by (auto simp: write_at_def file_consts split: option.splits)
  with e show ?thesis by (auto simp: fwrite_def fs_write_def errno_wrap_def EBADF_def)
qed

lemma fwrite_read_only:
  assumes "f_flags f AND O_ACCMODE = O_RDONLY \<or> drv_write (f_drv f) = None"
  shows "fwrite arch 1 bs f = (size_t arch (- 1), f)"
proof -
  have "write_at bs f = (- EBADF, f)" using assms by (auto simp: write_at_def split: option.splits)
  then show ?thesis by (simp add: fwrite_def fs_write_def errno_wrap_def EBADF_def)
qed

lemma fopen_read_only:
  "fopen_flags fn AND O_ACCMODE = O_RDONLY \<longleftrightarrow> CHR ''r'' \<in> set fn \<or> CHR ''w'' \<notin> set fn"
  by (simp add: fopen_flags_def file_consts)

text \<open>A driver that keeps the file in one block of memory of \<open>cap\<close> bytes, for the examples.\<close>

definition memory_driver :: "nat \<Rightarrow> fs_driver_d" where
  "memory_driver cap = \<lparr>drv_open = None,
     drv_truncate = Some (\<lambda>len d. if len > cap then (28, d) else (0, take len d @ replicate (len - length d) 0)),
     drv_read = (\<lambda>pos n d. (int n, take n (drop pos d), d)),
     drv_write = Some (\<lambda>pos bs d. (int (length bs), take pos d @ bs @ drop (pos + length bs) d)),
     drv_lseek = None\<rparr>"

lemma memory_driver_ok: "driver_reads (memory_driver cap)" "driver_writes (memory_driver cap) cap"
  by (simp_all add: driver_reads_def driver_writes_def memory_driver_def)

end
