(* ===== verification/Saveg_IO.thy ===== *)
theory Saveg_IO
  imports Stdio "HOL-Library.State_Monad"
begin

text \<open>
  The primitives of \<^verbatim>\<open>p_saveg.c\<close>: integers of 8, 16 and 32 bits, padding and pointers on
  \<open>save_stream\<close>, with the flag \<open>savegame_error\<close>. The functions run in the state monad over
  any record that extends \<open>saveg\<close>, so that the archive functions use them on the whole game.
  \<open>emits\<close> and \<open>takes\<close> say what a writer appends and what a reader makes of it; the
  locale \<open>codec\<close> is the contract of a pair of them.
\<close>

record saveg =
  sg_file :: FILE
  sg_error :: bool
  sg_junk :: int
  sg_arch :: arch

type_synonym ('x, 'a) sg = "('x saveg_scheme, 'a) state"

section \<open>Integers, padding and pointers\<close>

text \<open>
  \<open>result\<close> is not initialised; when nothing could be read the function returns what its
  stack slot held, \<open>sg_junk\<close>.
\<close>

definition saveg_read8 :: "('x, int) sg" where
  "saveg_read8 = State (\<lambda>s.
     case fread (sg_arch s) 1 1 (sg_file s) of
       (n, bs, f) \<Rightarrow>
         (if bs = [] then sg_junk s else hd bs,
          s\<lparr>sg_file := f, sg_error := sg_error s \<or> n < 1\<rparr>))"

definition saveg_write8 :: "int \<Rightarrow> ('x, unit) sg" where
  "saveg_write8 value = State (\<lambda>s.
     case fwrite (sg_arch s) 1 [u8 value] (sg_file s) of
       (n, f) \<Rightarrow> ((), s\<lparr>sg_file := f, sg_error := sg_error s \<or> n < 1\<rparr>))"

definition saveg_read16 :: "('x, int) sg" where
  "saveg_read16 = do {
     r0 \<leftarrow> saveg_read8;
     r1 \<leftarrow> saveg_read8;
     State_Monad.return (i16 (r0 OR push_bit 8 r1)) }"

definition saveg_write16 :: "int \<Rightarrow> ('x, unit) sg" where
  "saveg_write16 value = do {
     saveg_write8 (value AND 255);
     saveg_write8 (drop_bit 8 value AND 255) }"

definition saveg_read32 :: "('x, int) sg" where
  "saveg_read32 = do {
     r0 \<leftarrow> saveg_read8;
     r1 \<leftarrow> saveg_read8;
     r2 \<leftarrow> saveg_read8;
     r3 \<leftarrow> saveg_read8;
     State_Monad.return (i32 (r0 OR push_bit 8 r1 OR push_bit 16 r2 OR push_bit 24 r3)) }"

definition saveg_write32 :: "int \<Rightarrow> ('x, unit) sg" where
  "saveg_write32 value = do {
     saveg_write8 (value AND 255);
     saveg_write8 (drop_bit 8 value AND 255);
     saveg_write8 (drop_bit 16 value AND 255);
     saveg_write8 (drop_bit 24 value AND 255) }"

primrec read_array :: "nat \<Rightarrow> ('s, 'a) state \<Rightarrow> ('s, 'a list) state" where
  "read_array 0 m = State_Monad.return []"
| "read_array (Suc n) m = do { x \<leftarrow> m; xs \<leftarrow> read_array n m; State_Monad.return (x # xs) }"

primrec for_each :: "('a \<Rightarrow> ('s, unit) state) \<Rightarrow> 'a list \<Rightarrow> ('s, unit) state" where
  "for_each f [] = State_Monad.return ()"
| "for_each f (x # xs) = do { f x; for_each f xs }"

text \<open>\<open>pos\<close> is an \<open>unsigned long\<close>; its low two bits are those of the \<open>long\<close> that \<open>ftell\<close> returns.\<close>

definition pad_len :: "int \<Rightarrow> nat" where
  "pad_len pos = nat ((4 - (pos AND 3)) AND 3)"

definition saveg_read_pad :: "('x, unit) sg" where
  "saveg_read_pad = do {
     s \<leftarrow> State_Monad.get;
     read_array (pad_len (ftell (sg_file s))) saveg_read8;
     State_Monad.return () }"

definition saveg_write_pad :: "('x, unit) sg" where
  "saveg_write_pad = do {
     s \<leftarrow> State_Monad.get;
     for_each saveg_write8 (replicate (pad_len (ftell (sg_file s))) 0) }"

text \<open>
  A pointer is written as its low 32 bits; \<open>(void *) (uintptr_t)\<close> of the \<open>int\<close> that is read
  back extends the sign on a 64-bit machine.
\<close>

fun saved_ptr :: "arch \<Rightarrow> int \<Rightarrow> int" where
  "saved_ptr ILP32 x = u32 x"
| "saved_ptr LP64 x = i32 x mod 2 ^ 64"

definition saveg_readp :: "arch \<Rightarrow> ('x, int) sg" where
  "saveg_readp arch = do { x \<leftarrow> saveg_read32; State_Monad.return (saved_ptr arch x) }"

definition saveg_writep :: "int \<Rightarrow> ('x, unit) sg" where
  "saveg_writep p = saveg_write32 (i32 p)"

section \<open>What is written and what is read\<close>

definition emits :: "nat \<Rightarrow> ('x, unit) sg \<Rightarrow> int list \<Rightarrow> bool" where
  "emits p m bs \<longleftrightarrow> (\<forall>s. at_end (sg_file s) (length bs) \<longrightarrow> f_pos (sg_file s) mod 4 = p mod 4 \<longrightarrow>
     run_state m s = ((), s\<lparr>sg_file := put_bytes bs (sg_file s)\<rparr>))"

definition takes :: "nat \<Rightarrow> ('x, 'a) sg \<Rightarrow> int list \<Rightarrow> 'a \<Rightarrow> bool" where
  "takes p m bs v \<longleftrightarrow> (\<forall>s cs. unread (sg_file s) (bs @ cs) \<longrightarrow> f_pos (sg_file s) mod 4 = p mod 4 \<longrightarrow>
     run_state m s = (v, s\<lparr>sg_file := skip_bytes (length bs) (sg_file s)\<rparr>))"

lemma emitsD:
  "emits p m bs \<Longrightarrow> at_end (sg_file s) (length bs) \<Longrightarrow> f_pos (sg_file s) mod 4 = p mod 4 \<Longrightarrow>
     run_state m s = ((), s\<lparr>sg_file := put_bytes bs (sg_file s)\<rparr>)"
  by (simp add: emits_def)

lemma takesD:
  "takes p m bs v \<Longrightarrow> unread (sg_file s) (bs @ cs) \<Longrightarrow> f_pos (sg_file s) mod 4 = p mod 4 \<Longrightarrow>
     run_state m s = (v, s\<lparr>sg_file := skip_bytes (length bs) (sg_file s)\<rparr>)"
  unfolding takes_def by blast

named_theorems emits_intros \<open>what the writers append\<close>
named_theorems takes_intros \<open>what the readers return\<close>

lemma emits_return [emits_intros]: "emits p (State_Monad.return ()) (concat [])"
  by (simp add: emits_def)

lemma emits_bind [emits_intros]:
  assumes "emits p m b" "emits (p + length b) k (concat bs)"
  shows "emits p (m \<bind> (\<lambda>_. k)) (concat (b # bs))"
  unfolding emits_def
proof (intro allI impI)
  fix s :: "'a saveg_scheme"
  assume s: "at_end (sg_file s) (length (concat (b # bs)))" "f_pos (sg_file s) mod 4 = p mod 4"
  let ?s = "s\<lparr>sg_file := put_bytes b (sg_file s)\<rparr>"
  have "at_end (sg_file s) (length b)" using s(1) at_end_less [of "sg_file s" "length b"] by simp
  then have "run_state m s = ((), ?s)" using assms(1) s(2) by (simp add: emits_def)
  moreover have "at_end (sg_file ?s) (length (concat bs))" using at_end_put [of "sg_file s" b] s(1) by simp
  moreover have "f_pos (sg_file ?s) mod 4 = (p + length b) mod 4" using s(2) by (simp, metis mod_add_left_eq)
  ultimately show "run_state (m \<bind> (\<lambda>_. k)) s = ((), s\<lparr>sg_file := put_bytes (concat (b # bs)) (sg_file s)\<rparr>)"
    using assms(2) by (simp add: emits_def)
qed

lemma emits_last [emits_intros]: "emits p m b \<Longrightarrow> emits p m (concat [b])"
  by simp

lemma takes_return [takes_intros]: "v = w \<Longrightarrow> takes p (State_Monad.return v) (concat []) w"
  by (simp add: takes_def)

lemma takes_bind [takes_intros]:
  assumes "takes p m b v" "takes (p + length b) (k v) (concat bs) w"
  shows "takes p (m \<bind> k) (concat (b # bs)) w"
  unfolding takes_def
proof (intro allI impI)
  fix s :: "'a saveg_scheme" and cs
  assume s: "unread (sg_file s) (concat (b # bs) @ cs)" "f_pos (sg_file s) mod 4 = p mod 4"
  let ?s = "s\<lparr>sg_file := skip_bytes (length b) (sg_file s)\<rparr>"
  have a: "unread (sg_file s) (b @ (concat bs @ cs))" using s(1) by simp
  then have "run_state m s = (v, ?s)" using takesD [OF assms(1)] s(2) by blast
  moreover have "unread (sg_file ?s) (concat bs @ cs)" using unread_skip [OF a] by simp
  moreover have "f_pos (sg_file ?s) mod 4 = (p + length b) mod 4" using s(2) by (simp, metis mod_add_left_eq)
  ultimately show "run_state (m \<bind> k) s = (w, s\<lparr>sg_file := skip_bytes (length (concat (b # bs))) (sg_file s)\<rparr>)"
    using takesD [OF assms(2), of ?s cs] by simp
qed

lemma takes_map:
  assumes "takes p m b v" "f v = w"
  shows "takes p (m \<bind> (\<lambda>x. State_Monad.return (f x))) b w"
proof -
  have "takes (p + length b) (State_Monad.return (f v)) (concat []) w" by (rule takes_return) (rule assms(2))
  from takes_bind [OF assms(1), of "\<lambda>x. State_Monad.return (f x)", OF this] show ?thesis by simp
qed

lemmas byte_io = fread_byte [unfolded One_nat_def] fwrite_byte [unfolded One_nat_def] fread_end [unfolded One_nat_def]

lemma emits8: "emits p (saveg_write8 x) [u8 x]"
  by (auto simp: emits_def saveg_write8_def byte_io)

lemma takes8: "takes p saveg_read8 [b] b"
  by (auto simp: takes_def saveg_read8_def byte_io)

definition le16 :: "int \<Rightarrow> int list" where
  "le16 x = [u8 x, u8 (drop_bit 8 x)]"

definition le32 :: "int \<Rightarrow> int list" where
  "le32 x = [u8 x, u8 (drop_bit 8 x), u8 (drop_bit 16 x), u8 (drop_bit 24 x)]"

lemma le_length [simp]: "length (le16 x) = 2" "length (le32 x) = 4"
  by (simp_all add: le16_def le32_def)

lemma u8_and [simp]: "u8 (x AND 255) = u8 x"
  by (simp add: u8_def and_255_take_bit)

lemma bit_u8 [bit_simps]: "bit (u8 x) n \<longleftrightarrow> n < 8 \<and> bit x n"
  by (simp add: u8_def bit_simps)

lemma le16_join: "i16 (u8 x OR push_bit 8 (u8 (drop_bit 8 x))) = i16 x"
proof -
  have "take_bit 16 (u8 x OR push_bit 8 (u8 (drop_bit 8 x))) = take_bit 16 x"
    by (rule bit_eqI) (auto simp: bit_simps)
  then show ?thesis by (simp add: i16_def signed_take_bit_eq_iff_take_bit_eq)
qed

lemma le32_join:
  "i32 (u8 x OR push_bit 8 (u8 (drop_bit 8 x)) OR push_bit 16 (u8 (drop_bit 16 x)) OR push_bit 24 (u8 (drop_bit 24 x))) = i32 x"
  (is "i32 ?j = _")
proof -
  have "bit (take_bit 32 ?j) n = bit (take_bit 32 x) n" for n
  proof -
    consider "n < 8" | "8 \<le> n" "n < 16" | "16 \<le> n" "n < 24" | "24 \<le> n" "n < 32" | "32 \<le> n" by linarith
    then show ?thesis by cases (auto simp: bit_simps)
  qed
  then have "take_bit 32 ?j = take_bit 32 x" by (rule bit_eqI)
  then show ?thesis by (simp add: i32_def signed_take_bit_eq_iff_take_bit_eq)
qed

lemma emits16 [emits_intros]: "emits p (saveg_write16 x) (le16 x)"
proof -
  have "emits p (saveg_write16 x) (concat [[u8 (x AND 255)], [u8 (drop_bit 8 x AND 255)]])"
    unfolding saveg_write16_def by (intro emits_bind emits_last emits8)
  then show ?thesis by (simp add: le16_def)
qed

lemma emits32 [emits_intros]: "emits p (saveg_write32 x) (le32 x)"
proof -
  have "emits p (saveg_write32 x) (concat [[u8 (x AND 255)], [u8 (drop_bit 8 x AND 255)],
      [u8 (drop_bit 16 x AND 255)], [u8 (drop_bit 24 x AND 255)]])"
    unfolding saveg_write32_def by (intro emits_bind emits_last emits8)
  then show ?thesis by (simp add: le32_def)
qed

lemma takes16_trunc: "takes p saveg_read16 (le16 x) (i16 x)"
proof -
  have "takes p saveg_read16 (concat [[u8 x], [u8 (drop_bit 8 x)]]) (i16 x)"
    unfolding saveg_read16_def by (rule takes_bind, rule takes8)+ (rule takes_return, rule le16_join)
  then show ?thesis by (simp add: le16_def)
qed

lemma takes32_trunc: "takes p saveg_read32 (le32 x) (i32 x)"
proof -
  have "takes p saveg_read32 (concat [[u8 x], [u8 (drop_bit 8 x)], [u8 (drop_bit 16 x)], [u8 (drop_bit 24 x)]]) (i32 x)"
    unfolding saveg_read32_def by (rule takes_bind, rule takes8)+ (rule takes_return, rule le32_join)
  then show ?thesis by (simp add: le32_def)
qed

lemma takes16 [takes_intros]: "is_i16 x \<Longrightarrow> takes p saveg_read16 (le16 x) x"
  using takes16_trunc [of p x] by (simp add: i16_id)

lemma takes32 [takes_intros]: "is_i32 x \<Longrightarrow> takes p saveg_read32 (le32 x) x"
  using takes32_trunc [of p x] by (simp add: i32_id)

lemma bit_i32: "n < 32 \<Longrightarrow> bit (i32 x) n = bit x n"
  by (cases "n = 31") (simp_all add: i32_def bit_simps min_def)

lemma le32_i32: "le32 (i32 x) = le32 x"
proof -
  have "u8 (drop_bit k (i32 x)) = u8 (drop_bit k x)" if "k \<le> 24" for k
    by (rule bit_eqI) (use that in \<open>auto simp: bit_simps bit_i32\<close>)
  from this [of 0] this [of 8] this [of 16] this [of 24] show ?thesis by (simp add: le32_def)
qed

lemma saved_ptr_i32: "saved_ptr arch (i32 x) = saved_ptr arch x"
proof -
  have "u32 (i32 x) = u32 x" by (rule bit_eqI) (auto simp: u32_def bit_simps bit_i32)
  then show ?thesis by (cases arch) simp_all
qed

lemma emitsp [emits_intros]: "emits p (saveg_writep x) (le32 x)"
  using emits32 [of p "i32 x"] by (simp add: saveg_writep_def le32_i32)

lemma takesp [takes_intros]: "takes p (saveg_readp arch) (le32 x) (saved_ptr arch x)"
  unfolding saveg_readp_def by (rule takes_map [OF takes32_trunc]) (rule saved_ptr_i32)

text \<open>The pointers that come back as they were.\<close>

definition low_ptr :: "arch \<Rightarrow> int \<Rightarrow> bool" where
  "low_ptr arch x \<longleftrightarrow> (case arch of ILP32 \<Rightarrow> 0 \<le> x \<and> x < 2 ^ 32 | LP64 \<Rightarrow> 0 \<le> x \<and> x < 2 ^ 31 \<or> 2 ^ 64 - 2 ^ 31 \<le> x \<and> x < 2 ^ 64)"

lemma saved_ptr_exact:
  assumes "arch = ILP32 \<Longrightarrow> 0 \<le> x \<and> x < 2 ^ 32" "arch = LP64 \<Longrightarrow> 0 \<le> x \<and> x < 2 ^ 64"
  shows "saved_ptr arch x = x \<longleftrightarrow> low_ptr arch x"
proof (cases arch)
  case ILP32
  then show ?thesis using assms(1) by (simp add: low_ptr_def u32_def take_bit_int_eq_self)
next
  case LP64
  then have x: "0 \<le> x" "x < 2 ^ 64" using assms(2) by simp_all
  let ?m = "i32 x mod 2 ^ 64"
  have b: "- 2147483648 \<le> i32 x" "i32 x \<le> 2147483647" using is_i32_i32 [of x] by (simp_all add: is_i32_iff)
  have m: "?m = (if 0 \<le> i32 x then i32 x else i32 x + 2 ^ 64)"
  proof (cases "0 \<le> i32 x")
    case False
    have "?m = (i32 x + 2 ^ 64) mod 2 ^ 64" by simp
    also have "\<dots> = i32 x + 2 ^ 64" using b False by (intro mod_pos_pos_trivial) simp_all
    finally show ?thesis using False by simp
  qed (use b in \<open>simp add: mod_pos_pos_trivial\<close>)
  have "?m = x" if "low_ptr LP64 x"
  proof (cases "x < 2147483648")
    case True
    then have "i32 x = x" using x by (intro i32_id) (simp add: is_i32_iff)
    then show ?thesis using m x by simp
  next
    case False
    have "(x + 4294967296 * (- 4294967296)) mod 4294967296 = x mod 4294967296" by (rule mod_mult_self2)
    then have "i32 (x - 2 ^ 64) = i32 x"
      unfolding i32_def by (simp add: signed_take_bit_eq_iff_take_bit_eq take_bit_eq_mod)
    moreover have "i32 (x - 2 ^ 64) = x - 2 ^ 64" using False that x by (intro i32_id) (simp add: low_ptr_def is_i32_iff)
    ultimately show ?thesis using m x by simp
  qed
  moreover have "low_ptr LP64 x" if "?m = x" using that m b x by (auto simp: low_ptr_def split: if_splits)
  ultimately show ?thesis using LP64 by auto
qed

lemma emits_array:
  assumes "\<And>p x. x \<in> set xs \<Longrightarrow> emits p (f x) (enc x)"
  shows "emits p (for_each f xs) (concat (map enc xs))"
  using assms
proof (induction xs arbitrary: p)
  case Nil
  show ?case using emits_return by simp
next
  case (Cons x xs)
  have "emits p (f x) (enc x)" "emits (p + length (enc x)) (for_each f xs) (concat (map enc xs))"
    using Cons by simp_all
  from emits_bind [OF this] show ?case by simp
qed

lemma takes_array:
  assumes "\<And>p x. x \<in> set xs \<Longrightarrow> takes p m (enc x) (dec x)" "length xs = n"
  shows "takes p (read_array n m) (concat (map enc xs)) (map dec xs)"
  using assms
proof (induction xs arbitrary: p n)
  case Nil
  then show ?case using takes_return [of "[]" "[]" p] by simp
next
  case (Cons x xs)
  then obtain k where n: "n = Suc k" "length xs = k" by auto
  have xs: "takes q (read_array k m) (concat (map enc xs)) (map dec xs)" for q
    by (rule Cons.IH) (use Cons.prems(1) n(2) in auto)
  have "takes p m (enc x) (dec x)" using Cons.prems(1) by simp
  moreover have "takes q (read_array k m \<bind> (\<lambda>ys. State_Monad.return (dec x # ys))) (concat [concat (map enc xs)]) (dec x # map dec xs)" for q
    using takes_map [OF xs, of "\<lambda>ys. dec x # ys" "dec x # map dec xs" q] by simp
  ultimately have "takes p (m \<bind> (\<lambda>x. read_array k m \<bind> (\<lambda>ys. State_Monad.return (x # ys))))
      (concat (enc x # [concat (map enc xs)])) (dec x # map dec xs)"
    by (rule takes_bind)
  then show ?case by (simp add: n)
qed

text \<open>The padding at a position of the file.\<close>

definition padding :: "nat \<Rightarrow> nat" where
  "padding pos = (4 - pos mod 4) mod 4"

lemma pad_len_padding: "pad_len (int p) = padding p"
proof -
  have m: "x AND 3 = x mod 4" for x :: int using take_bit_eq_mask [of 2 x] by (simp add: take_bit_eq_mod mask_eq_exp_minus_1)
  have "p mod 4 < 4" by simp
  then consider "p mod 4 = 0" | "p mod 4 = 1" | "p mod 4 = 2" | "p mod 4 = 3" by linarith
  then show ?thesis
    unfolding pad_len_def padding_def m using zmod_int [of p 4] by cases simp_all
qed

lemma padding_cong: "p mod 4 = q mod 4 \<Longrightarrow> padding p = padding q"
  by (simp add: padding_def)

lemma padding_aligns: "(p + padding p) mod 4 = 0"
proof -
  have "p mod 4 < 4" by simp
  then have "p mod 4 \<in> {0, 1, 2, 3}" unfolding insert_iff empty_iff by linarith
  moreover have "(p + padding p) mod 4 = (p mod 4 + padding p) mod 4" by (simp add: mod_add_left_eq)
  ultimately show ?thesis by (auto simp: padding_def)
qed

lemma emits_pad [emits_intros]: "emits p saveg_write_pad (replicate (padding p) 0)"
  unfolding emits_def
proof (intro allI impI)
  fix s :: "'a saveg_scheme"
  assume s: "at_end (sg_file s) (length (replicate (padding p) (0::int)))" "f_pos (sg_file s) mod 4 = p mod 4"
  have "emits q (for_each saveg_write8 (replicate (padding p) 0)) (concat (map (\<lambda>x. [u8 x]) (replicate (padding p) 0)))" for q
    by (rule emits_array) (rule emits8)
  then have "emits p (for_each saveg_write8 (replicate (padding p) 0)) (replicate (padding p) 0)"
    by (simp add: u8_def map_replicate_const [symmetric] concat_replicate_trivial)
  from emitsD [OF this s] show "run_state saveg_write_pad s = ((), s\<lparr>sg_file := put_bytes (replicate (padding p) 0) (sg_file s)\<rparr>)"
    using padding_cong [OF s(2)] by (simp add: saveg_write_pad_def ftell_at_end [OF s(1)] pad_len_padding)
qed

lemma takes_pad [takes_intros]: "takes p saveg_read_pad (replicate (padding p) 0) ()"
  unfolding takes_def
proof (intro allI impI)
  fix s :: "'a saveg_scheme" and cs
  assume s: "unread (sg_file s) (replicate (padding p) 0 @ cs)" "f_pos (sg_file s) mod 4 = p mod 4"
  have c: "concat (map (\<lambda>x. [x]) (replicate (padding p) (0::int))) = replicate (padding p) 0" by simp
  have "takes p (read_array (padding p) saveg_read8) (concat (map (\<lambda>x. [x]) (replicate (padding p) 0)))
      (map (\<lambda>x. x) (replicate (padding p) 0))"
    by (rule takes_array) (simp_all add: takes8)
  then have "takes p (read_array (padding p) saveg_read8) (replicate (padding p) 0) (map (\<lambda>x. x) (replicate (padding p) 0))"
    unfolding c .
  from takesD [OF this s] show "run_state saveg_read_pad s =
      ((), s\<lparr>sg_file := skip_bytes (length (replicate (padding p) (0::int))) (sg_file s)\<rparr>)"
    using padding_cong [OF s(2)] by (simp add: saveg_read_pad_def ftell_unread [OF s(1)] pad_len_padding)
qed

section \<open>Codecs\<close>

text \<open>
  The contract of a writer \<open>wr\<close> and a reader \<open>rd\<close>: on the values that are \<open>ok\<close>, the writer
  appends \<open>w\<close> bytes and the reader turns them into \<open>dec x\<close>, whatever the position.
\<close>

definition reopen :: "nat \<Rightarrow> 'x saveg_scheme \<Rightarrow> 'x saveg_scheme" where
  "reopen pos s = s\<lparr>sg_file := (sg_file s)\<lparr>f_pos := pos, f_flags := O_RDONLY\<rparr>\<rparr>"

locale codec =
  fixes wr :: "'a \<Rightarrow> ('x, unit) sg" and rd :: "('x, 'b) sg" and enc :: "'a \<Rightarrow> int list"
    and dec :: "'a \<Rightarrow> 'b" and ok :: "'a \<Rightarrow> bool" and w :: nat
  assumes width: "ok x \<Longrightarrow> length (enc x) = w"
    and wr: "ok x \<Longrightarrow> emits p (wr x) (enc x)"
    and rd: "ok x \<Longrightarrow> takes p rd (enc x) (dec x)"
begin

lemma wr_array: "\<forall>x\<in>set xs. ok x \<Longrightarrow> emits p (for_each wr xs) (concat (map enc xs))"
  by (rule emits_array) (rule wr, blast)

lemma rd_array:
  assumes "\<forall>x\<in>set xs. ok x" "length xs = n"
  shows "takes p (read_array n rd) (concat (map enc xs)) (map dec xs)"
  by (rule takes_array [OF _ assms(2)]) (rule rd, use assms(1) in blast)

lemma array_width: "\<forall>x\<in>set xs. ok x \<Longrightarrow> length (concat (map enc xs)) = w * length xs"
  by (induction xs) (simp_all add: width)

lemma roundtrip:
  assumes x: "ok x" and s: "at_end (sg_file s) w"
  defines "s' \<equiv> snd (run_state (wr x) s)"
  defines "t \<equiv> reopen (f_pos (sg_file s)) s'"
  shows "s' = s\<lparr>sg_file := put_bytes (enc x) (sg_file s)\<rparr>"
    and "run_state rd t = (dec x, t\<lparr>sg_file := skip_bytes w (sg_file t)\<rparr>)"
proof -
  have at: "at_end (sg_file s) (length (enc x))" using s by (simp add: width x)
  show s': "s' = s\<lparr>sg_file := put_bytes (enc x) (sg_file s)\<rparr>"
    using emitsD [OF wr [OF x] at refl] by (simp add: s'_def)
  have "unread (sg_file t) (enc x @ [])"
    using s by (simp add: t_def s' reopen_def unread_def file_readable_def put_bytes_def at_end_def file_consts)
  from takesD [OF rd [OF x] this refl] show "run_state rd t = (dec x, t\<lparr>sg_file := skip_bytes w (sg_file t)\<rparr>)"
    by (simp add: width x)
qed

end

interpretation c16: codec saveg_write16 saveg_read16 le16 "\<lambda>x. x" is_i16 2
  by unfold_locales (simp_all add: emits16 takes16)

interpretation c32: codec saveg_write32 saveg_read32 le32 "\<lambda>x. x" is_i32 4
  by unfold_locales (simp_all add: emits32 takes32)

interpretation cptr: codec saveg_writep "saveg_readp arch" le32 "saved_ptr arch" "\<lambda>_. True" 4 for arch
  by unfold_locales (simp_all add: emitsp takesp)

end
