(* ===== verification/Player.thy ===== *)
theory Player
  imports Prelude
begin

text \<open>
  The player (\<^verbatim>\<open>d_player.h\<close>, \<^verbatim>\<open>d_ticcmd.h\<close>, \<^verbatim>\<open>p_pspr.h\<close>) and the sizes of its tables
  (\<^verbatim>\<open>doomdef.h\<close>). A C \<open>boolean\<close> is an \<open>int\<close>; an array is a list of its length; pointers
  into \<open>states\<close> are indices, other pointers addresses.
\<close>

definition MAXPLAYERS :: nat where "MAXPLAYERS = 4"
definition NUMCARDS :: nat where "NUMCARDS = 6"
definition NUMWEAPONS :: nat where "NUMWEAPONS = 9"
definition NUMAMMO :: nat where "NUMAMMO = 4"
definition NUMPOWERS :: nat where "NUMPOWERS = 6"
definition NUMPSPRITES :: nat where "NUMPSPRITES = 2"

lemmas player_consts = MAXPLAYERS_def NUMCARDS_def NUMWEAPONS_def NUMAMMO_def NUMPOWERS_def NUMPSPRITES_def

record ticcmd_t =
  cmd_forwardmove :: int
  cmd_sidemove :: int
  cmd_angleturn :: int
  cmd_chatchar :: int
  cmd_buttons :: int
  cmd_consistancy :: int
  cmd_buttons2 :: int
  cmd_inventory :: int
  cmd_lookfly :: int
  cmd_arti :: int

text \<open>A \<open>NULL\<close> state means that the sprite is not active.\<close>

record pspdef_t =
  psp_state :: "int option"
  psp_tics :: int
  psp_sx :: int
  psp_sy :: int

record player_t =
  pr_mo :: int
  pr_playerstate :: int
  pr_cmd :: ticcmd_t
  pr_viewz :: int
  pr_viewheight :: int
  pr_deltaviewheight :: int
  pr_bob :: int
  pr_health :: int
  pr_armorpoints :: int
  pr_armortype :: int
  pr_powers :: "int list"
  pr_cards :: "int list"
  pr_backpack :: int
  pr_frags :: "int list"
  pr_readyweapon :: int
  pr_pendingweapon :: int
  pr_weaponowned :: "int list"
  pr_ammo :: "int list"
  pr_maxammo :: "int list"
  pr_attackdown :: int
  pr_usedown :: int
  pr_cheats :: int
  pr_refire :: int
  pr_killcount :: int
  pr_itemcount :: int
  pr_secretcount :: int
  pr_message :: int
  pr_damagecount :: int
  pr_bonuscount :: int
  pr_attacker :: int
  pr_extralight :: int
  pr_fixedcolormap :: int
  pr_colormap :: int
  pr_psprites :: "pspdef_t list"
  pr_didsecret :: int

text \<open>The arrays have their lengths.\<close>

definition player_shape :: "player_t \<Rightarrow> bool" where
  "player_shape p \<longleftrightarrow>
     length (pr_powers p) = NUMPOWERS \<and> length (pr_cards p) = NUMCARDS \<and> length (pr_frags p) = MAXPLAYERS \<and>
     length (pr_weaponowned p) = NUMWEAPONS \<and> length (pr_ammo p) = NUMAMMO \<and> length (pr_maxammo p) = NUMAMMO \<and>
     length (pr_psprites p) = NUMPSPRITES"

end
