(* ===== verification/Zone.thy ===== *)
theory Zone
  imports Prelude
begin

text \<open>
  The zone allocator, \<^verbatim>\<open>z_zone.c\<close>: every byte of the game's memory comes from one
  region cut into blocks, each with a header, in a circular doubly linked list
  through a cap that lies in the zone's own header. The model keeps the pointers:
  headers live at addresses, and every assignment of the source is an update of the
  header at an address. Nothing is erased when blocks are merged: a stale header
  keeps its contents, as in memory.
\<close>

section \<open>Headers and the zone\<close>

text \<open>
  \<open>mb_user\<close> is the address of the owner's pointer, \<open>None\<close> for \<open>NULL\<close>. The owners'
  pointers are cells outside the headers; \<open>0\<close> is the null pointer.
\<close>

record memblock =
  mb_size :: int
  mb_user :: "int option"
  mb_tag :: int
  mb_id :: int
  mb_next :: int
  mb_prev :: int

record zone =
  zarch :: arch
  mainzone :: int
  zsize :: int
  rover :: int
  zmem :: "int \<Rightarrow> memblock"
  zcells :: "int \<Rightarrow> int"

definition ZONEID :: int where "ZONEID = 0x1d4a11"
definition PU_STATIC :: int where "PU_STATIC = 1"
definition PU_FREE :: int where "PU_FREE = 4"
definition PU_LEVEL :: int where "PU_LEVEL = 5"
definition PU_LEVSPEC :: int where "PU_LEVSPEC = 6"
definition PU_PURGELEVEL :: int where "PU_PURGELEVEL = 7"
definition PU_CACHE :: int where "PU_CACHE = 8"
definition MINFRAGMENT :: int where "MINFRAGMENT = 64"

lemmas PU_defs = PU_STATIC_def PU_FREE_def PU_LEVEL_def PU_LEVSPEC_def PU_PURGELEVEL_def PU_CACHE_def

fun MEM_ALIGN :: "arch \<Rightarrow> int" where
  "MEM_ALIGN arch = sizeof_ptr arch"

text \<open>The sizes of \<open>memblock_t\<close> and \<open>memzone_t\<close> and the offset of \<open>blocklist\<close>.\<close>

fun sizeof_memblock :: "arch \<Rightarrow> int" where
  "sizeof_memblock ILP32 = 24"
| "sizeof_memblock LP64 = 40"

fun sizeof_memzone :: "arch \<Rightarrow> int" where
  "sizeof_memzone ILP32 = 32"
| "sizeof_memzone LP64 = 56"

definition blocklist :: "zone \<Rightarrow> int" where
  "blocklist z = mainzone z + sizeof_ptr (zarch z)"

definition hdr :: "zone \<Rightarrow> int" where
  "hdr z = sizeof_memblock (zarch z)"

definition upd :: "int \<Rightarrow> (memblock \<Rightarrow> memblock) \<Rightarrow> zone \<Rightarrow> zone" where
  "upd a f z = z\<lparr>zmem := (zmem z)(a := f (zmem z a))\<rparr>"

section \<open>The operations\<close>

text \<open>\<open>I_ZoneBase\<close> supplies the region: its address, its size and what memory holds.\<close>

definition Z_Init :: "arch \<Rightarrow> int \<Rightarrow> int \<Rightarrow> (int \<Rightarrow> memblock) \<Rightarrow> (int \<Rightarrow> int) \<Rightarrow> zone" where
  "Z_Init arch base sz mem cells =
     (let block = base + sizeof_memzone arch;
          z = \<lparr>zarch = arch, mainzone = base, zsize = sz, rover = block, zmem = mem, zcells = cells\<rparr>;
          z = upd (blocklist z) (\<lambda>b. b\<lparr>mb_next := block, mb_prev := block,
                                     mb_user := Some base, mb_tag := PU_STATIC\<rparr>) z
      in upd block (\<lambda>b. b\<lparr>mb_prev := blocklist z, mb_next := blocklist z, mb_tag := PU_FREE,
                         mb_size := i32 (sz - sizeof_memzone arch)\<rparr>) z)"

text \<open>
  Both merges of \<open>Z_Free\<close>: \<open>hi\<close>, the block after \<open>lo\<close>, is added to it and unlinked,
  and the rover is moved if it pointed there.
\<close>

definition merge_blocks :: "int \<Rightarrow> int \<Rightarrow> zone \<Rightarrow> zone" where
  "merge_blocks lo hi z =
     (let z = upd lo (\<lambda>b. b\<lparr>mb_size := i32 (mb_size b + mb_size (zmem z hi))\<rparr>) z;
          z = upd lo (\<lambda>b. b\<lparr>mb_next := mb_next (zmem z hi)\<rparr>) z;
          z = upd (mb_next (zmem z lo)) (\<lambda>b. b\<lparr>mb_prev := lo\<rparr>) z
      in if hi = rover z then z\<lparr>rover := lo\<rparr> else z)"

definition clear_user :: "int \<Rightarrow> zone \<Rightarrow> zone" where
  "clear_user block z =
     (case mb_user (zmem z block) of
        Some u \<Rightarrow> if mb_tag (zmem z block) \<noteq> PU_FREE then z\<lparr>zcells := (zcells z)(u := 0)\<rparr> else z
      | None \<Rightarrow> z)"

definition mark_free :: "int \<Rightarrow> zone \<Rightarrow> zone" where
  "mark_free block = upd block (\<lambda>b. b\<lparr>mb_tag := PU_FREE, mb_user := None, mb_id := 0\<rparr>)"

definition Z_Free :: "int \<Rightarrow> zone \<Rightarrow> zone result" where
  "Z_Free ptr z =
     (let block = ptr - hdr z
      in if mb_id (zmem z block) \<noteq> ZONEID
         then Inl (I_Error ''Z_Free: freed a pointer without ZONEID'')
         else
           (let z = mark_free block (clear_user block z);
                other = mb_prev (zmem z block);
                (z, block) = (if mb_tag (zmem z other) = PU_FREE
                              then (merge_blocks other block z, other) else (z, block));
                other = mb_next (zmem z block)
            in Inr (if mb_tag (zmem z other) = PU_FREE then merge_blocks block other z else z)))"

text \<open>One round of the scan of \<open>Z_Malloc\<close>, after the test for the starting block.\<close>

definition scan_step :: "int \<Rightarrow> int \<Rightarrow> zone \<Rightarrow> (zone \<times> int \<times> int) result" where
  "scan_step base rov z =
     (if mb_tag (zmem z rov) \<noteq> PU_FREE
      then if mb_tag (zmem z rov) < PU_PURGELEVEL
           then Inr (z, mb_next (zmem z rov), mb_next (zmem z rov))
           else (let base = mb_prev (zmem z base)
                 in bindE (Z_Free (rov + hdr z) z) (\<lambda>z.
                      let base = mb_next (zmem z base)
                      in Inr (z, base, mb_next (zmem z base))))
      else Inr (z, base, mb_next (zmem z rov)))"

partial_function (option) Z_Malloc_scan ::
  "int \<Rightarrow> int \<Rightarrow> int \<Rightarrow> int \<Rightarrow> zone \<Rightarrow> (zone \<times> int) result option" where
  "Z_Malloc_scan sz start base rov z =
     (if rov = start then Some (Inl (I_Error ''Z_Malloc: failed on allocation''))
      else (case scan_step base rov z of
              Inl e \<Rightarrow> Some (Inl e)
            | Inr (z', base', rov') \<Rightarrow>
                if mb_tag (zmem z' base') \<noteq> PU_FREE \<or> mb_size (zmem z' base') < sz
                then Z_Malloc_scan sz start base' rov' z'
                else Some (Inr (z', base'))))"

definition split_block :: "int \<Rightarrow> int \<Rightarrow> zone \<Rightarrow> zone" where
  "split_block base sz z =
     (let extra = i32 (mb_size (zmem z base) - sz)
      in if extra > MINFRAGMENT
         then (let newblock = base + sz;
                   z = upd newblock (\<lambda>b. b\<lparr>mb_size := extra, mb_tag := PU_FREE, mb_user := None,
                          mb_prev := base, mb_next := mb_next (zmem z base)\<rparr>) z;
                   z = upd (mb_next (zmem z newblock)) (\<lambda>b. b\<lparr>mb_prev := newblock\<rparr>) z
               in upd base (\<lambda>b. b\<lparr>mb_next := newblock, mb_size := sz\<rparr>) z)
         else z)"

definition alloc_size :: "arch \<Rightarrow> int \<Rightarrow> int" where
  "alloc_size arch sz =
     (let sz = i32 ((sz + MEM_ALIGN arch - 1) AND NOT (MEM_ALIGN arch - 1))
      in i32 (sz + sizeof_memblock arch))"

definition Z_Malloc :: "int \<Rightarrow> int \<Rightarrow> int option \<Rightarrow> zone \<Rightarrow> (int \<times> zone) result option" where
  "Z_Malloc sz tag user z =
     (let sz = alloc_size (zarch z) sz;
          base = rover z;
          base = (if mb_tag (zmem z (mb_prev (zmem z base))) = PU_FREE
                  then mb_prev (zmem z base) else base);
          start = mb_prev (zmem z base)
      in case Z_Malloc_scan sz start base base z of
           None \<Rightarrow> None
         | Some (Inl e) \<Rightarrow> Some (Inl e)
         | Some (Inr (z, base)) \<Rightarrow>
             (let z = split_block base sz z
              in if user = None \<and> tag \<ge> PU_PURGELEVEL
                 then Some (Inl (I_Error ''Z_Malloc: an owner is required for purgable blocks''))
                 else
                   (let z = upd base (\<lambda>b. b\<lparr>mb_user := user, mb_tag := tag\<rparr>) z;
                        ptr = base + hdr z;
                        z = (case user of None \<Rightarrow> z | Some u \<Rightarrow> z\<lparr>zcells := (zcells z)(u := ptr)\<rparr>);
                        z = z\<lparr>rover := mb_next (zmem z base)\<rparr>;
                        z = upd base (\<lambda>b. b\<lparr>mb_id := ZONEID\<rparr>) z
                    in Some (Inr (ptr, z)))))"

partial_function (option) Z_FreeTags_loop :: "int \<Rightarrow> int \<Rightarrow> int \<Rightarrow> zone \<Rightarrow> zone result option" where
  "Z_FreeTags_loop lowtag hightag block z =
     (if block = blocklist z then Some (Inr z)
      else (let nxt = mb_next (zmem z block)
            in if mb_tag (zmem z block) = PU_FREE then Z_FreeTags_loop lowtag hightag nxt z
               else if lowtag \<le> mb_tag (zmem z block) \<and> mb_tag (zmem z block) \<le> hightag
               then (case Z_Free (block + hdr z) z of
                       Inl e \<Rightarrow> Some (Inl e)
                     | Inr z' \<Rightarrow> Z_FreeTags_loop lowtag hightag nxt z')
               else Z_FreeTags_loop lowtag hightag nxt z))"

definition Z_FreeTags :: "int \<Rightarrow> int \<Rightarrow> zone \<Rightarrow> zone result option" where
  "Z_FreeTags lowtag hightag z =
     Z_FreeTags_loop lowtag hightag (mb_next (zmem z (blocklist z))) z"

partial_function (option) Z_CheckHeap_loop :: "int \<Rightarrow> zone \<Rightarrow> unit result option" where
  "Z_CheckHeap_loop block z =
     (let nxt = mb_next (zmem z block)
      in if nxt = blocklist z then Some (Inr ())
         else if block + mb_size (zmem z block) \<noteq> nxt
         then Some (Inl (I_Error ''Z_CheckHeap: block size does not touch the next block''))
         else if mb_prev (zmem z nxt) \<noteq> block
         then Some (Inl (I_Error ''Z_CheckHeap: next block doesn't have proper back link''))
         else if mb_tag (zmem z block) = PU_FREE \<and> mb_tag (zmem z nxt) = PU_FREE
         then Some (Inl (I_Error ''Z_CheckHeap: two consecutive free blocks''))
         else Z_CheckHeap_loop nxt z)"

definition Z_CheckHeap :: "zone \<Rightarrow> unit result option" where
  "Z_CheckHeap z = Z_CheckHeap_loop (mb_next (zmem z (blocklist z))) z"

definition Z_ChangeTag2 :: "int \<Rightarrow> int \<Rightarrow> zone \<Rightarrow> zone result" where
  "Z_ChangeTag2 ptr tag z =
     (let block = ptr - hdr z
      in if mb_id (zmem z block) \<noteq> ZONEID
         then Inl (I_Error ''Z_ChangeTag: block without a ZONEID!'')
         else if tag \<ge> PU_PURGELEVEL \<and> mb_user (zmem z block) = None
         then Inl (I_Error ''Z_ChangeTag: an owner is required for purgable blocks'')
         else Inr (upd block (\<lambda>b. b\<lparr>mb_tag := tag\<rparr>) z))"

text \<open>The caller's cell \<open>user\<close> must exist; the pointer is stored there.\<close>

definition Z_ChangeUser :: "int \<Rightarrow> int \<Rightarrow> zone \<Rightarrow> zone result" where
  "Z_ChangeUser ptr user z =
     (let block = ptr - hdr z
      in if mb_id (zmem z block) \<noteq> ZONEID
         then Inl (I_Error ''Z_ChangeUser: Tried to change user for invalid block!'')
         else (let z = upd block (\<lambda>b. b\<lparr>mb_user := Some user\<rparr>) z
               in Inr (z\<lparr>zcells := (zcells z)(user := ptr)\<rparr>)))"

partial_function (option) Z_FreeMemory_loop :: "int \<Rightarrow> int \<Rightarrow> zone \<Rightarrow> int option" where
  "Z_FreeMemory_loop acc block z =
     (if block = blocklist z then Some acc
      else Z_FreeMemory_loop
             (if mb_tag (zmem z block) = PU_FREE \<or> mb_tag (zmem z block) \<ge> PU_PURGELEVEL
              then i32 (acc + mb_size (zmem z block)) else acc)
             (mb_next (zmem z block)) z)"

definition Z_FreeMemory :: "zone \<Rightarrow> int option" where
  "Z_FreeMemory z = Z_FreeMemory_loop 0 (mb_next (zmem z (blocklist z))) z"

definition Z_ZoneSize :: "zone \<Rightarrow> int" where
  "Z_ZoneSize z = u32 (zsize z)"

end
