(* ===== verification/Zone_Inv.thy ===== *)
theory Zone_Inv
  imports Zone
begin

text \<open>
  The invariant that the comment at the head of \<^verbatim>\<open>z_zone.c\<close> states (no space
  between blocks, no two contiguous free blocks) and everything it needs: the links
  agree with the addresses, used blocks carry the identifier, purgable blocks have
  an owner. \<open>B\<close> is the set of the addresses that are block headers.
\<close>

abbreviation bsize where "bsize z a \<equiv> mb_size (zmem z a)"
abbreviation btag where "btag z a \<equiv> mb_tag (zmem z a)"
abbreviation bnext where "bnext z a \<equiv> mb_next (zmem z a)"
abbreviation bprev where "bprev z a \<equiv> mb_prev (zmem z a)"
abbreviation buser where "buser z a \<equiv> mb_user (zmem z a)"
abbreviation bid where "bid z a \<equiv> mb_id (zmem z a)"

definition zfirst :: "zone \<Rightarrow> int" where
  "zfirst z = mainzone z + sizeof_memzone (zarch z)"

definition zend :: "zone \<Rightarrow> int" where
  "zend z = mainzone z + zsize z"

definition zlinks :: "int set \<Rightarrow> zone \<Rightarrow> bool" where
  "zlinks B z \<longleftrightarrow>
     (\<forall>a\<in>B. (a + bsize z a = zend z \<and> bnext z a = blocklist z) \<or>
            (a + bsize z a \<in> B \<and> bnext z a = a + bsize z a)) \<and>
     bnext z (blocklist z) = zfirst z \<and>
     (\<forall>a\<in>insert (blocklist z) B. bprev z (bnext z a) = a)"

definition zlayout :: "int set \<Rightarrow> zone \<Rightarrow> bool" where
  "zlayout B z \<longleftrightarrow>
     finite B \<and> zfirst z \<in> B \<and> zsize z \<le> INT_MAX \<and>
     (\<forall>a\<in>B. zfirst z \<le> a \<and> hdr z \<le> bsize z a \<and> a + bsize z a \<le> zend z) \<and>
     (\<forall>a\<in>B. \<forall>b\<in>B. a < b \<longrightarrow> a + bsize z a \<le> b)"

definition zmarks :: "int set \<Rightarrow> zone \<Rightarrow> bool" where
  "zmarks B z \<longleftrightarrow>
     btag z (blocklist z) \<noteq> PU_FREE \<and> btag z (blocklist z) < PU_PURGELEVEL \<and>
     rover z \<in> insert (blocklist z) B \<and>
     (\<forall>a\<in>B. btag z a \<noteq> PU_FREE \<longrightarrow> bid z a = ZONEID) \<and>
     (\<forall>a\<in>B. PU_PURGELEVEL \<le> btag z a \<longrightarrow> buser z a \<noteq> None)"

definition zstruct :: "int set \<Rightarrow> zone \<Rightarrow> bool" where
  "zstruct B z \<longleftrightarrow> zlayout B z \<and> zlinks B z \<and> zmarks B z"

definition no_adjacent_free :: "int set \<Rightarrow> zone \<Rightarrow> bool" where
  "no_adjacent_free B z \<longleftrightarrow> (\<forall>a\<in>B. btag z a = PU_FREE \<longrightarrow> btag z (bnext z a) \<noteq> PU_FREE)"

definition zone_inv :: "int set \<Rightarrow> zone \<Rightarrow> bool" where
  "zone_inv B z \<longleftrightarrow> zstruct B z \<and> no_adjacent_free B z"

section \<open>Consequences of the layout\<close>

lemma blocklist_less: "blocklist z < zfirst z"
  by (cases "zarch z") (simp_all add: blocklist_def zfirst_def)

lemma hdr_pos [simp]: "0 < hdr z"
  by (cases "zarch z") (simp_all add: hdr_def)

lemma upd_simps [simp]:
  "zarch (upd a f z) = zarch z" "mainzone (upd a f z) = mainzone z" "zsize (upd a f z) = zsize z"
  "rover (upd a f z) = rover z" "zcells (upd a f z) = zcells z"
  "zmem (upd a f z) = (zmem z)(a := f (zmem z a))"
  by (simp_all add: upd_def)

lemma zconst_cong:
  assumes "zarch z' = zarch z" "mainzone z' = mainzone z" "zsize z' = zsize z"
  shows "blocklist z' = blocklist z" "hdr z' = hdr z" "zfirst z' = zfirst z" "zend z' = zend z"
  using assms by (simp_all add: blocklist_def hdr_def zfirst_def zend_def)

lemma zconst_upd [simp]:
  "blocklist (upd a f z) = blocklist z" "hdr (upd a f z) = hdr z"
  "zfirst (upd a f z) = zfirst z" "zend (upd a f z) = zend z"
  by (rule zconst_cong; simp)+

lemma zconst_rover [simp]:
  "blocklist (z\<lparr>rover := r\<rparr>) = blocklist z" "hdr (z\<lparr>rover := r\<rparr>) = hdr z"
  "zfirst (z\<lparr>rover := r\<rparr>) = zfirst z" "zend (z\<lparr>rover := r\<rparr>) = zend z"
  by (rule zconst_cong; simp)+

lemma zconst_cells [simp]:
  "blocklist (z\<lparr>zcells := c\<rparr>) = blocklist z" "hdr (z\<lparr>zcells := c\<rparr>) = hdr z"
  "zfirst (z\<lparr>zcells := c\<rparr>) = zfirst z" "zend (z\<lparr>zcells := c\<rparr>) = zend z"
  by (rule zconst_cong; simp)+

lemma zlayoutD:
  assumes "zlayout B z" "a \<in> B"
  shows "blocklist z < a" "zfirst z \<le> a" "hdr z \<le> bsize z a" "a + bsize z a \<le> zend z" "0 < bsize z a"
    "a < a + bsize z a"
proof -
  show 1: "zfirst z \<le> a" and 2: "hdr z \<le> bsize z a" and "a + bsize z a \<le> zend z"
    using assms by (auto simp: zlayout_def)
  show "blocklist z < a" using 1 blocklist_less [of z] by simp
  show "0 < bsize z a" using 2 hdr_pos [of z] by linarith
  then show "a < a + bsize z a" by simp
qed

lemma zlayout_no_overlap: "zlayout B z \<Longrightarrow> a \<in> B \<Longrightarrow> b \<in> B \<Longrightarrow> a < b \<Longrightarrow> a + bsize z a \<le> b"
  unfolding zlayout_def by blast

lemma cap_notin: "zlayout B z \<Longrightarrow> blocklist z \<notin> B"
  using zlayoutD(1) by blast

lemma zlinks_next:
  assumes "zlinks B z" "a \<in> B"
  shows "bnext z a = blocklist z \<and> a + bsize z a = zend z \<or> bnext z a \<in> B \<and> bnext z a = a + bsize z a"
  using assms by (auto simp: zlinks_def)

lemma zlinks_next_in: "zlinks B z \<Longrightarrow> zlayout B z \<Longrightarrow> a \<in> insert (blocklist z) B \<Longrightarrow>
    bnext z a \<in> insert (blocklist z) B"
  using zlinks_next by (fastforce simp: zlinks_def zlayout_def)

lemma zlinks_prev_next: "zlinks B z \<Longrightarrow> a \<in> insert (blocklist z) B \<Longrightarrow> bprev z (bnext z a) = a"
  unfolding zlinks_def by blast

lemma zlinks_inj: "zlinks B z \<Longrightarrow> a \<in> insert (blocklist z) B \<Longrightarrow> b \<in> insert (blocklist z) B \<Longrightarrow>
    bnext z a = bnext z b \<Longrightarrow> a = b"
  using zlinks_prev_next by metis

text \<open>Every member of the circle has a predecessor, so \<open>prev\<close> is inverse to \<open>next\<close>.\<close>

lemma zlinks_pred:
  assumes "zlinks B z" "zlayout B z" "a \<in> insert (blocklist z) B"
  shows "bprev z a \<in> insert (blocklist z) B \<and> bnext z (bprev z a) = a"
proof -
  let ?S = "insert (blocklist z) B"
  have "inj_on (bnext z) ?S"
    using assms(1) by (intro inj_onI) (metis zlinks_prev_next)
  moreover have "bnext z ` ?S \<subseteq> ?S"
    using assms(1,2) zlinks_next_in by blast
  moreover have "finite ?S" using assms(2) by (simp add: zlayout_def)
  ultimately have "bnext z ` ?S = ?S" using endo_inj_surj by blast
  with assms(3) obtain b where "b \<in> ?S" "bnext z b = a" by (metis image_iff)
  with assms(1) show ?thesis using zlinks_prev_next by metis
qed

lemma bnext_greater: "zlinks B z \<Longrightarrow> zlayout B z \<Longrightarrow> a \<in> B \<Longrightarrow> bnext z a \<noteq> blocklist z \<Longrightarrow> a < bnext z a"
  using zlinks_next [of B z a] zlayoutD(6) [of B z a] by auto

lemma bnext_ne_self: "zlinks B z \<Longrightarrow> zlayout B z \<Longrightarrow> a \<in> B \<Longrightarrow> bnext z a \<noteq> a"
  using bnext_greater [of B z a] cap_notin [of B z] by fastforce

section \<open>Merging\<close>

lemma merge_fields:
  assumes "lo \<noteq> hi" "is_i32 (bsize z lo + bsize z hi)" "bnext z hi \<noteq> lo"
  shows "bsize (merge_blocks lo hi z) b = (if b = lo then bsize z lo + bsize z hi else bsize z b)"
    "bnext (merge_blocks lo hi z) b = (if b = lo then bnext z hi else bnext z b)"
    "bprev (merge_blocks lo hi z) b = (if b = bnext z hi then lo else bprev z b)"
    "btag (merge_blocks lo hi z) b = btag z b" "buser (merge_blocks lo hi z) b = buser z b"
    "bid (merge_blocks lo hi z) b = bid z b"
    "rover (merge_blocks lo hi z) = (if rover z = hi then lo else rover z)"
    "zcells (merge_blocks lo hi z) = zcells z"
    "zarch (merge_blocks lo hi z) = zarch z" "mainzone (merge_blocks lo hi z) = mainzone z"
    "zsize (merge_blocks lo hi z) = zsize z"
proof -
  let ?s = "\<lambda>b. b\<lparr>mb_size := bsize z lo + bsize z hi, mb_next := bnext z hi\<rparr>"
  have m: "merge_blocks lo hi z =
    (let z' = upd (bnext z hi) (\<lambda>b. b\<lparr>mb_prev := lo\<rparr>) (upd lo ?s z)
     in if hi = rover z then z'\<lparr>rover := lo\<rparr> else z')"
    using assms(1) by (simp add: merge_blocks_def Let_def i32_id [OF assms(2)] upd_def)
  show "bsize (merge_blocks lo hi z) b = (if b = lo then bsize z lo + bsize z hi else bsize z b)"
    "bnext (merge_blocks lo hi z) b = (if b = lo then bnext z hi else bnext z b)"
    "bprev (merge_blocks lo hi z) b = (if b = bnext z hi then lo else bprev z b)"
    "btag (merge_blocks lo hi z) b = btag z b" "buser (merge_blocks lo hi z) b = buser z b"
    "bid (merge_blocks lo hi z) b = bid z b"
    "rover (merge_blocks lo hi z) = (if rover z = hi then lo else rover z)"
    "zcells (merge_blocks lo hi z) = zcells z"
    "zarch (merge_blocks lo hi z) = zarch z" "mainzone (merge_blocks lo hi z) = mainzone z"
    "zsize (merge_blocks lo hi z) = zsize z"
    using assms(1,3) unfolding m Let_def by simp_all
qed

lemma merge_const:
  "blocklist (merge_blocks lo hi z) = blocklist z" "hdr (merge_blocks lo hi z) = hdr z"
  "zfirst (merge_blocks lo hi z) = zfirst z" "zend (merge_blocks lo hi z) = zend z"
  by (rule zconst_cong; simp add: merge_blocks_def Let_def)+

lemma zlayout_sum_fits:
  assumes "zlayout B z" "lo \<in> B" "hi \<in> B" "hi = lo + bsize z lo"
  shows "is_i32 (bsize z lo + bsize z hi)"
proof -
  have "zfirst z \<le> lo" "hi + bsize z hi \<le> zend z" "0 < bsize z lo" "0 < bsize z hi"
    using assms zlayoutD by blast+
  moreover have "zend z - zfirst z \<le> zsize z"
    by (cases "zarch z") (simp_all add: zend_def zfirst_def)
  moreover have "zsize z \<le> INT_MAX" using assms(1) by (simp add: zlayout_def)
  ultimately show ?thesis using assms(4) by (simp add: is_i32_def INT_MIN_def)
qed

lemma merge_zstruct:
  assumes z: "zstruct B z" and lo: "lo \<in> B" and hi: "hi \<in> B" and adj: "bnext z lo = hi"
    and free: "btag z hi = PU_FREE"
  shows "zstruct (B - {hi}) (merge_blocks lo hi z)"
    and "lo < hi" "hi = lo + bsize z lo" "is_i32 (bsize z lo + bsize z hi)" "bnext z hi \<noteq> lo"
proof -
  have lay: "zlayout B z" and lnk: "zlinks B z" and mrk: "zmarks B z"
    using z by (auto simp: zstruct_def)
  have capn: "blocklist z \<notin> B" by (rule cap_notin [OF lay])
  show hi_eq: "hi = lo + bsize z lo"
    using zlinks_next [OF lnk lo] adj hi capn by metis
  show less: "lo < hi" using zlayoutD(5) [OF lay lo] hi_eq by simp
  show fits: "is_i32 (bsize z lo + bsize z hi)" by (rule zlayout_sum_fits [OF lay lo hi hi_eq])
  show nlo: "bnext z hi \<noteq> lo"
    using bnext_greater [OF lnk lay hi] less capn lo by fastforce
  let ?z = "merge_blocks lo hi z"
  note f = merge_fields [OF less_imp_neq [OF less] fits nlo]
  have first_ne: "hi \<noteq> zfirst z" using zlayoutD(2) [OF lay lo] less by simp
  have "zlayout (B - {hi}) ?z"
    unfolding zlayout_def merge_const f
  proof (intro conjI ballI impI)
    fix a b assume a: "a \<in> B - {hi}" and b: "b \<in> B - {hi}" and "a < b"
    show "a + (if a = lo then bsize z lo + bsize z hi else bsize z a) \<le> b"
    proof (cases "a = lo")
      case True
      then have "lo + bsize z lo \<le> b" using zlayout_no_overlap [OF lay, of a b] a b \<open>a < b\<close> by simp
      then have "hi \<le> b" using hi_eq by linarith
      with b have "hi < b" by simp
      then have "hi + bsize z hi \<le> b" using zlayout_no_overlap [OF lay hi, of b] b by simp
      with True hi_eq show ?thesis by simp
    next
      case False
      with zlayout_no_overlap [OF lay, of a b] a b \<open>a < b\<close> show ?thesis by simp
    qed
  next
    fix a assume a: "a \<in> B - {hi}"
    show "zfirst z \<le> a" using a zlayoutD(2) [OF lay] by simp
    show "hdr z \<le> (if a = lo then bsize z lo + bsize z hi else bsize z a)"
      using a zlayoutD(3) [OF lay, of a] zlayoutD(5) [OF lay hi] by (cases "a = lo") simp_all
    show "a + (if a = lo then bsize z lo + bsize z hi else bsize z a) \<le> zend z"
      using a zlayoutD(4) [OF lay, of a] zlayoutD(4) [OF lay hi] hi_eq by (cases "a = lo") simp_all
  qed (use lay first_ne in \<open>simp_all add: zlayout_def\<close>)
  moreover have "zlinks (B - {hi}) ?z"
    unfolding zlinks_def merge_const f
  proof (intro conjI ballI)
    fix a assume a: "a \<in> B - {hi}"
    show "(a + (if a = lo then bsize z lo + bsize z hi else bsize z a) = zend z \<and>
           (if a = lo then bnext z hi else bnext z a) = blocklist z) \<or>
          (a + (if a = lo then bsize z lo + bsize z hi else bsize z a) \<in> B - {hi} \<and>
           (if a = lo then bnext z hi else bnext z a) = a + (if a = lo then bsize z lo + bsize z hi else bsize z a))"
    proof (cases "a = lo")
      case True
      have e: "lo + (bsize z lo + bsize z hi) = hi + bsize z hi" using hi_eq by simp
      have "bnext z hi \<noteq> hi" by (rule bnext_ne_self [OF lnk lay hi])
      then show ?thesis using zlinks_next [OF lnk hi] unfolding True if_P [OF refl] e by (metis Diff_iff singletonD)
    next
      case False
      have "bnext z a \<noteq> hi"
        using zlinks_inj [OF lnk, of a lo] a lo adj False by (metis DiffD1 insertI2)
      then show ?thesis using zlinks_next [OF lnk, of a] a unfolding if_not_P [OF False]
        by (metis Diff_iff singletonD)
    qed
  next
    show "(if blocklist z = lo then bnext z hi else bnext z (blocklist z)) = zfirst z"
      using capn lo lnk by (auto simp: zlinks_def)
  next
    fix a assume a: "a \<in> insert (blocklist z) (B - {hi})"
    show "(if (if a = lo then bnext z hi else bnext z a) = bnext z hi then lo
           else bprev z (if a = lo then bnext z hi else bnext z a)) = a"
    proof (cases "a = lo")
      case False
      have "bnext z a \<noteq> bnext z hi"
        using zlinks_inj [OF lnk, of a hi] a hi capn by blast
      then show ?thesis using zlinks_prev_next [OF lnk, of a] a unfolding if_not_P [OF False] by auto
    qed simp
  qed
  moreover have "zmarks (B - {hi}) ?z"
    unfolding zmarks_def merge_const f
  proof (intro conjI ballI impI)
    show "(if rover z = hi then lo else rover z) \<in> insert (blocklist z) (B - {hi})"
      using mrk lo less by (auto simp: zmarks_def)
  qed (use mrk in \<open>auto simp: zmarks_def\<close>)
  ultimately show "zstruct (B - {hi}) ?z" by (simp add: zstruct_def)
qed

section \<open>Coalescing\<close>

text \<open>
  What a merge does to the rest of the zone: headers disappear only into the block
  \<open>m\<close>, the other blocks keep size, tag, owner and identifier.
\<close>

definition absorbs :: "int set \<Rightarrow> zone \<Rightarrow> int set \<Rightarrow> zone \<Rightarrow> int \<Rightarrow> bool" where
  "absorbs B z B' z' m \<longleftrightarrow>
     zstruct B' z' \<and> B' \<subseteq> B \<and> m \<in> B' \<and>
     (\<forall>b\<in>B - B'. btag z b = PU_FREE \<and> m \<le> b \<and> b + bsize z b \<le> m + bsize z' m) \<and>
     (\<forall>b\<in>B'. bsize z b \<le> bsize z' b \<and> (b \<noteq> m \<longrightarrow> bsize z' b = bsize z b)) \<and>
     (\<forall>b. btag z' b = btag z b \<and> buser z' b = buser z b \<and> bid z' b = bid z b) \<and>
     bprev z' m = bprev z m \<and> zcells z' = zcells z \<and>
     zarch z' = zarch z \<and> mainzone z' = mainzone z \<and> zsize z' = zsize z"

lemma absorbsD:
  assumes "absorbs B z B' z' m"
  shows "zstruct B' z'" "B' \<subseteq> B" "m \<in> B'"
    "btag z' b = btag z b" "buser z' b = buser z b" "bid z' b = bid z b"
    "bprev z' m = bprev z m" "zcells z' = zcells z"
    "zarch z' = zarch z" "mainzone z' = mainzone z" "zsize z' = zsize z"
  using assms by (simp_all add: absorbs_def)

lemma absorbs_gone: "absorbs B z B' z' m \<Longrightarrow> b \<in> B \<Longrightarrow> b \<notin> B' \<Longrightarrow>
    btag z b = PU_FREE \<and> m \<le> b \<and> b + bsize z b \<le> m + bsize z' m"
  by (simp add: absorbs_def)

lemma absorbs_size: "absorbs B z B' z' m \<Longrightarrow> b \<in> B' \<Longrightarrow> bsize z b \<le> bsize z' b"
  by (simp add: absorbs_def)

lemma absorbs_size_eq: "absorbs B z B' z' m \<Longrightarrow> b \<in> B' \<Longrightarrow> b \<noteq> m \<Longrightarrow> bsize z' b = bsize z b"
  by (simp add: absorbs_def)

lemma absorbs_refl: "zstruct B z \<Longrightarrow> m \<in> B \<Longrightarrow> absorbs B z B z m"
  by (simp add: absorbs_def)

lemma absorbs_trans:
  assumes 1: "absorbs B z B' z' m" and 2: "absorbs B' z' B'' z'' m"
  shows "absorbs B z B'' z'' m"
proof -
  have "btag z b = PU_FREE \<and> m \<le> b \<and> b + bsize z b \<le> m + bsize z'' m" if b: "b \<in> B - B''" for b
  proof (cases "b \<in> B'")
    case True
    moreover have "b \<noteq> m" using absorbsD(3) [OF 2] b by blast
    ultimately show ?thesis
      using absorbs_gone [OF 2, of b] absorbs_size_eq [OF 1, of b] absorbsD(4) [OF 1, of b] b by simp
  next
    case False
    with absorbs_gone [OF 1, of b] absorbs_size [OF 2, of m] absorbsD(3) [OF 2] b show ?thesis
      by fastforce
  qed
  moreover have "bsize z b \<le> bsize z'' b \<and> (b \<noteq> m \<longrightarrow> bsize z'' b = bsize z b)" if "b \<in> B''" for b
    using that absorbs_size [OF 1, of b] absorbs_size [OF 2, of b] absorbs_size_eq [OF 1, of b]
      absorbs_size_eq [OF 2, of b] absorbsD(2) [OF 2] by fastforce
  moreover have "B'' \<subseteq> B" using absorbsD(2) [OF 1] absorbsD(2) [OF 2] by blast
  ultimately show ?thesis
    using absorbsD [OF 1] absorbsD [OF 2] unfolding absorbs_def by simp
qed

lemma merge_absorbs:
  assumes z: "zstruct B z" and lo: "lo \<in> B" and hi: "hi \<in> B" and adj: "bnext z lo = hi"
    and free: "btag z hi = PU_FREE"
  shows "absorbs B z (B - {hi}) (merge_blocks lo hi z) lo"
proof -
  note m = merge_zstruct [OF assms]
  note f = merge_fields [OF less_imp_neq [OF m(2)] m(4,5)]
  have lay: "zlayout B z" using z by (simp add: zstruct_def)
  have sz: "0 < bsize z lo" "0 < bsize z hi" using zlayoutD(5) [OF lay] lo hi by blast+
  have "hi + bsize z hi = lo + (bsize z lo + bsize z hi)" using m(3) by simp
  then show ?thesis
    using m(1,2) lo free sz m(5) [symmetric] unfolding absorbs_def f by auto
qed

lemma merge_links:
  assumes "zstruct B z" "lo \<in> B" "hi \<in> B" "bnext z lo = hi" "btag z hi = PU_FREE"
  shows "bnext (merge_blocks lo hi z) b = (if b = lo then bnext z hi else bnext z b)"
  using merge_zstruct [OF assms] merge_fields(2) less_imp_neq by metis

section \<open>Freeing a block\<close>

definition used :: "int set \<Rightarrow> zone \<Rightarrow> int set" where
  "used B z = {b \<in> B. btag z b \<noteq> PU_FREE}"

text \<open>The state after the header has been cleared and before the merges.\<close>

definition cleared :: "int \<Rightarrow> zone \<Rightarrow> zone" where
  "cleared a z = mark_free a (clear_user a z)"

lemma cleared_fields:
  "bsize (cleared a z) b = bsize z b" "bnext (cleared a z) b = bnext z b"
  "bprev (cleared a z) b = bprev z b"
  "btag (cleared a z) b = (if b = a then PU_FREE else btag z b)"
  "buser (cleared a z) b = (if b = a then None else buser z b)"
  "bid (cleared a z) b = (if b = a then 0 else bid z b)"
  "rover (cleared a z) = rover z" "zarch (cleared a z) = zarch z"
  "mainzone (cleared a z) = mainzone z" "zsize (cleared a z) = zsize z"
  "zcells (cleared a z) =
     (case buser z a of Some u \<Rightarrow> if btag z a \<noteq> PU_FREE then (zcells z)(u := 0) else zcells z
      | None \<Rightarrow> zcells z)"
  by (simp_all add: cleared_def mark_free_def clear_user_def split: option.split)

lemma cleared_const:
  "blocklist (cleared a z) = blocklist z" "hdr (cleared a z) = hdr z"
  "zfirst (cleared a z) = zfirst z" "zend (cleared a z) = zend z"
  by (rule zconst_cong; simp add: cleared_fields)+

lemma cleared_zstruct:
  assumes "zstruct B z" "a \<in> B"
  shows "zstruct B (cleared a z)"
proof -
  have capn: "blocklist z \<noteq> a" using assms cap_notin by (auto simp: zstruct_def)
  have "zlayout B (cleared a z)" "zlinks B (cleared a z)"
    using assms unfolding zstruct_def zlayout_def zlinks_def cleared_fields cleared_const by blast+
  moreover have "zmarks B (cleared a z)"
    using assms capn unfolding zstruct_def zmarks_def cleared_fields cleared_const
    by (auto simp: PU_defs)
  ultimately show ?thesis by (simp add: zstruct_def)
qed

definition coalesce_back :: "int \<Rightarrow> zone \<Rightarrow> zone \<times> int" where
  "coalesce_back a z = (if btag z (bprev z a) = PU_FREE then (merge_blocks (bprev z a) a z, bprev z a)
                        else (z, a))"

definition coalesce_fwd :: "int \<Rightarrow> zone \<Rightarrow> zone" where
  "coalesce_fwd m z = (if btag z (bnext z m) = PU_FREE then merge_blocks m (bnext z m) z else z)"

lemma Z_Free_unfold:
  assumes "bid z a = ZONEID"
  shows "Z_Free (a + hdr z) z =
    (let (z2, m) = coalesce_back a (cleared a z) in Inr (coalesce_fwd m z2))"
  using assms unfolding Z_Free_def coalesce_back_def coalesce_fwd_def cleared_def Let_def
  by simp

lemma free_in: "zstruct B z \<Longrightarrow> b \<in> insert (blocklist z) B \<Longrightarrow> btag z b = PU_FREE \<Longrightarrow> b \<in> B"
  by (auto simp: zstruct_def zmarks_def)

lemma zstruct_next_in: "zstruct B z \<Longrightarrow> a \<in> insert (blocklist z) B \<Longrightarrow>
    bnext z a \<in> insert (blocklist z) B"
  using zlinks_next_in unfolding zstruct_def by metis

lemma zstruct_pred: "zstruct B z \<Longrightarrow> a \<in> insert (blocklist z) B \<Longrightarrow>
    bprev z a \<in> insert (blocklist z) B \<and> bnext z (bprev z a) = a"
  using zlinks_pred unfolding zstruct_def by metis

lemma coalesce_back_ok:
  assumes z: "zstruct B z" and a: "a \<in> B" "btag z a = PU_FREE"
    and adj: "\<And>b. b \<in> B \<Longrightarrow> b \<noteq> a \<Longrightarrow> bnext z b \<noteq> a \<Longrightarrow> btag z b = PU_FREE \<Longrightarrow> btag z (bnext z b) \<noteq> PU_FREE"
    and r: "coalesce_back a z = (z', m)"
  shows "\<exists>B'. absorbs B z B' z' m \<and> m \<le> a \<and> a + bsize z a \<le> m + bsize z' m \<and> bnext z' m = bnext z a \<and>
           btag z' m = PU_FREE \<and> m = (if btag z (bprev z a) = PU_FREE then bprev z a else a) \<and>
           B - {a} \<subseteq> B' \<and> (\<forall>b. b \<noteq> m \<longrightarrow> bnext z' b = bnext z b) \<and>
           (\<forall>b\<in>B' - {m}. btag z' b = PU_FREE \<longrightarrow> btag z' (bnext z' b) \<noteq> PU_FREE)"
proof (cases "btag z (bprev z a) = PU_FREE")
  case False
  then have e: "z' = z" "m = a" using r by (auto simp: coalesce_back_def)
  have "btag z (bnext z b) \<noteq> PU_FREE" if b: "b \<in> B - {a}" "btag z b = PU_FREE" for b
  proof -
    have "bprev z (bnext z b) = b" using z b(1) zlinks_prev_next [of B z b] by (simp add: zstruct_def)
    with adj [of b] False b show ?thesis by (metis Diff_iff singletonI)
  qed
  then show ?thesis
    unfolding e using False absorbs_refl [OF z a(1)] a
    by (intro exI [of _ B] conjI) (simp_all add: Diff_subset)
next
  case True
  let ?p = "bprev z a"
  have e: "z' = merge_blocks ?p a z" "m = ?p" using r True by (auto simp: coalesce_back_def)
  have p: "?p \<in> B" "bnext z ?p = a" using zstruct_pred [OF z, of a] a(1) free_in [OF z _ True] by auto
  note ab = merge_absorbs [OF z p(1) a(1) p(2) a(2)]
  note nx = merge_links [OF z p(1) a(1) p(2) a(2)]
  have "btag z (bnext z b) \<noteq> PU_FREE" if b: "b \<in> B - {a} - {?p}" "btag z b = PU_FREE" for b
  proof -
    have "bnext z b \<noteq> a" using p z b(1) zlinks_inj [of B z b ?p] by (auto simp: zstruct_def)
    with adj [of b] b show ?thesis by simp
  qed
  moreover have "?p \<le> a" "a + bsize z a \<le> ?p + bsize z' ?p"
    using absorbs_gone [OF ab, of a] a unfolding e by simp_all
  ultimately show ?thesis
    using True p(1) ab unfolding e absorbsD(4) [OF ab] nx
    by (intro exI [of _ "B - {a}"] conjI) simp_all
qed

lemma coalesce_fwd_ok:
  assumes z: "zstruct B z" and m: "m \<in> B" "btag z m = PU_FREE"
    and adj: "\<forall>b\<in>B - {m}. btag z b = PU_FREE \<longrightarrow> btag z (bnext z b) \<noteq> PU_FREE"
  shows "\<exists>B'. absorbs B z B' (coalesce_fwd m z) m \<and> no_adjacent_free B' (coalesce_fwd m z) \<and>
           B - {bnext z m} \<subseteq> B' \<and> bnext (coalesce_fwd m z) m \<in> insert (blocklist z) B' \<and>
           (\<forall>b. b \<noteq> m \<longrightarrow> bnext (coalesce_fwd m z) b = bnext z b) \<and>
           bnext (coalesce_fwd m z) m = (if btag z (bnext z m) = PU_FREE then bnext z (bnext z m) else bnext z m)"
proof (cases "btag z (bnext z m) = PU_FREE")
  case False
  then have e: "coalesce_fwd m z = z" by (simp add: coalesce_fwd_def)
  have "no_adjacent_free B z"
    using adj False by (auto simp: no_adjacent_free_def)
  with False zstruct_next_in [OF z, of m] m absorbs_refl [OF z m(1)] show ?thesis
    unfolding e by (intro exI [of _ B] conjI) (simp_all add: Diff_subset)
next
  case True
  let ?h = "bnext z m"
  have e: "coalesce_fwd m z = merge_blocks m ?h z" using True by (simp add: coalesce_fwd_def)
  have h: "?h \<in> B" using zstruct_next_in [OF z, of m] m(1) free_in [OF z _ True] by auto
  note ab = merge_absorbs [OF z m(1) h refl True]
  note nx = merge_links [OF z m(1) h refl True]
  have hm: "?h \<noteq> m" using bnext_ne_self [of B z m] m z by (simp add: zstruct_def)
  have nh: "bnext z ?h \<noteq> ?h" using bnext_ne_self [of B z ?h] h z by (simp add: zstruct_def)
  have "no_adjacent_free (B - {?h}) (merge_blocks m ?h z)"
    using adj h True hm unfolding no_adjacent_free_def absorbsD(4) [OF ab] nx by simp
  moreover have "bnext z ?h \<in> insert (blocklist z) (B - {?h})"
    using zstruct_next_in [OF z, of ?h] h nh by auto
  ultimately show ?thesis
    using True ab unfolding e nx by (intro exI [of _ "B - {?h}"] conjI) simp_all
qed

text \<open>The effect of freeing the block \<open>a\<close>: \<open>m\<close> is the free block it ends up in.\<close>

definition freed :: "int \<Rightarrow> int set \<Rightarrow> zone \<Rightarrow> int set \<Rightarrow> zone \<Rightarrow> int \<Rightarrow> bool" where
  "freed a B z B' z' m \<longleftrightarrow>
     zone_inv B' z' \<and> B' \<subseteq> B \<and> m \<in> B' \<and> btag z' m = PU_FREE \<and>
     (\<forall>b\<in>insert a (B - B'). (b = a \<or> btag z b = PU_FREE) \<and> m \<le> b \<and> b + bsize z b \<le> m + bsize z' m) \<and>
     (\<forall>b\<in>B'. bsize z b \<le> bsize z' b \<and> (b \<noteq> m \<longrightarrow> bsize z' b = bsize z b)) \<and>
     (\<forall>b. b \<noteq> a \<longrightarrow> btag z' b = btag z b \<and> buser z' b = buser z b \<and> bid z' b = bid z b) \<and>
     btag z' a = PU_FREE \<and> bid z' a = 0 \<and> bprev z' m = (if btag z (bprev z a) = PU_FREE then bprev z (bprev z a) else bprev z a) \<and>
     zcells z' = (case buser z a of Some u \<Rightarrow> (zcells z)(u := 0) | None \<Rightarrow> zcells z) \<and>
     zarch z' = zarch z \<and> mainzone z' = mainzone z \<and> zsize z' = zsize z \<and>
     (bnext z' m = bnext z a \<or>
      btag z' (bnext z a) = PU_FREE \<and> bnext z a \<noteq> blocklist z \<and> bnext z' (bnext z a) = bnext z' m)"

lemma freedD:
  assumes "freed a B z B' z' m"
  shows "zone_inv B' z'" "B' \<subseteq> B" "m \<in> B'" "btag z' m = PU_FREE" "btag z' a = PU_FREE"
    "bprev z' m = (if btag z (bprev z a) = PU_FREE then bprev z (bprev z a) else bprev z a)"
    "zcells z' = (case buser z a of Some u \<Rightarrow> (zcells z)(u := 0) | None \<Rightarrow> zcells z)"
    "zarch z' = zarch z" "mainzone z' = mainzone z" "zsize z' = zsize z"
    "bnext z' m = bnext z a \<or>
      btag z' (bnext z a) = PU_FREE \<and> bnext z a \<noteq> blocklist z \<and> bnext z' (bnext z a) = bnext z' m"
    "m \<le> a" "a + bsize z a \<le> m + bsize z' m"
    "bid z' a = 0"
  using assms by (simp_all add: freed_def)

lemma freed_const:
  assumes "freed a B z B' z' m"
  shows "blocklist z' = blocklist z" "hdr z' = hdr z" "zfirst z' = zfirst z" "zend z' = zend z"
  by (rule zconst_cong; rule freedD [OF assms])+

lemma freed_other: "freed a B z B' z' m \<Longrightarrow> b \<noteq> a \<Longrightarrow> btag z' b = btag z b \<and> buser z' b = buser z b \<and> bid z' b = bid z b"
  by (simp add: freed_def)

lemma freed_gone: "freed a B z B' z' m \<Longrightarrow> b \<in> B \<Longrightarrow> b \<notin> B' \<Longrightarrow>
    (b = a \<or> btag z b = PU_FREE) \<and> m \<le> b \<and> b + bsize z b \<le> m + bsize z' m"
  by (simp add: freed_def)

lemma freed_size: "freed a B z B' z' m \<Longrightarrow> b \<in> B' \<Longrightarrow> b \<noteq> m \<Longrightarrow> bsize z' b = bsize z b"
  by (simp add: freed_def)

lemma freed_size_le: "freed a B z B' z' m \<Longrightarrow> b \<in> B' \<Longrightarrow> bsize z b \<le> bsize z' b"
  by (simp add: freed_def)

lemma freed_used:
  assumes "freed a B z B' z' m"
  shows "used B' z' = used B z - {a}"
proof (rule set_eqI)
  fix b
  have "b \<in> B' \<longleftrightarrow> b \<in> B" if "b \<noteq> a" "btag z b \<noteq> PU_FREE"
    using that freed_gone [OF assms, of b] freedD(2) [OF assms] by blast
  then show "b \<in> used B' z' \<longleftrightarrow> b \<in> used B z - {a}"
    using freed_other [OF assms, of b] freedD(5) [OF assms] by (cases "b = a") (auto simp: used_def)
qed

lemma Z_Free_freed:
  assumes z: "zone_inv B z" and a: "a \<in> B" "btag z a \<noteq> PU_FREE"
  shows "\<exists>z' B' m. Z_Free (a + hdr z) z = Inr z' \<and> freed a B z B' z' m"
proof -
  have st: "zstruct B z" and noadj: "no_adjacent_free B z" using z by (auto simp: zone_inv_def)
  have idz: "bid z a = ZONEID" using st a by (simp add: zstruct_def zmarks_def)
  let ?z1 = "cleared a z"
  have st1: "zstruct B ?z1" by (rule cleared_zstruct [OF st a(1)])
  obtain z2 m where b: "coalesce_back a ?z1 = (z2, m)" by fastforce
  have pa: "bprev z a \<noteq> a"
    using zstruct_pred [OF st, of a] bnext_ne_self [of B z a] a(1) st by (auto simp: zstruct_def)
  have "btag ?z1 (bnext ?z1 b) \<noteq> PU_FREE"
    if "b \<in> B" "b \<noteq> a" "bnext ?z1 b \<noteq> a" "btag ?z1 b = PU_FREE" for b
    using that noadj unfolding cleared_fields by (simp add: no_adjacent_free_def)
  from coalesce_back_ok [OF st1 a(1) _ this b]
  obtain B1 where B1: "absorbs B ?z1 B1 z2 m" and ma: "m \<le> a" "a + bsize z a \<le> m + bsize z2 m"
    and n2: "bnext z2 m = bnext z a" and fm: "btag z2 m = PU_FREE"
    and me: "m = (if btag z (bprev z a) = PU_FREE then bprev z a else a)"
    and sub1: "B - {a} \<subseteq> B1" and nx1: "\<forall>b. b \<noteq> m \<longrightarrow> bnext z2 b = bnext z b"
    and adj2: "\<forall>b\<in>B1 - {m}. btag z2 b = PU_FREE \<longrightarrow> btag z2 (bnext z2 b) \<noteq> PU_FREE"
    unfolding cleared_fields using pa by auto
  note b1 = absorbsD [OF B1]
  let ?z3 = "coalesce_fwd m z2"
  from coalesce_fwd_ok [OF b1(1,3) fm adj2]
  obtain B3 where B3: "absorbs B1 z2 B3 ?z3 m" and adj3: "no_adjacent_free B3 ?z3"
    and nx3: "\<forall>b. b \<noteq> m \<longrightarrow> bnext ?z3 b = bnext z2 b"
    and nm: "bnext ?z3 m = (if btag z2 (bnext z2 m) = PU_FREE then bnext z2 (bnext z2 m) else bnext z2 m)"
    by blast
  note ab = absorbs_trans [OF B1 B3]
  note f = absorbsD [OF ab, unfolded cleared_fields]
  have ub: "blocklist z2 = blocklist z" by (rule zconst_cong) (simp_all add: b1 cleared_fields)
  have nmm: "bnext z2 m \<noteq> m" using bnext_ne_self [of B1 z2 m] b1(1,3) by (simp add: zstruct_def)
  have "btag ?z3 (bnext z a) = PU_FREE \<and> bnext z a \<noteq> blocklist z \<and> bnext ?z3 (bnext z a) = bnext ?z3 m"
    if "bnext ?z3 m \<noteq> bnext z a"
  proof -
    have t: "btag z2 (bnext z a) = PU_FREE" using that nm n2 by (simp split: if_splits)
    moreover have "bnext z a \<noteq> blocklist z"
      using t b1(1) ub by (auto simp: zstruct_def zmarks_def)
    ultimately show ?thesis using nm n2 nx3 nmm absorbsD(4) [OF B3] by simp
  qed
  moreover have "bprev ?z3 m = (if btag z (bprev z a) = PU_FREE then bprev z (bprev z a) else bprev z a)"
    using f(7) me by (cases "btag z (bprev z a) = PU_FREE") simp_all
  moreover have "m \<le> b \<and> b + bsize z b \<le> m + bsize ?z3 m \<and> (b = a \<or> btag z b = PU_FREE)"
    if "b \<in> insert a (B - B3)" for b
    using that absorbs_gone [OF ab, of b, unfolded cleared_fields] ma absorbs_size [OF B3 f(3)] a(1)
    by (cases "b = a") (auto split: if_splits)
  ultimately have "freed a B z B3 ?z3 m"
    using f(1-3) fm absorbsD(4) [OF B3] adj3 absorbs_size [OF ab, unfolded cleared_fields]
      absorbs_size_eq [OF ab, unfolded cleared_fields] a(2)
    unfolding freed_def zone_inv_def f by (auto split: option.splits)
  moreover have "Z_Free (a + hdr z) z = Inr ?z3"
    unfolding Z_Free_unfold [OF idz] b Let_def by simp
  ultimately show ?thesis by blast
qed

end
