(* ===== verification/Zone_Alloc.thy ===== *)
theory Zone_Alloc
  imports Zone_Inv
begin

text \<open>
  \<open>Z_Malloc\<close>: the scan around the circle ends, purges only purgable blocks, finds a
  free block of the wanted size whenever there is one, and the block that is handed
  out keeps the invariant.
\<close>

section \<open>The way still to go\<close>

text \<open>
  The circle in address order: the cap has the smallest address, and the end of the
  region is the cap again. \<open>ahead\<close> counts the bytes from a position on to the block
  where the scan started.
\<close>

definition ahead :: "int \<Rightarrow> int \<Rightarrow> zone \<Rightarrow> int" where
  "ahead start a z = (if a \<le> start then start - a else start - a + (zend z - blocklist z))"

lemma member_bounds:
  assumes "zstruct B z" "a \<in> insert (blocklist z) B"
  shows "blocklist z \<le> a" "a < zend z"
proof -
  have lay: "zlayout B z" using assms(1) by (simp add: zstruct_def)
  show "blocklist z \<le> a" using assms(2) zlayoutD(1) [OF lay, of a] by auto
  have "zfirst z \<in> B" using lay by (simp add: zlayout_def)
  then have "blocklist z < zend z"
    using zlayoutD(1,4,6) [OF lay, of "zfirst z"] by linarith
  then show "a < zend z" using assms(2) zlayoutD(4,6) [OF lay, of a] by fastforce
qed

lemma ahead_nonneg: "zstruct B z \<Longrightarrow> a \<in> insert (blocklist z) B \<Longrightarrow> start \<in> insert (blocklist z) B \<Longrightarrow>
    0 \<le> ahead start a z \<and> (ahead start a z = 0 \<longrightarrow> a = start)"
  using member_bounds [of B z a] member_bounds [of B z start] by (simp add: ahead_def)

lemma outside_block:
  assumes "zstruct B z" "b \<in> B" "s \<in> insert (blocklist z) B" "s \<noteq> b"
  shows "s < b \<or> b + bsize z b \<le> s"
proof -
  have lay: "zlayout B z" using assms(1) by (simp add: zstruct_def)
  show ?thesis
    using assms(2-4) zlayoutD(1) [OF lay assms(2)] zlayout_no_overlap [OF lay, of b s] by fastforce
qed

lemma ahead_next:
  assumes z: "zstruct B z" and b: "b \<in> B" and s: "s \<in> insert (blocklist z) B" "s \<noteq> b"
    and c: "b \<le> c" "c < b + bsize z b"
  shows "ahead s (bnext z b) z < ahead s c z"
proof -
  have e: "bnext z b = blocklist z \<and> b + bsize z b = zend z \<or> bnext z b \<in> B \<and> bnext z b = b + bsize z b"
    using zlinks_next [of B z b] z b by (simp add: zstruct_def)
  have o: "s < b \<or> b + bsize z b \<le> s" by (rule outside_block [OF z b s])
  show ?thesis
    using e
  proof
    assume n: "bnext z b = blocklist z \<and> b + bsize z b = zend z"
    then have "s < c" using o member_bounds(2) [OF z s(1)] c(1) by linarith
    with n c member_bounds(1) [OF z s(1)] show ?thesis by (simp add: ahead_def)
  next
    assume n: "bnext z b \<in> B \<and> bnext z b = b + bsize z b"
    with o c show ?thesis by (auto simp: ahead_def)
  qed
qed

lemma ahead_cap:
  assumes z: "zstruct B z" and s: "s \<in> B"
  shows "ahead s (bnext z (blocklist z)) z < ahead s (blocklist z) z"
proof -
  have "bnext z (blocklist z) = zfirst z" using z by (simp add: zstruct_def zlinks_def)
  moreover have "zfirst z \<le> s" using z s by (simp add: zstruct_def zlayout_def)
  ultimately show ?thesis using blocklist_less [of z] by (simp add: ahead_def)
qed

lemma ahead_step:
  assumes "zstruct B z" "a \<in> insert (blocklist z) B" "s \<in> insert (blocklist z) B" "s \<noteq> a"
  shows "ahead s (bnext z a) z < ahead s a z"
proof (cases "a = blocklist z")
  case True with assms ahead_cap show ?thesis by auto
next
  case False
  with assms have "a \<in> B" by simp
  moreover have "a < a + bsize z a" using zlayoutD(6) [of B z a] assms(1) \<open>a \<in> B\<close> by (simp add: zstruct_def)
  ultimately show ?thesis using ahead_next [OF assms(1) _ assms(3,4), of a] by simp
qed

text \<open>No member lies between a block and the next one.\<close>

lemma ahead_between:
  assumes z: "zstruct B z" and b: "b \<in> B" and s: "s \<in> insert (blocklist z) B" "s \<noteq> b"
    and c: "b \<le> c" "c < b + bsize z b"
    and f: "f \<in> insert (blocklist z) B" "f \<noteq> b" and less: "ahead s f z \<le> ahead s c z"
  shows "ahead s f z \<le> ahead s (bnext z b) z"
proof -
  have e: "bnext z b = blocklist z \<and> b + bsize z b = zend z \<or> bnext z b \<in> B \<and> bnext z b = b + bsize z b"
    using zlinks_next [of B z b] z b by (simp add: zstruct_def)
  have o: "s < b \<or> b + bsize z b \<le> s" by (rule outside_block [OF z b s])
  have o2: "f < b \<or> b + bsize z b \<le> f" by (rule outside_block [OF z b f])
  note bd = member_bounds [OF z s(1)] member_bounds [OF z f(1)]
  show ?thesis
    using e
  proof
    assume n: "bnext z b = blocklist z \<and> b + bsize z b = zend z"
    then have "s < c" "f < b" using o o2 bd c(1) by linarith+
    with n bd c less show ?thesis by (auto simp: ahead_def split: if_splits)
  next
    assume n: "bnext z b \<in> B \<and> bnext z b = b + bsize z b"
    have "blocklist z < b" "b + bsize z b \<le> zend z"
      using zlayoutD(1,4) [of B z b] z b by (simp_all add: zstruct_def)
    with n o o2 c bd less show ?thesis by (auto simp: ahead_def split: if_splits)
  qed
qed

lemma ahead_between_cap:
  assumes z: "zstruct B z" and s: "s \<in> B" and f: "f \<in> B"
    and less: "ahead s f z \<le> ahead s (blocklist z) z"
  shows "ahead s f z \<le> ahead s (bnext z (blocklist z)) z"
proof -
  have n: "bnext z (blocklist z) = zfirst z" using z by (simp add: zstruct_def zlinks_def)
  have "zfirst z \<le> s" "zfirst z \<le> f" using z s f by (auto simp: zstruct_def zlayout_def)
  with n less blocklist_less [of z] member_bounds [OF z, of f] member_bounds [OF z, of s] s f show ?thesis
    by (auto simp: ahead_def split: if_splits)
qed

section \<open>The scan\<close>

text \<open>
  What freeing some of the blocks does: the others keep their headers, and the pointers
  of the owners are cleared. The scan of \<open>Z_Malloc\<close> frees purgable blocks only.
\<close>

definition released :: "int set \<Rightarrow> zone \<Rightarrow> int set \<Rightarrow> zone \<Rightarrow> bool" where
  "released B z B' z' \<longleftrightarrow>
     B' \<subseteq> B \<and> used B' z' \<subseteq> used B z \<and>
     (\<forall>b\<in>used B' z'. bsize z' b = bsize z b \<and> btag z' b = btag z b \<and> buser z' b = buser z b) \<and>
     (\<forall>u. zcells z' u = (if \<exists>b\<in>used B z - used B' z'. buser z b = Some u then 0 else zcells z u)) \<and>
     zarch z' = zarch z \<and> mainzone z' = mainzone z \<and> zsize z' = zsize z"

definition purged :: "int set \<Rightarrow> zone \<Rightarrow> int set \<Rightarrow> zone \<Rightarrow> bool" where
  "purged B z B' z' \<longleftrightarrow>
     released B z B' z' \<and> (\<forall>b\<in>used B z - used B' z'. PU_PURGELEVEL \<le> btag z b)"

lemma released_refl: "released B z B z"
  by (simp add: released_def)

lemma released_header: "released B z B' z' \<Longrightarrow> b \<in> used B' z' \<Longrightarrow>
    bsize z' b = bsize z b \<and> btag z' b = btag z b \<and> buser z' b = buser z b"
  by (simp add: released_def)

lemma released_trans:
  assumes 1: "released B z B' z'" and 2: "released B' z' B'' z''"
  shows "released B z B'' z''"
proof -
  have sub: "used B'' z'' \<subseteq> used B' z'" "used B' z' \<subseteq> used B z"
    using 1 2 by (simp_all add: released_def)
  have un: "used B z - used B'' z'' = (used B z - used B' z') \<union> (used B' z' - used B'' z'')"
    using sub by blast
  have "zcells z'' u = (if \<exists>b\<in>used B z - used B'' z''. buser z b = Some u then 0 else zcells z u)" for u
  proof -
    have "(\<exists>b\<in>used B' z' - used B'' z''. buser z' b = Some u) \<longleftrightarrow>
          (\<exists>b\<in>used B' z' - used B'' z''. buser z b = Some u)"
      using released_header [OF 1] by (metis DiffD1)
    then show ?thesis using 1 2 unfolding un bex_Un by (simp add: released_def)
  qed
  moreover have "\<forall>b\<in>used B'' z''. bsize z'' b = bsize z b \<and> btag z'' b = btag z b \<and> buser z'' b = buser z b"
    using released_header [OF 1] released_header [OF 2] sub by (metis subsetD)
  moreover have "B'' \<subseteq> B" using 1 2 unfolding released_def by blast
  ultimately show ?thesis using 1 2 sub unfolding released_def by simp
qed

lemma freed_released:
  assumes z: "zone_inv B z" and a: "a \<in> B" "btag z a \<noteq> PU_FREE" and f: "freed a B z B' z' m"
  shows "released B z B' z'"
proof -
  have au: "a \<in> used B z" using a by (simp add: used_def)
  have d: "used B z - used B' z' = {a}" using freed_used [OF f] au by blast
  have s: "bsize z' b = bsize z b \<and> btag z' b = btag z b \<and> buser z' b = buser z b" if b: "b \<in> used B' z'" for b
  proof -
    have "b \<noteq> a" "b \<noteq> m" "b \<in> B'" using b freed_used [OF f] freedD(4) [OF f] by (auto simp: used_def)
    with freed_other [OF f, of b] freed_size [OF f, of b] show ?thesis by simp
  qed
  then show ?thesis
    using d freed_used [OF f] freedD(2,7-10) [OF f]
    unfolding released_def by (cases "buser z a") auto
qed

lemma purged_refl: "purged B z B z"
  by (simp add: purged_def released_refl)

lemma purged_trans:
  assumes 1: "purged B z B' z'" and 2: "purged B' z' B'' z''"
  shows "purged B z B'' z''"
proof -
  have r: "released B z B' z'" "released B' z' B'' z''" using 1 2 by (simp_all add: purged_def)
  have "PU_PURGELEVEL \<le> btag z b" if "b \<in> used B z - used B'' z''" for b
  proof (cases "b \<in> used B' z'")
    case True with that 2 have "PU_PURGELEVEL \<le> btag z' b" by (auto simp: purged_def)
    with released_header [OF r(1) True] show ?thesis by simp
  next
    case False with that 1 show ?thesis by (simp add: purged_def)
  qed
  with released_trans [OF r] show ?thesis by (simp add: purged_def)
qed

lemma freed_purged:
  assumes z: "zone_inv B z" and a: "a \<in> B" "PU_PURGELEVEL \<le> btag z a" and f: "freed a B z B' z' m"
  shows "purged B z B' z'"
proof -
  have t: "btag z a \<noteq> PU_FREE" using a(2) by (auto simp: PU_defs)
  have "used B z - used B' z' = {a}" using freed_used [OF f] a(1) t by (auto simp: used_def)
  with freed_released [OF z a(1) t f] a(2) show ?thesis by (simp add: purged_def)
qed

definition scan_inv :: "int \<Rightarrow> int \<Rightarrow> int \<Rightarrow> int set \<Rightarrow> zone \<Rightarrow> bool" where
  "scan_inv start base rov B z \<longleftrightarrow>
     zone_inv B z \<and> start \<in> insert (blocklist z) B \<and> btag z start \<noteq> PU_FREE \<and>
     base \<in> insert (blocklist z) B \<and> btag z (bprev z base) \<noteq> PU_FREE \<and>
     (rov = base \<or> btag z base = PU_FREE \<and> rov = bnext z base)"

text \<open>A free block of the wanted size that the scan has still to come to.\<close>

definition fit_ahead :: "int \<Rightarrow> int \<Rightarrow> int \<Rightarrow> int set \<Rightarrow> zone \<Rightarrow> bool" where
  "fit_ahead sz start rov B z \<longleftrightarrow>
     (\<exists>f\<in>B. btag z f = PU_FREE \<and> sz \<le> bsize z f \<and> ahead start f z \<le> ahead start rov z)"

text \<open>The three cases of a round.\<close>

definition round_ok :: "int \<Rightarrow> int \<Rightarrow> int \<Rightarrow> int set \<Rightarrow> zone \<Rightarrow> zone \<Rightarrow> int \<Rightarrow> int \<Rightarrow> bool" where
  "round_ok sz start rov B z z' base' rov' \<longleftrightarrow>
     (\<exists>B'. scan_inv start base' rov' B' z' \<and> purged B z B' z' \<and>
        ahead start rov' z' < ahead start rov z \<and>
        (fit_ahead sz start rov B z \<longrightarrow>
           fit_ahead sz start rov' B' z' \<or> btag z' base' = PU_FREE \<and> sz \<le> bsize z' base'))"

lemma scan_inv_rov: "scan_inv start base rov B z \<Longrightarrow> rov \<in> insert (blocklist z) B"
  using zstruct_next_in [of B z base] unfolding scan_inv_def zone_inv_def by auto

lemma round_static:
  assumes i: "scan_inv start base rov B z" and s: "rov \<noteq> start" and t: "btag z rov \<noteq> PU_FREE"
  shows "round_ok sz start rov B z z (bnext z rov) (bnext z rov)"
proof -
  have st: "zstruct B z" and start: "start \<in> insert (blocklist z) B"
    using i by (simp_all add: scan_inv_def zone_inv_def)
  note rv = scan_inv_rov [OF i]
  have "bprev z (bnext z rov) = rov" using zlinks_prev_next [of B z rov] rv st by (simp add: zstruct_def)
  then have "scan_inv start (bnext z rov) (bnext z rov) B z"
    using i t zstruct_next_in [OF st rv] by (simp add: scan_inv_def)
  moreover have "ahead start (bnext z rov) z < ahead start rov z"
    using ahead_step [OF st rv start] s by simp
  moreover have "fit_ahead sz start (bnext z rov) B z" if "fit_ahead sz start rov B z"
  proof -
    obtain f where f: "f \<in> B" "btag z f = PU_FREE" "sz \<le> bsize z f" "ahead start f z \<le> ahead start rov z"
      using \<open>fit_ahead sz start rov B z\<close> by (auto simp: fit_ahead_def)
    have "f \<noteq> rov" using f(2) t by blast
    have "ahead start f z \<le> ahead start (bnext z rov) z"
    proof (cases "rov = blocklist z")
      case True
      then show ?thesis using ahead_between_cap [OF st, of start f] f start s by auto
    next
      case False
      with rv have "rov \<in> B" by simp
      moreover have "rov < rov + bsize z rov" using zlayoutD(6) [of B z rov] st \<open>rov \<in> B\<close> by (simp add: zstruct_def)
      ultimately show ?thesis using ahead_between [OF st _ start, of rov rov f] f s \<open>f \<noteq> rov\<close> by simp
    qed
    with f show ?thesis by (auto simp: fit_ahead_def)
  qed
  ultimately show ?thesis unfolding round_ok_def using purged_refl by blast
qed

lemma round_free:
  assumes i: "scan_inv start base rov B z" and s: "rov \<noteq> start" and t: "btag z rov = PU_FREE"
  shows "round_ok sz start rov B z z base (bnext z rov)"
proof -
  have st: "zstruct B z" and adj: "no_adjacent_free B z" and start: "start \<in> insert (blocklist z) B"
    using i by (simp_all add: scan_inv_def zone_inv_def)
  note rv = scan_inv_rov [OF i]
  have rB: "rov \<in> B" by (rule free_in [OF st rv t])
  have eq: "rov = base"
  proof (rule ccontr)
    assume "rov \<noteq> base"
    then have "btag z base = PU_FREE" "rov = bnext z base" "base \<in> insert (blocklist z) B"
      using i by (simp_all add: scan_inv_def)
    then have "btag z rov \<noteq> PU_FREE" using adj free_in [OF st, of base] by (simp add: no_adjacent_free_def)
    with t show False by simp
  qed
  have "scan_inv start base (bnext z rov) B z" using i t eq by (simp add: scan_inv_def)
  moreover have "ahead start (bnext z rov) z < ahead start rov z"
    using ahead_step [OF st rv start] s by simp
  moreover have "fit_ahead sz start (bnext z rov) B z \<or> btag z base = PU_FREE \<and> sz \<le> bsize z base"
    if "fit_ahead sz start rov B z"
  proof -
    obtain f where f: "f \<in> B" "btag z f = PU_FREE" "sz \<le> bsize z f" "ahead start f z \<le> ahead start rov z"
      using \<open>fit_ahead sz start rov B z\<close> by (auto simp: fit_ahead_def)
    show ?thesis
    proof (cases "f = rov")
      case True with f eq show ?thesis by simp
    next
      case False
      have "rov < rov + bsize z rov" using zlayoutD(6) [of B z rov] st rB by (simp add: zstruct_def)
      then have "ahead start f z \<le> ahead start (bnext z rov) z"
        using ahead_between [OF st rB start, of rov f] f s False by simp
      with f show ?thesis by (auto simp: fit_ahead_def)
    qed
  qed
  ultimately show ?thesis unfolding round_ok_def using purged_refl by blast
qed

lemma freed_cap_or_used:
  assumes "freed a B z B' z' m" "b \<in> insert (blocklist z) B" "btag z b \<noteq> PU_FREE" "b \<noteq> a"
  shows "b \<in> insert (blocklist z') B'" "btag z' b \<noteq> PU_FREE"
  using freed_gone [OF assms(1), of b] freed_const(1) [OF assms(1)] freed_other [OF assms(1), of b] assms(2-4)
  by auto

lemma freed_fit_ahead:
  assumes f: "freed a B z B' z' m" and s: "s \<in> insert (blocklist z') B'" "s \<noteq> m"
    and t: "btag z a \<noteq> PU_FREE" and sz: "0 < bsize z a" and fit: "fit_ahead sz s a B z"
  shows "fit_ahead sz s (bnext z' m) B' z' \<or> btag z' m = PU_FREE \<and> sz \<le> bsize z' m"
proof -
  have st': "zstruct B' z'" using freedD(1) [OF f] by (simp add: zone_inv_def)
  have ah: "ahead s x z' = ahead s x z" for x by (simp add: ahead_def freed_const [OF f])
  obtain g where g: "g \<in> B" "btag z g = PU_FREE" "sz \<le> bsize z g" "ahead s g z \<le> ahead s a z"
    using fit by (auto simp: fit_ahead_def)
  have ga: "g \<noteq> a" using g(2) t by blast
  have gt: "btag z' g = PU_FREE" using freed_other [OF f ga] g(2) by simp
  consider "g \<notin> B'" | "g = m" | "g \<in> B'" "g \<noteq> m" by blast
  then show ?thesis
  proof cases
    case 1
    then have "sz \<le> bsize z' m" using freed_gone [OF f g(1)] g(3) by linarith
    with freedD(4) [OF f] show ?thesis by simp
  next
    case 2
    then have "sz \<le> bsize z' m" using freed_size_le [OF f freedD(3) [OF f]] g(3) by simp
    with freedD(4) [OF f] show ?thesis by simp
  next
    case 3
    have "a < m + bsize z' m" using freedD(13) [OF f] sz by linarith
    then have "ahead s g z' \<le> ahead s (bnext z' m) z'"
      using ahead_between [OF st' freedD(3) [OF f] s freedD(12) [OF f]] 3 g(4) ah by simp
    with 3 gt g(3) freed_size [OF f 3] show ?thesis by (auto simp: fit_ahead_def)
  qed
qed

lemma round_purge:
  assumes i: "scan_inv start base rov B z" and s: "rov \<noteq> start" and t: "PU_PURGELEVEL \<le> btag z rov"
  shows "\<exists>z'. Z_Free (rov + hdr z) z = Inr z' \<and>
     round_ok sz start rov B z z' (bnext z' (bprev z base)) (bnext z' (bnext z' (bprev z base)))"
proof -
  have zi: "zone_inv B z" and start: "start \<in> insert (blocklist z) B" "btag z start \<noteq> PU_FREE"
    using i by (simp_all add: scan_inv_def)
  then have st: "zstruct B z" by (simp add: zone_inv_def)
  note rv = scan_inv_rov [OF i]
  have "rov \<noteq> blocklist z" using t st by (auto simp: zstruct_def zmarks_def)
  with rv have rB: "rov \<in> B" by simp
  have tf: "btag z rov \<noteq> PU_FREE" using t by (auto simp: PU_defs)
  obtain z' B' m where zf: "Z_Free (rov + hdr z) z = Inr z'" and f: "freed rov B z B' z' m"
    using Z_Free_freed [OF zi rB tf] by blast
  have st': "zstruct B' z'" and adj': "no_adjacent_free B' z'"
    using freedD(1) [OF f] by (simp_all add: zone_inv_def)
  have pm: "bprev z' m = bprev z base"
  proof (cases "rov = base")
    case True with i freedD(6) [OF f] show ?thesis by (simp add: scan_inv_def)
  next
    case False
    then have "btag z base = PU_FREE" "rov = bnext z base" "base \<in> insert (blocklist z) B"
      using i by (simp_all add: scan_inv_def)
    moreover have "bprev z (bnext z base) = base"
      using zlinks_prev_next [of B z base] calculation(3) st by (simp add: zstruct_def)
    ultimately show ?thesis using freedD(6) [OF f] by simp
  qed
  have nm: "bnext z' (bprev z base) = m" using zstruct_pred [OF st', of m] freedD(3) [OF f] pm by simp
  have pnf: "btag z' (bprev z base) \<noteq> PU_FREE"
    using zstruct_pred [OF st', of m] freedD(3,4) [OF f] pm free_in [OF st'] adj'
    by (auto simp: no_adjacent_free_def)
  note start' = freed_cap_or_used [OF f start s [symmetric]]
  have sm: "start \<noteq> m" using start'(2) freedD(4) [OF f] by blast
  have sz: "0 < bsize z rov" using zlayoutD(5) [of B z rov] st rB by (simp add: zstruct_def)
  have "rov < m + bsize z' m" using freedD(13) [OF f] sz by linarith
  then have "ahead start (bnext z' m) z' < ahead start rov z'"
    using ahead_next [OF st' freedD(3) [OF f] start'(1) sm freedD(12) [OF f]] by simp
  moreover have "ahead start rov z' = ahead start rov z" by (simp add: ahead_def freed_const [OF f])
  moreover have "scan_inv start m (bnext z' m) B' z'"
    using freedD(1,3,4) [OF f] start' pnf pm by (simp add: scan_inv_def)
  ultimately have "round_ok sz start rov B z z' m (bnext z' m)"
    using freed_purged [OF zi rB t f] freed_fit_ahead [OF f start'(1) sm tf sz]
    unfolding round_ok_def by (intro exI [of _ B']) simp
  with zf nm show ?thesis by simp
qed

lemma scan_step_ok:
  assumes i: "scan_inv start base rov B z" and s: "rov \<noteq> start"
  shows "\<exists>z' base' rov'. scan_step base rov z = Inr (z', base', rov') \<and> round_ok sz start rov B z z' base' rov'"
proof -
  consider "btag z rov = PU_FREE" | "btag z rov \<noteq> PU_FREE" "btag z rov < PU_PURGELEVEL"
    | "btag z rov \<noteq> PU_FREE" "PU_PURGELEVEL \<le> btag z rov" by linarith
  then show ?thesis
  proof cases
    case 1 with round_free [OF i s] show ?thesis by (simp add: scan_step_def)
  next
    case 2 with round_static [OF i s] show ?thesis by (simp add: scan_step_def)
  next
    case 3
    with round_purge [OF i s 3(2), of sz] show ?thesis by (auto simp: scan_step_def Let_def)
  qed
qed

definition alloc_failed :: doom_error where
  "alloc_failed = I_Error ''Z_Malloc: failed on allocation''"

lemma Z_Malloc_scan_ok:
  assumes "scan_inv start base rov B z"
  shows "(Z_Malloc_scan sz start base rov z = Some (Inl alloc_failed) \<and> \<not> fit_ahead sz start rov B z) \<or>
    (\<exists>z' base' B'. Z_Malloc_scan sz start base rov z = Some (Inr (z', base')) \<and> zone_inv B' z' \<and>
       base' \<in> B' \<and> btag z' base' = PU_FREE \<and> sz \<le> bsize z' base' \<and> purged B z B' z')"
  using assms
proof (induction "nat (ahead start rov z)" arbitrary: base rov B z rule: less_induct)
  case less
  have st: "zstruct B z" and start: "start \<in> insert (blocklist z) B" "btag z start \<noteq> PU_FREE"
    using less.prems by (simp_all add: scan_inv_def zone_inv_def)
  show ?case
  proof (cases "rov = start")
    case True
    have "ahead start start z = 0" by (simp add: ahead_def)
    moreover have "f \<in> B \<Longrightarrow> ahead start f z \<le> 0 \<Longrightarrow> f = start" for f
      using ahead_nonneg [OF st _ start(1), of f] by simp
    ultimately have "\<not> fit_ahead sz start start B z"
      using start(2) unfolding fit_ahead_def by metis
    with True show ?thesis by (simp add: Z_Malloc_scan.simps [of sz start] alloc_failed_def)
  next
    case False
    obtain z' base' rov' B' where step: "scan_step base rov z = Inr (z', base', rov')"
      and i': "scan_inv start base' rov' B' z'" and p: "purged B z B' z'"
      and dec: "ahead start rov' z' < ahead start rov z"
      and fit: "fit_ahead sz start rov B z \<longrightarrow>
           fit_ahead sz start rov' B' z' \<or> btag z' base' = PU_FREE \<and> sz \<le> bsize z' base'"
      using scan_step_ok [OF less.prems False, of sz] unfolding round_ok_def by blast
    have st': "zstruct B' z'" using i' by (simp add: scan_inv_def zone_inv_def)
    show ?thesis
    proof (cases "btag z' base' \<noteq> PU_FREE \<or> bsize z' base' < sz")
      case True
      have eq: "Z_Malloc_scan sz start base rov z = Z_Malloc_scan sz start base' rov' z'"
        using False step True by (simp add: Z_Malloc_scan.simps [of sz start base])
      have "0 \<le> ahead start rov' z'"
        using ahead_nonneg [OF st' scan_inv_rov [OF i']] i' by (simp add: scan_inv_def)
      then have "nat (ahead start rov' z') < nat (ahead start rov z)" using dec by simp
      from less.hyps [OF this i'] show ?thesis
        unfolding eq using fit True purged_trans [OF p] by fastforce
    next
      case False
      have "base' \<in> B'" using free_in [OF st', of base'] i' False by (simp add: scan_inv_def)
      moreover have "Z_Malloc_scan sz start base rov z = Some (Inr (z', base'))"
        using \<open>rov \<noteq> start\<close> step False by (simp add: Z_Malloc_scan.simps [of sz start base])
      ultimately show ?thesis using False p i' by (auto simp: scan_inv_def)
    qed
  qed
qed

section \<open>Cutting a block\<close>

lemma and_not_mask: "(x :: int) AND NOT (mask n) = x - x mod 2 ^ n"
proof -
  have "x AND NOT (mask n) = push_bit n (drop_bit n x)"
    by (rule bit_eqI) (auto simp: bit_simps)
  also have "\<dots> = x div 2 ^ n * 2 ^ n" by (simp add: push_bit_eq_mult drop_bit_eq_div)
  finally show ?thesis by (simp add: minus_mod_eq_div_mult)
qed

lemma alloc_size_bounds:
  assumes "0 \<le> sz" "sz \<le> INT_MAX - 64"
  shows "sz + sizeof_memblock arch \<le> alloc_size arch sz"
    and "alloc_size arch sz < sz + sizeof_memblock arch + MEM_ALIGN arch"
    and "MEM_ALIGN arch dvd alloc_size arch sz"
    and "sizeof_memblock arch \<le> alloc_size arch sz" "is_i32 (alloc_size arch sz)"
proof -
  obtain n where n: "MEM_ALIGN arch = 2 ^ n" "n = (case arch of ILP32 \<Rightarrow> 2 | LP64 \<Rightarrow> 3)"
    by (cases arch) simp_all
  define x where "x = sz + MEM_ALIGN arch - 1"
  have A: "1 \<le> MEM_ALIGN arch" "MEM_ALIGN arch \<le> 8" by (cases arch; simp)+
  have H: "24 \<le> sizeof_memblock arch" "sizeof_memblock arch \<le> 40" "MEM_ALIGN arch dvd sizeof_memblock arch"
    by (cases arch; simp)+
  have m: "x AND NOT (MEM_ALIGN arch - 1) = x - x mod MEM_ALIGN arch"
    using and_not_mask [of x n] unfolding n(1) mask_eq_exp_minus_1 .
  have b: "0 \<le> x mod MEM_ALIGN arch" "x mod MEM_ALIGN arch < MEM_ALIGN arch" using A by simp_all
  have "is_i32 (x - x mod MEM_ALIGN arch)" "is_i32 (x - x mod MEM_ALIGN arch + sizeof_memblock arch)"
    using b A H assms unfolding is_i32_def x_def INT_MIN_def INT_MAX_def by linarith+
  then have e: "alloc_size arch sz = x - x mod MEM_ALIGN arch + sizeof_memblock arch"
    by (simp only: alloc_size_def Let_def x_def [symmetric] m i32_id)
  show "sz + sizeof_memblock arch \<le> alloc_size arch sz"
    "alloc_size arch sz < sz + sizeof_memblock arch + MEM_ALIGN arch"
    using b unfolding e x_def by linarith+
  then show "sizeof_memblock arch \<le> alloc_size arch sz" "is_i32 (alloc_size arch sz)"
    using assms A H by (simp_all add: is_i32_def INT_MIN_def INT_MAX_def)
  show "MEM_ALIGN arch dvd alloc_size arch sz"
    unfolding e using H(3) by (simp add: dvd_minus_mod)
qed

definition cuts :: "int \<Rightarrow> int \<Rightarrow> zone \<Rightarrow> bool" where
  "cuts base sz z \<longleftrightarrow> MINFRAGMENT < bsize z base - sz"

definition cut_set :: "int \<Rightarrow> int \<Rightarrow> int set \<Rightarrow> zone \<Rightarrow> int set" where
  "cut_set base sz B z = (if cuts base sz z then insert (base + sz) B else B)"

lemma block_size_i32:
  assumes "zlayout B z" "a \<in> B"
  shows "is_i32 (bsize z a)"
proof -
  have "zfirst z \<le> a" "a + bsize z a \<le> zend z" "0 < bsize z a" using zlayoutD [OF assms] by auto
  moreover have "zend z - zfirst z \<le> zsize z" by (cases "zarch z") (simp_all add: zend_def zfirst_def)
  moreover have "zsize z \<le> INT_MAX" using assms(1) by (simp add: zlayout_def)
  ultimately show ?thesis by (simp add: is_i32_def INT_MIN_def)
qed

lemma split_const:
  "zarch (split_block base sz z) = zarch z" "mainzone (split_block base sz z) = mainzone z"
  "zsize (split_block base sz z) = zsize z" "rover (split_block base sz z) = rover z"
  "zcells (split_block base sz z) = zcells z"
  by (simp_all add: split_block_def Let_def)

lemma split_const':
  "blocklist (split_block base sz z) = blocklist z" "hdr (split_block base sz z) = hdr z"
  "zfirst (split_block base sz z) = zfirst z" "zend (split_block base sz z) = zend z"
  by (rule zconst_cong; simp add: split_const)+

lemma split_nocut:
  assumes "is_i32 (bsize z base - sz)" "\<not> cuts base sz z"
  shows "split_block base sz z = z"
  using assms by (simp add: split_block_def i32_id cuts_def)

lemma split_fields:
  assumes "is_i32 (bsize z base - sz)" "cuts base sz z" "bnext z base \<noteq> base + sz" "sz \<noteq> 0"
    "bnext z base \<noteq> base"
  shows "bsize (split_block base sz z) b = (if b = base then sz else if b = base + sz then bsize z base - sz else bsize z b)"
    "bnext (split_block base sz z) b = (if b = base then base + sz else if b = base + sz then bnext z base else bnext z b)"
    "bprev (split_block base sz z) b = (if b = base + sz then base else if b = bnext z base then base + sz else bprev z b)"
    "btag (split_block base sz z) b = (if b = base + sz then PU_FREE else btag z b)"
    "buser (split_block base sz z) b = (if b = base + sz then None else buser z b)"
    "bid (split_block base sz z) b = bid z b"
  using assms unfolding split_block_def Let_def i32_id [OF assms(1)] cuts_def by simp_all

lemma split_side:
  assumes z: "zstruct B z" and b: "base \<in> B" and sz: "hdr z \<le> sz" "sz \<le> bsize z base"
  shows "is_i32 (bsize z base - sz)" "bnext z base \<noteq> base" "sz \<noteq> 0"
    and "cuts base sz z \<Longrightarrow> bnext z base \<noteq> base + sz" "cuts base sz z \<Longrightarrow> base + sz \<notin> insert (blocklist z) B"
proof -
  have lay: "zlayout B z" and lnk: "zlinks B z" using z by (simp_all add: zstruct_def)
  have sp: "0 < sz" using sz(1) hdr_pos [of z] by linarith
  then show "sz \<noteq> 0" by simp
  show "is_i32 (bsize z base - sz)"
    using block_size_i32 [OF lay b] sp sz(2) by (simp add: is_i32_def INT_MIN_def)
  show nb: "bnext z base \<noteq> base" by (rule bnext_ne_self [OF lnk lay b])
  assume c: "cuts base sz z"
  then have lt: "base + sz < base + bsize z base" by (simp add: cuts_def MINFRAGMENT_def)
  have cap: "blocklist z < base" by (rule zlayoutD(1) [OF lay b])
  show "base + sz \<notin> insert (blocklist z) B"
    using zlayout_no_overlap [OF lay b, of "base + sz"] lt sp cap by auto
  then show "bnext z base \<noteq> base + sz"
    using zstruct_next_in [OF z, of base] b by auto
qed

lemma split_zlayout:
  assumes z: "zstruct B z" and b: "base \<in> B" and sz: "hdr z \<le> sz" "sz \<le> bsize z base" and c: "cuts base sz z"
  shows "zlayout (insert (base + sz) B) (split_block base sz z)"
proof -
  have lay: "zlayout B z" using z by (simp add: zstruct_def)
  note sd = split_side [OF z b sz]
  note f = split_fields [OF sd(1) c sd(4) [OF c] sd(3,2)]
  have new: "base + sz \<notin> B" using sd(5) [OF c] by simp
  have sp: "0 < sz" using sz(1) hdr_pos [of z] by linarith
  have rest: "hdr z \<le> bsize z base - sz"
    using c unfolding cuts_def MINFRAGMENT_def by (cases "zarch z") (simp_all add: hdr_def)
  show ?thesis
    unfolding zlayout_def split_const split_const' f
  proof (intro conjI ballI impI)
    fix x assume x: "x \<in> insert (base + sz) B"
    show "zfirst z \<le> x" using x zlayoutD(2) [OF lay, of x] zlayoutD(2) [OF lay b] sp by auto
    show "hdr z \<le> (if x = base then sz else if x = base + sz then bsize z base - sz else bsize z x)"
      using x zlayoutD(3) [OF lay, of x] sz(1) rest by auto
    show "x + (if x = base then sz else if x = base + sz then bsize z base - sz else bsize z x) \<le> zend z"
      using x zlayoutD(4) [OF lay, of x] zlayoutD(4) [OF lay b] sz(2) by auto
    fix y assume y: "y \<in> insert (base + sz) B" and xy: "x < y"
    show "x + (if x = base then sz else if x = base + sz then bsize z base - sz else bsize z x) \<le> y"
    proof (cases "x = base")
      case True
      then show ?thesis using y xy zlayout_no_overlap [OF lay b, of y] sz(2) by auto
    next
      case xb: False
      show ?thesis
      proof (cases "x = base + sz")
        case True
        with y xy have "y \<in> B" "base < y" using sp by auto
        then show ?thesis using zlayout_no_overlap [OF lay b, of y] True sp by simp
      next
        case False
        with x have xB: "x \<in> B" by simp
        have "x + bsize z x \<le> y"
        proof (cases "y = base + sz")
          case True
          then have "x \<le> base" using zlayout_no_overlap [OF lay b xB] xy sz(2) c
            by (fastforce simp: cuts_def MINFRAGMENT_def)
          then have "x < base" using xb by simp
          then show ?thesis using zlayout_no_overlap [OF lay xB b] True sp by simp
        next
          case False
          with y xy zlayout_no_overlap [OF lay xB] show ?thesis by simp
        qed
        with xb False show ?thesis by simp
      qed
    qed
  qed (use lay in \<open>simp_all add: zlayout_def\<close>)
qed

lemma split_zlinks:
  assumes z: "zstruct B z" and b: "base \<in> B" and sz: "hdr z \<le> sz" "sz \<le> bsize z base" and c: "cuts base sz z"
  shows "zlinks (insert (base + sz) B) (split_block base sz z)"
proof -
  have lay: "zlayout B z" and lnk: "zlinks B z" using z by (simp_all add: zstruct_def)
  note sd = split_side [OF z b sz]
  note f = split_fields [OF sd(1) c sd(4) [OF c] sd(3,2)]
  have new: "base + sz \<notin> insert (blocklist z) B" by (rule sd(5) [OF c])
  have cb: "blocklist z \<noteq> base" using b cap_notin [OF lay] by blast
  show ?thesis
    unfolding zlinks_def split_const split_const' f
  proof (intro conjI ballI)
    fix a assume a: "a \<in> insert (base + sz) B"
    let ?s = "if a = base then sz else if a = base + sz then bsize z base - sz else bsize z a"
    let ?n = "if a = base then base + sz else if a = base + sz then bnext z base else bnext z a"
    show "(a + ?s = zend z \<and> ?n = blocklist z) \<or> (a + ?s \<in> insert (base + sz) B \<and> ?n = a + ?s)"
    proof (cases "a = base + sz")
      case True
      have "a + ?s = base + bsize z base" "?n = bnext z base" using True sd(3) by simp_all
      then show ?thesis using zlinks_next [OF lnk b] by (metis insertI2)
    next
      case False
      with a zlinks_next [OF lnk, of a] show ?thesis by (cases "a = base") auto
    qed
  next
    show "(if blocklist z = base then base + sz else if blocklist z = base + sz then bnext z base
           else bnext z (blocklist z)) = zfirst z"
      using cb new lnk by (simp add: zlinks_def)
  next
    fix a assume a: "a \<in> insert (blocklist z) (insert (base + sz) B)"
    let ?n = "if a = base then base + sz else if a = base + sz then bnext z base else bnext z a"
    show "(if ?n = base + sz then base else if ?n = bnext z base then base + sz else bprev z ?n) = a"
    proof (cases "a = base \<or> a = base + sz")
      case True then show ?thesis using sd(3) sd(4) [OF c] by auto
    next
      case False
      then have a': "a \<in> insert (blocklist z) B" using a by blast
      have "bnext z a \<noteq> base + sz" using zstruct_next_in [OF z a'] new by auto
      moreover have "bnext z a \<noteq> bnext z base" using zlinks_inj [OF lnk a', of base] b False by auto
      ultimately show ?thesis using False zlinks_prev_next [OF lnk a'] by simp
    qed
  qed
qed

text \<open>
  The block as \<open>Z_Malloc\<close> hands it out: cut, marked, the owner's pointer set, the rover
  behind it.
\<close>

definition hand_out :: "int \<Rightarrow> int \<Rightarrow> int option \<Rightarrow> int \<Rightarrow> zone \<Rightarrow> zone" where
  "hand_out sz tag user base z =
     (let z = upd base (\<lambda>b. b\<lparr>mb_user := user, mb_tag := tag\<rparr>) (split_block base sz z);
          z = (case user of None \<Rightarrow> z | Some u \<Rightarrow> z\<lparr>zcells := (zcells z)(u := base + hdr z)\<rparr>);
          z = z\<lparr>rover := mb_next (zmem z base)\<rparr>
      in upd base (\<lambda>b. b\<lparr>mb_id := ZONEID\<rparr>) z)"

lemma hand_out_fields:
  fixes sz tag base :: int and user :: "int option" and z :: zone
  defines "z' \<equiv> hand_out sz tag user base z"
  shows "bsize z' b = bsize (split_block base sz z) b" "bnext z' b = bnext (split_block base sz z) b"
    "bprev z' b = bprev (split_block base sz z) b"
    "btag z' b = (if b = base then tag else btag (split_block base sz z) b)"
    "buser z' b = (if b = base then user else buser (split_block base sz z) b)"
    "bid z' b = (if b = base then ZONEID else bid (split_block base sz z) b)"
    "rover z' = bnext (split_block base sz z) base"
    "zarch z' = zarch z" "mainzone z' = mainzone z" "zsize z' = zsize z"
    "zcells z' = (case user of None \<Rightarrow> zcells z | Some u \<Rightarrow> (zcells z)(u := base + hdr z))"
  unfolding z'_def hand_out_def by (cases user; simp add: Let_def split_const split_const')+

lemma hand_out_const:
  "blocklist (hand_out sz tag user base z) = blocklist z" "hdr (hand_out sz tag user base z) = hdr z"
  "zfirst (hand_out sz tag user base z) = zfirst z" "zend (hand_out sz tag user base z) = zend z"
  by (rule zconst_cong; simp add: hand_out_fields)+

lemma zlayout_cong:
  assumes "\<And>b. bsize z' b = bsize z b" "zarch z' = zarch z" "mainzone z' = mainzone z" "zsize z' = zsize z"
  shows "zlayout B z' = zlayout B z"
  using assms zconst_cong [OF assms(2-4)] by (simp add: zlayout_def)

lemma zlinks_cong:
  assumes "\<And>b. bsize z' b = bsize z b" "\<And>b. bnext z' b = bnext z b" "\<And>b. bprev z' b = bprev z b"
    "zarch z' = zarch z" "mainzone z' = mainzone z" "zsize z' = zsize z"
  shows "zlinks B z' = zlinks B z"
  using assms zconst_cong [OF assms(4-6)] by (simp add: zlinks_def)

lemma split_geometry:
  assumes "zstruct B z" "base \<in> B" "hdr z \<le> sz" "sz \<le> bsize z base"
  shows "zlayout (cut_set base sz B z) (split_block base sz z)" "zlinks (cut_set base sz B z) (split_block base sz z)"
  using split_zlayout [OF assms] split_zlinks [OF assms] split_nocut [OF split_side(1) [OF assms]] assms(1)
  by (auto simp: cut_set_def zstruct_def)

lemma split_other:
  assumes "zstruct B z" "base \<in> B" "hdr z \<le> sz" "sz \<le> bsize z base" "b \<in> insert (blocklist z) B"
  shows "btag (split_block base sz z) b = btag z b" "buser (split_block base sz z) b = buser z b"
    "bid (split_block base sz z) b = bid z b" "b \<noteq> base \<Longrightarrow> bsize (split_block base sz z) b = bsize z b"
    "b \<noteq> base \<Longrightarrow> bnext (split_block base sz z) b = bnext z b"
proof -
  note sd = split_side [OF assms(1-4)]
  show "btag (split_block base sz z) b = btag z b" "buser (split_block base sz z) b = buser z b"
    "bid (split_block base sz z) b = bid z b" "b \<noteq> base \<Longrightarrow> bsize (split_block base sz z) b = bsize z b"
    "b \<noteq> base \<Longrightarrow> bnext (split_block base sz z) b = bnext z b"
    using split_nocut [OF sd(1)] split_fields [OF sd(1) _ sd(4) sd(3,2)] sd(5) assms(5)
    by (cases "cuts base sz z"; auto)+
qed

lemma hand_out_ok:
  assumes z: "zone_inv B z" and b: "base \<in> B" "btag z base = PU_FREE"
    and sz: "hdr z \<le> sz" "sz \<le> bsize z base"
    and tag: "tag \<noteq> PU_FREE" "PU_PURGELEVEL \<le> tag \<longrightarrow> user \<noteq> None"
  defines "z' \<equiv> hand_out sz tag user base z" and "B' \<equiv> cut_set base sz B z"
  shows "zone_inv B' z'" "used B' z' = insert base (used B z)" "sz \<le> bsize z' base"
    "b \<in> used B z \<Longrightarrow> bsize z' b = bsize z b \<and> btag z' b = btag z b \<and> buser z' b = buser z b"
proof -
  have st: "zstruct B z" and adj: "no_adjacent_free B z" using z by (simp_all add: zone_inv_def)
  let ?s = "split_block base sz z"
  note geo = split_geometry [OF st b(1) sz] and sd = split_side [OF st b(1) sz]
  note oth = split_other [OF st b(1) sz]
  note f = hand_out_fields [of sz tag user base z, folded z'_def]
  note cn = hand_out_const [of sz tag user base z, folded z'_def]
  have new: "B' = B \<or> cuts base sz z \<and> B' = insert (base + sz) B \<and> btag ?s (base + sz) = PU_FREE \<and>
      bnext ?s (base + sz) = bnext z base \<and> base + sz \<notin> insert (blocklist z) B"
    using split_fields [OF sd(1) _ sd(4) sd(3,2)] sd(3,5) by (auto simp: B'_def cut_set_def)
  have sub: "B \<subseteq> B'" using new by auto
  have capn: "blocklist z \<noteq> base" using b st cap_notin [of B z] by (auto simp: zstruct_def)
  have nb: "btag ?s (base + sz) = PU_FREE \<or> B' = B" using new by blast
  have "zlayout B' z'" using geo(1) zlayout_cong [of z' ?s] f split_const by (simp add: B'_def)
  moreover have "zlinks B' z'" using geo(2) zlinks_cong [of z' ?s] f split_const by (simp add: B'_def)
  moreover have "zmarks B' z'"
  proof -
    have m: "zmarks B z" using st by (simp add: zstruct_def)
    have "bnext ?s base \<in> insert (blocklist z) B'"
      using zlinks_next_in [OF geo(2,1), of base] b(1) sub by (auto simp: split_const' B'_def)
    moreover have "bid z' x = ZONEID" if "x \<in> B'" "btag z' x \<noteq> PU_FREE" for x
      using that m oth(1,3) [of x] new unfolding f zmarks_def by (auto split: if_splits)
    moreover have "buser z' x \<noteq> None" if "x \<in> B'" "PU_PURGELEVEL \<le> btag z' x" for x
    proof (cases "x = base")
      case True with that tag(2) show ?thesis unfolding f by simp
    next
      case False
      then have "PU_PURGELEVEL \<le> btag ?s x" using that(2) unfolding f by simp
      then have "x \<noteq> base + sz \<or> B' = B" using nb by (auto simp: PU_defs)
      then have "x \<in> B" using that(1) new by auto
      with False that(2) m oth(1,2) [of x] show ?thesis unfolding f zmarks_def by simp
    qed
    ultimately show ?thesis
      using m capn oth(1) [of "blocklist z"] unfolding zmarks_def cn f by simp
  qed
  ultimately have st': "zstruct B' z'" by (simp add: zstruct_def)
  have "btag z' (bnext z' x) \<noteq> PU_FREE" if x: "x \<in> B'" "btag z' x = PU_FREE" for x
  proof -
    have xb: "x \<noteq> base" using x(2) tag(1) unfolding f by auto
    have nn: "btag z' n \<noteq> PU_FREE" if "n \<in> insert (blocklist z) B" "btag z n \<noteq> PU_FREE" for n
      using that oth(1) [of n] tag(1) unfolding f by simp
    consider "x \<in> B" | "bnext ?s x = bnext z base" using x(1) new by auto
    then show ?thesis
    proof cases
      case 1
      have "btag z x = PU_FREE" using x(2) xb oth(1) [of x] 1 unfolding f by simp
      with adj 1 have "btag z (bnext z x) \<noteq> PU_FREE" by (simp add: no_adjacent_free_def)
      with nn [of "bnext z x"] zstruct_next_in [OF st, of x] oth(5) [of x] 1 xb f(2) show ?thesis by simp
    next
      case 2
      have "btag z (bnext z base) \<noteq> PU_FREE" using adj b by (simp add: no_adjacent_free_def)
      with nn [of "bnext z base"] zstruct_next_in [OF st, of base] b(1) 2 f(2) show ?thesis by simp
    qed
  qed
  with st' show "zone_inv B' z'" by (simp add: zone_inv_def no_adjacent_free_def)
  show "used B' z' = insert base (used B z)"
  proof (rule set_eqI)
    fix x
    show "x \<in> used B' z' \<longleftrightarrow> x \<in> insert base (used B z)"
      using new oth(1) [of x] b(1) tag(1) nb sub unfolding used_def f by auto
  qed
  show "sz \<le> bsize z' base"
    using split_nocut [OF sd(1)] split_fields(1) [OF sd(1) _ sd(4) sd(3,2), of base] sz(2) unfolding f
    by (cases "cuts base sz z") auto
  show "bsize z' b = bsize z b \<and> btag z' b = btag z b \<and> buser z' b = buser z b" if "b \<in> used B z"
    using that oth [of b] b(2) unfolding used_def f by auto
qed

lemma Z_Malloc_start:
  assumes z: "zone_inv B z"
  defines "base \<equiv> (if btag z (bprev z (rover z)) = PU_FREE then bprev z (rover z) else rover z)"
  shows "scan_inv (bprev z base) base base B z"
    and "f \<in> B \<Longrightarrow> btag z f = PU_FREE \<Longrightarrow> ahead (bprev z base) f z \<le> ahead (bprev z base) base z"
proof -
  have st: "zstruct B z" and adj: "no_adjacent_free B z" using z by (simp_all add: zone_inv_def)
  have rv: "rover z \<in> insert (blocklist z) B" using st by (simp add: zstruct_def zmarks_def)
  note pr = zstruct_pred [OF st rv]
  have b: "base \<in> insert (blocklist z) B" using rv pr by (simp add: base_def)
  note pb = zstruct_pred [OF st b]
  have nf: "btag z (bprev z base) \<noteq> PU_FREE"
  proof (cases "btag z (bprev z (rover z)) = PU_FREE")
    case True
    then have "btag z base = PU_FREE" by (simp add: base_def)
    with pb adj free_in [OF st, of "bprev z base"] show ?thesis by (auto simp: no_adjacent_free_def)
  qed (simp add: base_def)
  then show i: "scan_inv (bprev z base) base base B z" using z pb b by (simp add: scan_inv_def)
  assume f: "f \<in> B" "btag z f = PU_FREE"
  let ?s = "bprev z base"
  have fs: "f \<noteq> ?s" using f(2) nf by blast
  have lay: "zlayout B z" and lnk: "zlinks B z" using st by (simp_all add: zstruct_def)
  note bd = member_bounds [OF st, of f] member_bounds [OF st b] member_bounds [OF st, of ?s]
  show "ahead ?s f z \<le> ahead ?s base z"
  proof (cases "?s = blocklist z")
    case True
    then have "base = zfirst z" using pb lnk by (simp add: zlinks_def)
    then have "base \<le> f" "?s < base" "?s < f" using f(1) zlayoutD(1,2) [OF lay, of f] blocklist_less [of z] True by auto
    then show ?thesis by (simp add: ahead_def)
  next
    case False
    then have sB: "?s \<in> B" using pb by simp
    have o: "f < ?s \<or> ?s + bsize z ?s \<le> f" using outside_block [OF st sB _ fs] f(1) by simp
    have sp: "0 < bsize z ?s" by (rule zlayoutD(5) [OF lay sB])
    from zlinks_next [OF lnk sB] pb
    consider "base = blocklist z" "?s + bsize z ?s = zend z" | "base = ?s + bsize z ?s" by fastforce
    then show ?thesis
    proof cases
      case 1
      then have "base \<le> ?s" "f < ?s" "base \<le> f" using bd(1,2) f(1) o zlayoutD(1) [OF lay sB] by auto
      then show ?thesis by (simp add: ahead_def)
    next
      case 2
      have "?s < base" using 2 sp by simp
      with 2 o f(1) bd(1-4) b show ?thesis by (auto simp: ahead_def)
    qed
  qed
qed

text \<open>
  \<open>Z_Malloc\<close> returns; it fails only if no free block has the size, and otherwise hands
  out a block of the zone that is left after purging.
\<close>

lemma Z_Malloc_ok:
  assumes z: "zone_inv B z" and own: "PU_PURGELEVEL \<le> tag \<longrightarrow> user \<noteq> None"
  shows "Z_Malloc sz tag user z = Some (Inl alloc_failed) \<and>
      (\<forall>f\<in>B. btag z f = PU_FREE \<longrightarrow> bsize z f < alloc_size (zarch z) sz) \<or>
    (\<exists>z1 B1 base. zone_inv B1 z1 \<and> purged B z B1 z1 \<and> base \<in> B1 \<and> btag z1 base = PU_FREE \<and>
       alloc_size (zarch z) sz \<le> bsize z1 base \<and>
       Z_Malloc sz tag user z = Some (Inr (base + hdr z, hand_out (alloc_size (zarch z) sz) tag user base z1)))"
proof -
  let ?b = "if btag z (bprev z (rover z)) = PU_FREE then bprev z (rover z) else rover z"
  let ?sz = "alloc_size (zarch z) sz"
  note st = Z_Malloc_start [OF z]
  from Z_Malloc_scan_ok [OF st(1), of ?sz] show ?thesis
  proof (elim disjE exE conjE)
    assume r: "Z_Malloc_scan ?sz (bprev z ?b) ?b ?b z = Some (Inl alloc_failed)"
      and nf: "\<not> fit_ahead ?sz (bprev z ?b) ?b B z"
    have "bsize z f < ?sz" if "f \<in> B" "btag z f = PU_FREE" for f
      using nf st(2) [OF that] that by (force simp: fit_ahead_def)
    moreover have "Z_Malloc sz tag user z = Some (Inl alloc_failed)"
      unfolding Z_Malloc_def Let_def r by simp
    ultimately show ?thesis by blast
  next
    fix z1 base B1
    assume r: "Z_Malloc_scan ?sz (bprev z ?b) ?b ?b z = Some (Inr (z1, base))"
      and b: "zone_inv B1 z1" "base \<in> B1" "btag z1 base = PU_FREE" "?sz \<le> bsize z1 base" "purged B z B1 z1"
    have h: "hdr z1 = hdr z" using b(5) by (intro zconst_cong) (simp_all add: purged_def released_def)
    have no: "\<not> (user = None \<and> PU_PURGELEVEL \<le> tag)" using own by blast
    have "Z_Malloc sz tag user z = Some (Inr (base + hdr z, hand_out ?sz tag user base z1))"
      unfolding Z_Malloc_def Let_def r using no
      by (auto simp: hand_out_def Let_def split_const' h split: option.splits)
    with b show ?thesis by blast
  qed
qed

end
