(* ===== verification/Zone_Heap.thy ===== *)
theory Zone_Heap
  imports Zone_Alloc
begin

text \<open>
  The zone seen from its users: a partial function from pointers to the size, the tag
  and the owner of the block they were given. The operations of \<^verbatim>\<open>z_zone.c\<close> are shown to
  implement the operations on this function.
\<close>

section \<open>The blocks of a zone and the abstract heap\<close>

inductive_set zset :: "zone \<Rightarrow> int set" for z where
  zset_first: "bnext z (blocklist z) \<noteq> blocklist z \<Longrightarrow> bnext z (blocklist z) \<in> zset z"
| zset_next: "a \<in> zset z \<Longrightarrow> bnext z a \<noteq> blocklist z \<Longrightarrow> bnext z a \<in> zset z"

definition heap :: "zone \<Rightarrow> int \<rightharpoonup> int \<times> int \<times> int option" where
  "heap z p = (if p - hdr z \<in> used (zset z) z
               then Some (bsize z (p - hdr z) - hdr z, btag z (p - hdr z), buser z (p - hdr z)) else None)"

definition aligned :: "int set \<Rightarrow> zone \<Rightarrow> bool" where
  "aligned B z \<longleftrightarrow> (\<forall>a\<in>B. MEM_ALIGN (zarch z) dvd a - mainzone z)"

definition zone_ok :: "zone \<Rightarrow> bool" where
  "zone_ok z \<longleftrightarrow> zone_inv (zset z) z \<and> aligned (zset z) z"

definition free_sizes :: "zone \<Rightarrow> int set" where
  "free_sizes z = {bsize z a | a. a \<in> zset z \<and> btag z a = PU_FREE}"

lemma zset_eq:
  assumes "zone_inv B z"
  shows "zset z = B"
proof
  have st: "zstruct B z" and lay: "zlayout B z" and lnk: "zlinks B z"
    using assms by (simp_all add: zone_inv_def zstruct_def)
  show "zset z \<subseteq> B"
  proof
    fix a assume "a \<in> zset z"
    then show "a \<in> B"
      by induction (use zstruct_next_in [OF st] in auto)
  qed
  have "a \<in> zset z" if "a \<in> B" for a
    using that
  proof (induction "nat (a - zfirst z)" arbitrary: a rule: less_induct)
    case less
    have p: "bprev z a \<in> insert (blocklist z) B" "bnext z (bprev z a) = a"
      using zstruct_pred [OF st, of a] less.prems by simp_all
    have acap: "a \<noteq> blocklist z" using less.prems cap_notin [OF lay] by blast
    show ?case
    proof (cases "bprev z a = blocklist z")
      case True with p acap zset_first [of z] show ?thesis by simp
    next
      case False
      with p have pB: "bprev z a \<in> B" by simp
      have "bprev z a < a" using bnext_greater [OF lnk lay pB] p acap by simp
      then have "nat (bprev z a - zfirst z) < nat (a - zfirst z)"
        using zlayoutD(2) [OF lay pB] by simp
      from less.hyps [OF this pB] p acap zset_next [of "bprev z a" z] show ?thesis by simp
    qed
  qed
  then show "B \<subseteq> zset z" by blast
qed

lemma zone_okI: "zone_inv B z \<Longrightarrow> aligned B z \<Longrightarrow> zone_ok z"
  using zset_eq by (simp add: zone_ok_def)

lemma heap_inv: "zone_inv B z \<Longrightarrow> heap z p = (if p - hdr z \<in> used B z
    then Some (bsize z (p - hdr z) - hdr z, btag z (p - hdr z), buser z (p - hdr z)) else None)"
  using zset_eq by (simp add: heap_def)

lemma aligned_subset:
  "aligned B z \<Longrightarrow> B' \<subseteq> B \<Longrightarrow> zarch z' = zarch z \<Longrightarrow> mainzone z' = mainzone z \<Longrightarrow> aligned B' z'"
  unfolding aligned_def by fastforce

text \<open>Blocks that are released disappear from the heap, the others stay as they were.\<close>

lemma heap_released:
  assumes "zone_inv B z" "zone_inv B' z'" "released B z B' z'"
  shows "heap z' = heap z |` {p. p - hdr z \<in> used B' z'}"
proof (rule ext)
  fix p
  have h: "hdr z' = hdr z" using assms(3) by (intro zconst_cong) (simp_all add: released_def)
  have "used B' z' \<subseteq> used B z" using assms(3) by (simp add: released_def)
  then show "heap z' p = (heap z |` {p. p - hdr z \<in> used B' z'}) p"
    using released_header [OF assms(3), of "p - hdr z"]
    by (auto simp: heap_inv [OF assms(1)] heap_inv [OF assms(2)] h restrict_map_def)
qed

lemma heap_SomeD:
  assumes "zone_ok z" "heap z p = Some (n, tag, user)"
  shows "p - hdr z \<in> zset z" "btag z (p - hdr z) = tag" "buser z (p - hdr z) = user"
    "bsize z (p - hdr z) = n + hdr z" "tag \<noteq> PU_FREE" "p - hdr z \<in> used (zset z) z"
  using assms by (auto simp: heap_def used_def split: if_splits)

section \<open>Freeing\<close>

lemma Z_Free_refines:
  assumes z: "zone_ok z" and p: "heap z p = Some (n, tag, user)"
  shows "\<exists>z'. Z_Free p z = Inr z' \<and> zone_ok z' \<and> heap z' = (heap z)(p := None) \<and>
     zcells z' = (case user of Some u \<Rightarrow> (zcells z)(u := 0) | None \<Rightarrow> zcells z) \<and> bid z' (p - hdr z') \<noteq> ZONEID"
proof -
  let ?B = "zset z" and ?a = "p - hdr z"
  have zi: "zone_inv ?B z" and al: "aligned ?B z" using z by (simp_all add: zone_ok_def)
  note h = heap_SomeD [OF z p]
  have nf: "btag z ?a \<noteq> PU_FREE" using h(2,5) by simp
  obtain z' B' m where zf: "Z_Free (?a + hdr z) z = Inr z'" and f: "freed ?a ?B z B' z' m"
    using Z_Free_freed [OF zi h(1) nf] by blast
  note rel = freed_released [OF zi h(1) nf f] and zi' = freedD(1) [OF f]
  have "heap z' = heap z |` {q. q - hdr z \<in> used ?B z - {?a}}"
    using heap_released [OF zi zi' rel] freed_used [OF f] by simp
  also have "\<dots> = (heap z)(p := None)"
    by (rule ext) (auto simp: restrict_map_def heap_inv [OF zi])
  finally have "heap z' = (heap z)(p := None)" .
  moreover have "zone_ok z'" using zone_okI [OF zi'] aligned_subset [OF al freedD(2,8,9) [OF f]] by blast
  moreover have "zcells z' = (case user of Some u \<Rightarrow> (zcells z)(u := 0) | None \<Rightarrow> zcells z)"
    using freedD(7) [OF f] h(3) by simp
  moreover have "bid z' (p - hdr z') \<noteq> ZONEID" using freedD(14) [OF f] freed_const(2) [OF f] by (simp add: ZONEID_def)
  ultimately show ?thesis using zf by auto
qed

section \<open>Allocating\<close>

text \<open>The cells of the owners after an allocation that left the pointers in \<open>K\<close>.\<close>

definition cells_after :: "(int \<rightharpoonup> int \<times> int \<times> int option) \<Rightarrow> int set \<Rightarrow> (int \<Rightarrow> int) \<Rightarrow> int \<Rightarrow> int" where
  "cells_after h K c u =
     (if \<exists>q\<in>dom h - K. \<exists>n tag. h q = Some (n, tag, Some u) then 0 else c u)"

lemma released_cells:
  assumes "zone_inv B z" "released B z B' z'"
  shows "zcells z' = cells_after (heap z) {p. p - hdr z \<in> used B' z'} (zcells z)"
proof (rule ext)
  fix u
  have "(\<exists>b\<in>used B z - used B' z'. buser z b = Some u) \<longleftrightarrow>
        (\<exists>q\<in>dom (heap z) - {p. p - hdr z \<in> used B' z'}. \<exists>n tag. heap z q = Some (n, tag, Some u))"
  proof
    assume "\<exists>b\<in>used B z - used B' z'. buser z b = Some u"
    then obtain b where "b \<in> used B z - used B' z'" "buser z b = Some u" by blast
    then show "\<exists>q\<in>dom (heap z) - {p. p - hdr z \<in> used B' z'}. \<exists>n tag. heap z q = Some (n, tag, Some u)"
      by (intro bexI [of _ "b + hdr z"]) (auto simp: heap_inv [OF assms(1)])
  next
    assume "\<exists>q\<in>dom (heap z) - {p. p - hdr z \<in> used B' z'}. \<exists>n tag. heap z q = Some (n, tag, Some u)"
    then show "\<exists>b\<in>used B z - used B' z'. buser z b = Some u"
      by (auto simp: heap_inv [OF assms(1)] split: if_splits)
  qed
  then show "zcells z' u = cells_after (heap z) {p. p - hdr z \<in> used B' z'} (zcells z) u"
    using assms(2) by (simp add: released_def cells_after_def)
qed

text \<open>Pointers that must survive an allocation: those of blocks that are not purgable.\<close>

definition kept :: "(int \<rightharpoonup> int \<times> int \<times> int option) \<Rightarrow> int set" where
  "kept h = {q. \<exists>n tag user. h q = Some (n, tag, user) \<and> tag < PU_PURGELEVEL}"

definition allocated ::
  "int \<Rightarrow> int \<Rightarrow> int option \<Rightarrow> zone \<Rightarrow> int \<Rightarrow> zone \<Rightarrow> bool" where
  "allocated sz tag user z p z' \<longleftrightarrow>
     (\<exists>K n. kept (heap z) \<subseteq> K \<and> K \<subseteq> dom (heap z) \<and> p \<notin> K \<and> sz \<le> n \<and>
        heap z' = (heap z |` K)(p \<mapsto> (n, tag, user)) \<and>
        zcells z' = (case user of None \<Rightarrow> cells_after (heap z) K (zcells z)
                     | Some u \<Rightarrow> (cells_after (heap z) K (zcells z))(u := p)))"

lemma Z_Malloc_refines:
  assumes z: "zone_ok z" and sz: "0 \<le> sz" "sz \<le> INT_MAX - 64"
    and tag: "tag \<noteq> PU_FREE" "PU_PURGELEVEL \<le> tag \<longrightarrow> user \<noteq> None"
  shows "(\<exists>p z'. Z_Malloc sz tag user z = Some (Inr (p, z')) \<and> zone_ok z' \<and> allocated sz tag user z p z') \<or>
     (Z_Malloc sz tag user z = Some (Inl alloc_failed) \<and> (\<forall>n\<in>free_sizes z. n < alloc_size (zarch z) sz))"
proof -
  let ?B = "zset z" and ?s = "alloc_size (zarch z) sz"
  have zi: "zone_inv ?B z" and al: "aligned ?B z" using z by (simp_all add: zone_ok_def)
  note asz = alloc_size_bounds [OF sz, of "zarch z"]
  from Z_Malloc_ok [where sz = sz, OF zi tag(2)] show ?thesis
  proof (elim disjE exE conjE)
    assume "Z_Malloc sz tag user z = Some (Inl alloc_failed)"
      "\<forall>f\<in>?B. btag z f = PU_FREE \<longrightarrow> bsize z f < ?s"
    then show ?thesis by (auto simp: free_sizes_def)
  next
    fix z1 B1 base
    let ?z' = "hand_out ?s tag user base z1" and ?B' = "cut_set base ?s B1 z1"
    assume z1: "zone_inv B1 z1" and pu: "purged ?B z B1 z1" and base: "base \<in> B1" "btag z1 base = PU_FREE"
      and big: "?s \<le> bsize z1 base" and r: "Z_Malloc sz tag user z = Some (Inr (base + hdr z, ?z'))"
    have rel: "released ?B z B1 z1" using pu by (simp add: purged_def)
    have c1: "zarch z1 = zarch z" "mainzone z1 = mainzone z" "zsize z1 = zsize z" "B1 \<subseteq> ?B"
      using rel by (simp_all add: released_def)
    have h1: "hdr z1 = hdr z" by (rule zconst_cong) (simp_all add: c1)
    have "hdr z1 \<le> ?s" unfolding h1 using asz(4) by (simp add: hdr_def)
    note ho = hand_out_ok [OF z1 base this big tag]
    have fld: "zarch ?z' = zarch z" "mainzone ?z' = mainzone z" by (simp_all add: hand_out_fields c1)
    have h': "hdr ?z' = hdr z" by (simp add: hand_out_const h1)
    have "aligned ?B' ?z'"
    proof -
      have "MEM_ALIGN (zarch z) dvd base + ?s - mainzone z"
        using al base(1) c1(4) asz(3) unfolding aligned_def
        by (metis (no_types, opaque_lifting) add_diff_eq add.commute dvd_add subsetD)
      then show ?thesis using aligned_subset [OF al c1(4) refl refl] fld
        by (auto simp: cut_set_def aligned_def)
    qed
    then have "zone_ok ?z'" by (rule zone_okI [OF ho(1)])
    moreover have "allocated sz tag user z (base + hdr z) ?z'"
    proof -
      let ?K = "{q. q - hdr z \<in> used B1 z1}" and ?n = "bsize ?z' base - hdr z"
      have nu: "base \<notin> used B1 z1" using base(2) by (simp add: used_def)
      have hr: "heap z |` ?K = heap z1" using heap_released [OF zi z1 rel] by simp
      have "kept (heap z) \<subseteq> ?K"
        using pu by (force simp: kept_def heap_inv [OF zi] purged_def split: if_splits)
      moreover have "?K \<subseteq> dom (heap z)" using rel by (auto simp: heap_inv [OF zi] released_def)
      moreover have "sz \<le> ?n" using ho(3) asz(1) by (simp add: hdr_def)
      moreover have "heap ?z' = (heap z |` ?K)(base + hdr z \<mapsto> (?n, tag, user))"
      proof (rule ext)
        fix q
        show "heap ?z' q = ((heap z |` ?K)(base + hdr z \<mapsto> (?n, tag, user))) q"
        proof (cases "q = base + hdr z")
          case True
          then show ?thesis
            using ho(2) by (simp add: heap_inv [OF ho(1)] h' hand_out_fields)
        next
          case False
          then have "q - hdr z \<noteq> base" by linarith
          with False ho(4) [of "q - hdr z"] show ?thesis
            by (simp add: hr heap_inv [OF ho(1)] heap_inv [OF z1] h' h1 ho(2))
        qed
      qed
      moreover have "zcells ?z' = (case user of None \<Rightarrow> cells_after (heap z) ?K (zcells z)
                     | Some u \<Rightarrow> (cells_after (heap z) ?K (zcells z))(u := base + hdr z))"
        by (cases user) (simp_all add: hand_out_fields released_cells [OF zi rel] h1)
      ultimately show ?thesis unfolding allocated_def using nu by (intro exI [of _ ?K] exI [of _ ?n]) simp
    qed
    ultimately show ?thesis using r by blast
  qed
qed

section \<open>Walking the list\<close>

definition tail :: "int set \<Rightarrow> zone \<Rightarrow> int \<Rightarrow> int set" where
  "tail B z blk = (if blk = blocklist z then {} else {a \<in> B. blk \<le> a})"

lemma zone_walk_induct [consumes 2, case_names cap block]:
  assumes z: "zstruct B z" and a: "a \<in> insert (blocklist z) B"
    and cap: "P (blocklist z)" and block: "\<And>a. a \<in> B \<Longrightarrow> P (bnext z a) \<Longrightarrow> P a"
  shows "P a"
  using a
proof (induction "nat (if a = blocklist z then 0 else zend z - a)" arbitrary: a rule: less_induct)
  case less
  have lay: "zlayout B z" and lnk: "zlinks B z" using z by (simp_all add: zstruct_def)
  show ?case
  proof (cases "a = blocklist z")
    case False
    with less.prems have aB: "a \<in> B" by simp
    have "a < zend z" using member_bounds [OF z, of a] aB by simp
    then have "nat (if bnext z a = blocklist z then 0 else zend z - bnext z a) <
          nat (if a = blocklist z then 0 else zend z - a)"
      using bnext_greater [OF lnk lay aB] False by simp
    from less.hyps [OF this] zstruct_next_in [OF z, of a] aB block [OF aB] show ?thesis by simp
  qed (use cap in simp)
qed

lemma tail_next:
  assumes z: "zstruct B z" and a: "a \<in> B"
  shows "tail B z a = insert a (tail B z (bnext z a))" "a \<notin> tail B z (bnext z a)" "finite (tail B z a)"
proof -
  have lay: "zlayout B z" and lnk: "zlinks B z" using z by (simp_all add: zstruct_def)
  have acap: "a \<noteq> blocklist z" using a cap_notin [OF lay] by blast
  have o: "b \<in> B \<longrightarrow> a \<le> b \<longrightarrow> b = a \<or> a + bsize z a \<le> b" for b
    using zlayout_no_overlap [OF lay a, of b] by (cases "a < b") auto
  have lt: "b \<in> B \<Longrightarrow> b < zend z" for b using member_bounds [OF z, of b] by simp
  have p: "0 < bsize z a" by (rule zlayoutD(5) [OF lay a])
  have n: "bnext z a = blocklist z \<and> a + bsize z a = zend z \<or> bnext z a \<noteq> blocklist z \<and> bnext z a = a + bsize z a"
    using zlinks_next [OF lnk a] cap_notin [OF lay] by metis
  show "finite (tail B z a)" using lay by (simp add: tail_def zlayout_def)
  show "a \<notin> tail B z (bnext z a)" using n p by (auto simp: tail_def)
  show "tail B z a = insert a (tail B z (bnext z a))"
  proof (rule set_eqI)
    fix b
    show "b \<in> tail B z a \<longleftrightarrow> b \<in> insert a (tail B z (bnext z a))"
      using n p o [of b] lt [of b] a acap by (auto simp: tail_def)
  qed
qed

lemma sum_tail:
  assumes z: "zstruct B z" and a: "a \<in> insert (blocklist z) B"
  shows "sum (bsize z) (tail B z a) = (if a = blocklist z then 0 else zend z - a)"
  using z a
proof (induction rule: zone_walk_induct)
  case (block a)
  have lay: "zlayout B z" and lnk: "zlinks B z" using z by (simp_all add: zstruct_def)
  have "finite (tail B z (bnext z a))" using lay by (simp add: tail_def zlayout_def)
  then have "sum (bsize z) (tail B z a) = bsize z a + sum (bsize z) (tail B z (bnext z a))"
    using tail_next [OF z block.hyps] by simp
  moreover have "a \<noteq> blocklist z" using block.hyps cap_notin [OF lay] by blast
  moreover have "blocklist z \<notin> B" by (rule cap_notin [OF lay])
  ultimately show ?case using block zlinks_next [OF lnk block.hyps] by auto
qed (simp add: tail_def)

lemma tail_first: "zstruct B z \<Longrightarrow> tail B z (bnext z (blocklist z)) = B \<and> bnext z (blocklist z) \<in> B"
  using blocklist_less [of z] unfolding zstruct_def zlinks_def zlayout_def tail_def by auto

lemma Z_CheckHeap_loop_ok:
  assumes z: "zone_inv B z" and a: "a \<in> insert (blocklist z) B"
  shows "a \<noteq> blocklist z \<longrightarrow> Z_CheckHeap_loop a z = Some (Inr ())"
proof -
  have st: "zstruct B z" and adj: "no_adjacent_free B z" and lnk: "zlinks B z" and lay: "zlayout B z"
    using z by (simp_all add: zone_inv_def zstruct_def)
  show ?thesis
    using st a
  proof (induction rule: zone_walk_induct)
    case (block a)
    have "bprev z (bnext z a) = a" using zlinks_prev_next [OF lnk] block.hyps by blast
    moreover have "\<not> (btag z a = PU_FREE \<and> btag z (bnext z a) = PU_FREE)"
      using adj block.hyps by (auto simp: no_adjacent_free_def)
    moreover have "bnext z a = blocklist z \<or> a + bsize z a = bnext z a"
      using zlinks_next [OF lnk block.hyps] by auto
    ultimately show ?case using block.IH by (subst Z_CheckHeap_loop.simps) (auto simp: Let_def)
  qed simp
qed

lemma Z_FreeMemory_loop_ok:
  assumes st: "zstruct B z" and a: "a \<in> insert (blocklist z) B"
  shows "0 \<le> acc \<longrightarrow> (a \<noteq> blocklist z \<longrightarrow> acc \<le> a - zfirst z) \<longrightarrow>
    Z_FreeMemory_loop acc a z =
      Some (acc + sum (bsize z) {b \<in> tail B z a. btag z b = PU_FREE \<or> PU_PURGELEVEL \<le> btag z b})"
  using st a
proof (induction arbitrary: acc rule: zone_walk_induct)
  case cap
  then show ?case by (simp add: Z_FreeMemory_loop.simps tail_def)
next
  case (block a)
  have lay: "zlayout B z" and lnk: "zlinks B z" using st by (simp_all add: zstruct_def)
  have acap: "a \<noteq> blocklist z" using block.hyps cap_notin [OF lay] by blast
  let ?c = "\<lambda>b. btag z b = PU_FREE \<or> PU_PURGELEVEL \<le> btag z b"
  let ?acc = "if ?c a then acc + bsize z a else acc"
  show ?case
  proof (intro impI)
    assume acc: "0 \<le> acc" "a \<noteq> blocklist z \<longrightarrow> acc \<le> a - zfirst z"
    have b: "0 < bsize z a" "a + bsize z a \<le> zend z" using zlayoutD [OF lay block.hyps] by auto
    have e: "zend z - zfirst z \<le> INT_MAX"
      using lay by (cases "zarch z") (simp_all add: zlayout_def zend_def zfirst_def)
    have "is_i32 (acc + bsize z a)" using acc acap b e by (simp add: is_i32_def INT_MIN_def)
    then have l: "Z_FreeMemory_loop acc a z = Z_FreeMemory_loop ?acc (bnext z a) z"
      using acap by (subst Z_FreeMemory_loop.simps) (simp add: i32_id)
    have "0 \<le> ?acc" "bnext z a \<noteq> blocklist z \<longrightarrow> ?acc \<le> bnext z a - zfirst z"
      using acc acap b zlinks_next [OF lnk block.hyps] by auto
    with block.IH have r: "Z_FreeMemory_loop ?acc (bnext z a) z =
        Some (?acc + sum (bsize z) {b \<in> tail B z (bnext z a). ?c b})" by blast
    note t = tail_next [OF st block.hyps]
    have fin: "finite {b \<in> tail B z (bnext z a). ?c b}" using t(1,3) by (simp add: finite_subset)
    have "{b \<in> tail B z a. ?c b} = (if ?c a then insert a {b \<in> tail B z (bnext z a). ?c b} else {b \<in> tail B z (bnext z a). ?c b})"
      unfolding t(1) by auto
    then show "Z_FreeMemory_loop acc a z = Some (acc + sum (bsize z) {b \<in> tail B z a. ?c b})"
      unfolding l r using fin t(2) by simp
  qed
qed

section \<open>Freeing by tag\<close>

text \<open>
  The loop of \<open>Z_FreeTags\<close> has read \<open>next\<close> before it frees the block. If that next block
  was free, it is merged, and the loop goes on from a header that is no longer a
  block; that header still says \<open>PU_FREE\<close> and still points to the right place.
\<close>

lemma Z_FreeTags_after_free:
  assumes f: "freed a B z B' z' m"
  shows "Z_FreeTags_loop lo hi (bnext z a) z' = Z_FreeTags_loop lo hi (bnext z' m) z'"
  using freedD(11) [OF f]
proof (elim disjE conjE)
  assume "btag z' (bnext z a) = PU_FREE" "bnext z a \<noteq> blocklist z" "bnext z' (bnext z a) = bnext z' m"
  then show ?thesis
    using freed_const(1) [OF f] by (subst Z_FreeTags_loop.simps) (simp add: Let_def)
qed simp

lemma Z_FreeTags_loop_end: "Z_FreeTags_loop lo hi (blocklist z) z = Some (Inr z)"
  by (subst Z_FreeTags_loop.simps) simp

lemma freed_tail:
  assumes st: "zstruct B z" and a: "a \<in> B" and f: "freed a B z B' z' m"
  shows "{b \<in> tail B' z' (bnext z' m). btag z' b \<noteq> PU_FREE} = {b \<in> tail B z a. btag z b \<noteq> PU_FREE} - {a}"
proof (rule set_eqI)
  fix b
  have st': "zstruct B' z'" using freedD(1) [OF f] by (simp add: zone_inv_def)
  have acap: "a \<noteq> blocklist z" using a st cap_notin [of B z] by (auto simp: zstruct_def)
  have sz: "0 < bsize z a" using st a zlayoutD(5) [of B z a] by (simp add: zstruct_def)
  note m = freedD(3,4,12,13) [OF f]
  have t: "tail B' z' m = insert m (tail B' z' (bnext z' m))" "m \<notin> tail B' z' (bnext z' m)"
    using tail_next [OF st' m(1)] by auto
  have mcap: "m \<noteq> blocklist z'" using m(1) st' cap_notin [of B' z'] by (auto simp: zstruct_def)
  show "b \<in> {b \<in> tail B' z' (bnext z' m). btag z' b \<noteq> PU_FREE} \<longleftrightarrow>
        b \<in> {b \<in> tail B z a. btag z b \<noteq> PU_FREE} - {a}"
  proof (cases "b = a \<or> b = m \<or> btag z b = PU_FREE")
    case True
    then show ?thesis using freedD(5) [OF f] m(2) freed_other [OF f, of b] t(2) by (cases "b = a") auto
  next
    case False
    then have u: "btag z' b = btag z b" "b \<in> B' \<longleftrightarrow> b \<in> B"
      using freed_other [OF f, of b] freed_gone [OF f, of b] freedD(2) [OF f] by auto
    have "b \<in> tail B' z' (bnext z' m) \<longleftrightarrow> b \<in> tail B' z' m" using False t by auto
    also have "\<dots> \<longleftrightarrow> b \<in> B \<and> m \<le> b" using u(2) mcap by (simp add: tail_def)
    also have "\<dots> \<longleftrightarrow> b \<in> B \<and> a \<le> b"
      using outside_block [OF st' m(1), of b] False u(2) m(3,4) sz by auto
    finally show ?thesis using False u(1) acap by (simp add: tail_def)
  qed
qed

lemma Z_FreeTags_loop_ok:
  assumes "zone_inv B z" "a \<in> insert (blocklist z) B"
  shows "\<exists>z' B'. Z_FreeTags_loop lo hi a z = Some (Inr z') \<and> zone_inv B' z' \<and> released B z B' z' \<and>
     used B' z' = used B z - {b \<in> tail B z a. lo \<le> btag z b \<and> btag z b \<le> hi}"
  using assms
proof (induction "nat (if a = blocklist z then 0 else zend z - a)" arbitrary: a B z rule: less_induct)
  case less
  have st: "zstruct B z" and lay: "zlayout B z" and lnk: "zlinks B z"
    using less.prems(1) by (simp_all add: zone_inv_def zstruct_def)
  show ?case
  proof (cases "a = blocklist z")
    case True
    then show ?thesis using less.prems(1) released_refl [of B z]
      by (auto simp: Z_FreeTags_loop_end tail_def)
  next
    case False
    with less.prems have aB: "a \<in> B" by simp
    have az: "a < zend z" using member_bounds [OF st, of a] aB by simp
    note t = tail_next [OF st aB]
    show ?thesis
    proof (cases "btag z a \<noteq> PU_FREE \<and> lo \<le> btag z a \<and> btag z a \<le> hi")
      case skip: False
      have "nat (if bnext z a = blocklist z then 0 else zend z - bnext z a) <
            nat (if a = blocklist z then 0 else zend z - a)"
        using bnext_greater [OF lnk lay aB] False az by simp
      from less.hyps [OF this less.prems(1)] zstruct_next_in [OF st, of a] aB
      obtain z' B' where ih: "Z_FreeTags_loop lo hi (bnext z a) z = Some (Inr z')" "zone_inv B' z'" "released B z B' z'"
        "used B' z' = used B z - {b \<in> tail B z (bnext z a). lo \<le> btag z b \<and> btag z b \<le> hi}"
        by blast
      have "used B z - {b \<in> tail B z (bnext z a). lo \<le> btag z b \<and> btag z b \<le> hi} =
            used B z - {b \<in> tail B z a. lo \<le> btag z b \<and> btag z b \<le> hi}"
        using skip unfolding t(1) used_def by auto
      moreover have "Z_FreeTags_loop lo hi a z = Some (Inr z')"
        using skip False ih(1) by (subst Z_FreeTags_loop.simps) (auto simp: Let_def)
      ultimately show ?thesis using ih(2-4) by auto
    next
      case True
      obtain z1 B1 m where zf: "Z_Free (a + hdr z) z = Inr z1" and f: "freed a B z B1 z1 m"
        using Z_Free_freed [OF less.prems(1) aB] True by blast
      have st1: "zstruct B1 z1" using freedD(1) [OF f] by (simp add: zone_inv_def)
      have sz: "0 < bsize z a" by (rule zlayoutD(5) [OF lay aB])
      have nx: "bnext z1 m \<in> insert (blocklist z1) B1"
        using zstruct_next_in [OF st1, of m] freedD(3) [OF f] by simp
      have "bnext z1 m = blocklist z1 \<or> bnext z1 m = m + bsize z1 m"
        using zlinks_next [of B1 z1 m] st1 freedD(3) [OF f] by (auto simp: zstruct_def)
      then have "nat (if bnext z1 m = blocklist z1 then 0 else zend z1 - bnext z1 m) <
            nat (if a = blocklist z then 0 else zend z - a)"
        using False az sz freedD(13) [OF f] freed_const(4) [OF f] by auto
      from less.hyps [OF this freedD(1) [OF f] nx]
      obtain z' B' where ih: "Z_FreeTags_loop lo hi (bnext z1 m) z1 = Some (Inr z')" "zone_inv B' z'" "released B1 z1 B' z'"
        "used B' z' = used B1 z1 - {b \<in> tail B1 z1 (bnext z1 m). lo \<le> btag z1 b \<and> btag z1 b \<le> hi}"
        by blast
      have "used B' z' = used B z - {b \<in> tail B z a. lo \<le> btag z b \<and> btag z b \<le> hi}"
      proof (rule set_eqI)
        fix b
        show "b \<in> used B' z' \<longleftrightarrow> b \<in> used B z - {b \<in> tail B z a. lo \<le> btag z b \<and> btag z b \<le> hi}"
        proof (cases "b = a")
          case True' : True
          then show ?thesis using ih(4) freed_used [OF f] True t(1) by auto
        next
          case b: False
          have "b \<in> {b \<in> tail B1 z1 (bnext z1 m). btag z1 b \<noteq> PU_FREE} \<longleftrightarrow>
                b \<in> {b \<in> tail B z a. btag z b \<noteq> PU_FREE} - {a}"
            by (simp only: freed_tail [OF st aB f])
          then have "btag z b \<noteq> PU_FREE \<longrightarrow> b \<in> tail B1 z1 (bnext z1 m) \<longleftrightarrow> b \<in> tail B z a"
            using freed_other [OF f b] b by auto
          then show ?thesis using ih(4) freed_used [OF f] freed_other [OF f b] b by (auto simp: used_def)
        qed
      qed
      moreover have "Z_FreeTags_loop lo hi a z = Some (Inr z')"
        using True False ih(1) zf Z_FreeTags_after_free [OF f] by (subst Z_FreeTags_loop.simps) (simp add: Let_def)
      moreover have "released B z B' z'"
        using released_trans [OF freed_released [OF less.prems(1) aB _ f] ih(3)] True by blast
      ultimately show ?thesis using ih(2) by blast
    qed
  qed
qed

section \<open>The other operations\<close>

lemma Z_Init_ok:
  assumes "sizeof_memzone arch + sizeof_memblock arch \<le> sz" "sz \<le> INT_MAX"
  shows "zone_inv {base + sizeof_memzone arch} (Z_Init arch base sz mem cells)"
    and "aligned {base + sizeof_memzone arch} (Z_Init arch base sz mem cells)"
    and "heap (Z_Init arch base sz mem cells) = Map.empty"
proof -
  let ?z = "Z_Init arch base sz mem cells" and ?a = "base + sizeof_memzone arch"
  have pos: "0 < sizeof_memzone arch" "sizeof_ptr arch \<noteq> sizeof_memzone arch" "0 < sizeof_memblock arch"
    by (cases arch; simp)+
  have i: "is_i32 (sz - sizeof_memzone arch)"
    using assms pos by (simp add: is_i32_def INT_MIN_def)
  have c: "zarch ?z = arch" "mainzone ?z = base" "zsize ?z = sz" "rover ?z = ?a"
    by (simp_all add: Z_Init_def Let_def)
  have cap: "blocklist ?z = base + sizeof_ptr arch" by (simp add: blocklist_def c)
  have d: "zfirst ?z = ?a" "zend ?z = base + sz" "hdr ?z = sizeof_memblock arch"
    by (simp_all add: zfirst_def zend_def hdr_def c)
  have f: "bsize ?z ?a = sz - sizeof_memzone arch" "bnext ?z ?a = base + sizeof_ptr arch"
    "bprev ?z ?a = base + sizeof_ptr arch" "btag ?z ?a = PU_FREE"
    "bnext ?z (base + sizeof_ptr arch) = ?a" "bprev ?z (base + sizeof_ptr arch) = ?a"
    "btag ?z (base + sizeof_ptr arch) = PU_STATIC"
    using pos by (simp_all add: Z_Init_def Let_def blocklist_def i32_id [OF i])
  show inv: "zone_inv {?a} ?z"
    using assms pos unfolding zone_inv_def zstruct_def zlayout_def zlinks_def zmarks_def no_adjacent_free_def cap d c
    by (simp add: f PU_defs)
  show "aligned {?a} ?z" unfolding aligned_def c by (cases arch) simp_all
  show "heap ?z = Map.empty" by (rule ext) (simp add: heap_inv [OF inv] used_def f)
qed

text \<open>Changing the tag or the owner of a block leaves the list as it is.\<close>

lemma retag_inv:
  assumes z: "zone_inv B z" and a: "a \<in> used B z" and t: "tag \<noteq> PU_FREE"
    and o: "PU_PURGELEVEL \<le> tag \<longrightarrow> user \<noteq> None"
    and z': "z' = (upd a (\<lambda>b. b\<lparr>mb_tag := tag, mb_user := user\<rparr>) z)\<lparr>zcells := c\<rparr>"
  shows "zone_inv B z'" "used B z' = used B z"
    "heap z' = (heap z)(a + hdr z \<mapsto> (bsize z a - hdr z, tag, user))"
proof -
  have aB: "a \<in> B" "btag z a \<noteq> PU_FREE" using a by (simp_all add: used_def)
  have f: "bsize z' b = bsize z b" "bnext z' b = bnext z b" "bprev z' b = bprev z b" "bid z' b = bid z b"
    "btag z' b = (if b = a then tag else btag z b)" "buser z' b = (if b = a then user else buser z b)"
    "zarch z' = zarch z" "mainzone z' = mainzone z" "zsize z' = zsize z" "rover z' = rover z" for b
    by (simp_all add: z')
  note cn = zconst_cong [OF f(7-9)]
  have capn: "blocklist z \<noteq> a" using aB(1) z cap_notin [of B z] by (auto simp: zone_inv_def zstruct_def)
  have "zlayout B z'" "zlinks B z'"
    using z zlayout_cong [of z' z] zlinks_cong [of z' z] f by (simp_all add: zone_inv_def zstruct_def)
  moreover have "zmarks B z'"
    using z aB capn t o unfolding zone_inv_def zstruct_def zmarks_def cn f by auto
  moreover have "no_adjacent_free B z'"
    using z aB t unfolding zone_inv_def no_adjacent_free_def f by auto
  ultimately show inv: "zone_inv B z'" by (simp add: zone_inv_def zstruct_def)
  show u: "used B z' = used B z" using t aB unfolding used_def f by auto
  show "heap z' = (heap z)(a + hdr z \<mapsto> (bsize z a - hdr z, tag, user))"
    by (rule ext) (use a in \<open>auto simp: heap_inv [OF inv] heap_inv [OF z] u cn f\<close>)
qed

lemma Z_ChangeTag2_ok:
  assumes z: "zone_ok z" and p: "heap z p = Some (n, t, user)" and tag: "tag \<noteq> PU_FREE"
  shows "if PU_PURGELEVEL \<le> tag \<and> user = None
    then Z_ChangeTag2 p tag z = Inl (I_Error ''Z_ChangeTag: an owner is required for purgable blocks'')
    else \<exists>z'. Z_ChangeTag2 p tag z = Inr z' \<and> zone_ok z' \<and> heap z' = (heap z)(p \<mapsto> (n, tag, user)) \<and> zcells z' = zcells z"
proof -
  let ?a = "p - hdr z"
  have zi: "zone_inv (zset z) z" and al: "aligned (zset z) z" using z by (simp_all add: zone_ok_def)
  note h = heap_SomeD [OF z p]
  have idz: "bid z ?a = ZONEID" using zi h by (auto simp: zone_inv_def zstruct_def zmarks_def)
  let ?z = "upd ?a (\<lambda>b. b\<lparr>mb_tag := tag\<rparr>) z"
  have eq: "?z = (upd ?a (\<lambda>b. b\<lparr>mb_tag := tag, mb_user := user\<rparr>) z)\<lparr>zcells := zcells z\<rparr>"
    using h(3) by (cases "zmem z ?a") (simp add: upd_def)
  show ?thesis
  proof (cases "PU_PURGELEVEL \<le> tag \<and> user = None")
    case True
    then show ?thesis using idz h(3) by (simp add: Z_ChangeTag2_def)
  next
    case False
    then have "PU_PURGELEVEL \<le> tag \<longrightarrow> user \<noteq> None" by auto
    note r = retag_inv [OF zi h(6) tag this eq]
    have "heap ?z = (heap z)(p \<mapsto> (n, tag, user))" using r(3) h(4) by simp
    moreover have "zone_ok ?z" using zone_okI [OF r(1)] al by (simp add: aligned_def)
    ultimately show ?thesis using False idz h(3) by (auto simp: Z_ChangeTag2_def)
  qed
qed

lemma Z_ChangeUser_ok:
  assumes z: "zone_ok z" and p: "heap z p = Some (n, t, user)"
  shows "\<exists>z'. Z_ChangeUser p u z = Inr z' \<and> zone_ok z' \<and> heap z' = (heap z)(p \<mapsto> (n, t, Some u)) \<and>
     zcells z' = (zcells z)(u := p)"
proof -
  let ?a = "p - hdr z"
  have zi: "zone_inv (zset z) z" and al: "aligned (zset z) z" using z by (simp_all add: zone_ok_def)
  note h = heap_SomeD [OF z p]
  have idz: "bid z ?a = ZONEID" using zi h by (auto simp: zone_inv_def zstruct_def zmarks_def)
  let ?z = "(upd ?a (\<lambda>b. b\<lparr>mb_user := Some u\<rparr>) z)\<lparr>zcells := (zcells z)(u := p)\<rparr>"
  have eq: "?z = (upd ?a (\<lambda>b. b\<lparr>mb_tag := t, mb_user := Some u\<rparr>) z)\<lparr>zcells := (zcells z)(u := p)\<rparr>"
    using h(2) by (cases "zmem z ?a") (simp add: upd_def)
  note r = retag_inv [OF zi h(6,5) _ eq]
  have "heap ?z = (heap z)(p \<mapsto> (n, t, Some u))" using r(3) h(4) by simp
  moreover have "zone_ok ?z" using zone_okI [OF r(1)] al by (simp add: aligned_def)
  ultimately show ?thesis using idz by (auto simp: Z_ChangeUser_def Let_def)
qed

lemma Z_FreeTags_refines:
  assumes z: "zone_ok z"
  shows "\<exists>z' K. Z_FreeTags lo hi z = Some (Inr z') \<and> zone_ok z' \<and>
     K = {p. \<exists>n t user. heap z p = Some (n, t, user) \<and> \<not> (lo \<le> t \<and> t \<le> hi)} \<and>
     heap z' = heap z |` K \<and> zcells z' = cells_after (heap z) K (zcells z)"
proof -
  have zi: "zone_inv (zset z) z" and al: "aligned (zset z) z" using z by (simp_all add: zone_ok_def)
  have st: "zstruct (zset z) z" using zi by (simp add: zone_inv_def)
  note t = tail_first [OF st]
  obtain z' B' where l: "Z_FreeTags_loop lo hi (bnext z (blocklist z)) z = Some (Inr z')" and z': "zone_inv B' z'"
    and rel: "released (zset z) z B' z'"
    and u: "used B' z' = used (zset z) z - {b \<in> zset z. lo \<le> btag z b \<and> btag z b \<le> hi}"
    using Z_FreeTags_loop_ok [OF zi, of "bnext z (blocklist z)" lo hi] t by auto
  let ?K = "{p. \<exists>n t user. heap z p = Some (n, t, user) \<and> \<not> (lo \<le> t \<and> t \<le> hi)}"
  have K: "{p. p - hdr z \<in> used B' z'} = ?K"
    unfolding u by (auto simp: heap_inv [OF zi] used_def split: if_splits)
  have "zone_ok z'"
    using zone_okI [OF z'] aligned_subset [OF al] rel by (simp add: released_def)
  then show ?thesis
    using l heap_released [OF zi z' rel] released_cells [OF zi rel] unfolding K by (simp add: Z_FreeTags_def)
qed

section \<open>The allocator as an interface\<close>

text \<open>
  What the rest of the game relies on. A client that allocates blocks that are not
  purgable may treat them as its own until it frees them.
\<close>

locale allocator =
  fixes ok :: "'z \<Rightarrow> bool"
    and blocks :: "'z \<Rightarrow> int \<rightharpoonup> int \<times> int \<times> int option"
    and alloc :: "int \<Rightarrow> int \<Rightarrow> int option \<Rightarrow> 'z \<Rightarrow> (int \<times> 'z) result option"
    and release :: "int \<Rightarrow> 'z \<Rightarrow> 'z result"
  assumes alloc_law: "ok z \<Longrightarrow> 0 \<le> n \<Longrightarrow> n \<le> INT_MAX - 64 \<Longrightarrow> tag \<noteq> PU_FREE \<Longrightarrow>
      PU_PURGELEVEL \<le> tag \<longrightarrow> user \<noteq> None \<Longrightarrow>
      alloc n tag user z = Some (Inl alloc_failed) \<or>
      (\<exists>p z' K m. alloc n tag user z = Some (Inr (p, z')) \<and> ok z' \<and> kept (blocks z) \<subseteq> K \<and>
         p \<notin> K \<and> n \<le> m \<and> blocks z' = (blocks z |` K)(p \<mapsto> (m, tag, user)))"
    and release_law: "ok z \<Longrightarrow> p \<in> dom (blocks z) \<Longrightarrow>
      \<exists>z'. release p z = Inr z' \<and> ok z' \<and> blocks z' = (blocks z)(p := None)"
    and disjoint_law: "ok z \<Longrightarrow> blocks z p = Some (n, t, u) \<Longrightarrow> blocks z q = Some (n', t', u') \<Longrightarrow>
      p \<noteq> q \<Longrightarrow> p + n \<le> q \<or> q + n' \<le> p"
begin

text \<open>An allocation that succeeds leaves every block alone that is not purgable.\<close>

lemma alloc_keeps:
  assumes "ok z" "0 \<le> n" "n \<le> INT_MAX - 64" "tag \<noteq> PU_FREE" "PU_PURGELEVEL \<le> tag \<longrightarrow> user \<noteq> None"
    and r: "alloc n tag user z = Some (Inr (p, z'))"
  shows "ok z'" "\<exists>m. blocks z' p = Some (m, tag, user) \<and> n \<le> m"
    "q \<in> kept (blocks z) \<Longrightarrow> q \<noteq> p \<and> blocks z' q = blocks z q"
proof -
  obtain K m where "ok z'" "kept (blocks z) \<subseteq> K" "p \<notin> K" "n \<le> m"
    "blocks z' = (blocks z |` K)(p \<mapsto> (m, tag, user))"
    using alloc_law [OF assms(1-5)] r by auto
  then show "ok z'" "\<exists>m. blocks z' p = Some (m, tag, user) \<and> n \<le> m"
    "q \<in> kept (blocks z) \<Longrightarrow> q \<noteq> p \<and> blocks z' q = blocks z q" by auto
qed

text \<open>A block is replaced by a bigger one: allocate, then free the old one.\<close>

lemma replace_block:
  assumes z: "ok z" "0 \<le> n" "n \<le> INT_MAX - 64" and tag: "tag \<noteq> PU_FREE" "PU_PURGELEVEL \<le> tag \<longrightarrow> user \<noteq> None"
    and r: "alloc n tag user z = Some (Inr (p, z'))" and old: "old \<in> kept (blocks z)"
  shows "\<exists>z'' m. release old z' = Inr z'' \<and> ok z'' \<and> blocks z'' p = Some (m, tag, user) \<and> n \<le> m \<and>
    blocks z'' old = None \<and> (\<forall>q\<in>kept (blocks z) - {old}. blocks z'' q = blocks z q)"
proof -
  note k = alloc_keeps [OF z tag r]
  obtain m where m: "blocks z' p = Some (m, tag, user)" "n \<le> m" using k(2) by blast
  have o: "old \<noteq> p" "old \<in> dom (blocks z')" using k(3) [OF old] old by (auto simp: kept_def)
  obtain z'' where "release old z' = Inr z''" "ok z''" "blocks z'' = (blocks z')(old := None)"
    using release_law [OF k(1) o(2)] by blast
  then show ?thesis using m o(1) k(3) by auto
qed

end

lemma heap_disjoint:
  assumes z: "zone_ok z" and p: "heap z p = Some (n, t, u)" and q: "heap z q = Some (n', t', u')" and ne: "p \<noteq> q"
  shows "p + n \<le> q - hdr z \<or> q + n' \<le> p - hdr z"
proof -
  have lay: "zlayout (zset z) z" using z by (simp add: zone_ok_def zone_inv_def zstruct_def)
  note P = heap_SomeD [OF z p] and Q = heap_SomeD [OF z q]
  show ?thesis
    using zlayout_no_overlap [OF lay P(1) Q(1)] zlayout_no_overlap [OF lay Q(1) P(1)] P(4) Q(4) ne by force
qed

lemma heap_inside:
  assumes z: "zone_ok z" and p: "heap z p = Some (n, t, u)"
  shows "mainzone z + sizeof_memzone (zarch z) + hdr z \<le> p" "p + n \<le> mainzone z + zsize z"
    "0 \<le> n" "MEM_ALIGN (zarch z) dvd p - mainzone z"
proof -
  have lay: "zlayout (zset z) z" and al: "aligned (zset z) z" using z by (simp_all add: zone_ok_def zone_inv_def zstruct_def)
  note P = heap_SomeD [OF z p]
  show "mainzone z + sizeof_memzone (zarch z) + hdr z \<le> p" "p + n \<le> mainzone z + zsize z" "0 \<le> n"
    using zlayoutD [OF lay P(1)] P(4) by (simp_all add: zfirst_def zend_def)
  have "MEM_ALIGN (zarch z) dvd p - hdr z - mainzone z" using al P(1) by (simp add: aligned_def)
  moreover have "MEM_ALIGN (zarch z) dvd hdr z" by (cases "zarch z") (simp_all add: hdr_def)
  ultimately have "MEM_ALIGN (zarch z) dvd (p - hdr z - mainzone z) + hdr z" by (rule dvd_add)
  then show "MEM_ALIGN (zarch z) dvd p - mainzone z" by (simp add: algebra_simps)
qed

interpretation zalloc: allocator zone_ok heap Z_Malloc Z_Free
proof unfold_locales
  fix z n tag and user :: "int option"
  assume "zone_ok z" "0 \<le> n" "n \<le> INT_MAX - 64" "tag \<noteq> PU_FREE" "PU_PURGELEVEL \<le> tag \<longrightarrow> user \<noteq> None"
  from Z_Malloc_refines [OF this] show "Z_Malloc n tag user z = Some (Inl alloc_failed) \<or>
      (\<exists>p z' K m. Z_Malloc n tag user z = Some (Inr (p, z')) \<and> zone_ok z' \<and> kept (heap z) \<subseteq> K \<and>
         p \<notin> K \<and> n \<le> m \<and> heap z' = (heap z |` K)(p \<mapsto> (m, tag, user)))"
    unfolding allocated_def by metis
next
  fix z p assume z: "zone_ok z" and "p \<in> dom (heap z)"
  then obtain n t u where "heap z p = Some (n, t, u)" by auto
  from Z_Free_refines [OF z this] show "\<exists>z'. Z_Free p z = Inr z' \<and> zone_ok z' \<and> heap z' = (heap z)(p := None)"
    by blast
next
  fix z p n t u q n' t' u'
  assume "zone_ok z" "heap z p = Some (n, t, u)" "heap z q = Some (n', t', u')" "p \<noteq> q"
  from heap_disjoint [OF this] show "p + n \<le> q \<or> q + n' \<le> p" using hdr_pos [of z] by linarith
qed

text \<open>The zone stays where it is.\<close>

lemma Z_Free_const:
  assumes "Z_Free p z = Inr z'"
  shows "zarch z' = zarch z" "mainzone z' = mainzone z" "zsize z' = zsize z"
proof -
  have m: "zarch (merge_blocks a b z) = zarch z" "mainzone (merge_blocks a b z) = mainzone z"
    "zsize (merge_blocks a b z) = zsize z" for a b z by (simp_all add: merge_blocks_def Let_def)
  have c: "zarch (mark_free b (clear_user b z)) = zarch z" "mainzone (mark_free b (clear_user b z)) = mainzone z"
    "zsize (mark_free b (clear_user b z)) = zsize z" for b z
    by (simp_all add: mark_free_def clear_user_def split: option.split)
  show "zarch z' = zarch z" "mainzone z' = mainzone z" "zsize z' = zsize z"
    using assms by (auto simp: Z_Free_def Let_def m c split: if_splits prod.splits)
qed

lemma Z_Malloc_const:
  assumes z: "zone_ok z" and own: "PU_PURGELEVEL \<le> tag \<longrightarrow> user \<noteq> None"
    and r: "Z_Malloc sz tag user z = Some (Inr (p, z'))"
  shows "zarch z' = zarch z" "mainzone z' = mainzone z" "zsize z' = zsize z"
proof -
  have "zone_inv (zset z) z" using z by (simp add: zone_ok_def)
  from Z_Malloc_ok [where sz = sz, OF this own] r obtain z1 B1 base
    where p: "purged (zset z) z B1 z1" and z': "z' = hand_out (alloc_size (zarch z) sz) tag user base z1" by auto
  then show "zarch z' = zarch z" "mainzone z' = mainzone z" "zsize z' = zsize z"
    by (simp_all add: purged_def released_def hand_out_fields)
qed

section \<open>Reachable zones\<close>

text \<open>Every use of the zone that obeys the rules: no negative sizes, no \<open>PU_FREE\<close> as a tag,
  only pointers that were handed out.\<close>

inductive zone_reach :: "zone \<Rightarrow> bool" where
  zr_init: "sizeof_memzone arch + sizeof_memblock arch \<le> sz \<Longrightarrow> sz \<le> INT_MAX \<Longrightarrow>
    zone_reach (Z_Init arch base sz mem cells)"
| zr_malloc: "zone_reach z \<Longrightarrow> 0 \<le> sz \<Longrightarrow> sz \<le> INT_MAX - 64 \<Longrightarrow> tag \<noteq> PU_FREE \<Longrightarrow>
    Z_Malloc sz tag user z = Some (Inr (p, z')) \<Longrightarrow> zone_reach z'"
| zr_free: "zone_reach z \<Longrightarrow> p \<in> dom (heap z) \<Longrightarrow> Z_Free p z = Inr z' \<Longrightarrow> zone_reach z'"
| zr_free_tags: "zone_reach z \<Longrightarrow> Z_FreeTags lo hi z = Some (Inr z') \<Longrightarrow> zone_reach z'"
| zr_tag: "zone_reach z \<Longrightarrow> p \<in> dom (heap z) \<Longrightarrow> tag \<noteq> PU_FREE \<Longrightarrow> Z_ChangeTag2 p tag z = Inr z' \<Longrightarrow> zone_reach z'"
| zr_user: "zone_reach z \<Longrightarrow> p \<in> dom (heap z) \<Longrightarrow> Z_ChangeUser p u z = Inr z' \<Longrightarrow> zone_reach z'"

lemma Z_Malloc_owner: "Z_Malloc sz tag user z = Some (Inr r) \<Longrightarrow> PU_PURGELEVEL \<le> tag \<longrightarrow> user \<noteq> None"
  by (cases user) (auto simp: Z_Malloc_def Let_def split: option.splits sum.splits if_splits)

lemma zone_reach_ok: "zone_reach z \<Longrightarrow> zone_ok z"
proof (induction rule: zone_reach.induct)
  case (zr_init arch sz base mem cells)
  then show ?case using zone_okI Z_Init_ok(1,2) by blast
next
  case (zr_malloc z sz tag user p z')
  then show ?case using Z_Malloc_refines [of z sz tag user] Z_Malloc_owner by fastforce
next
  case (zr_free z p z')
  then show ?case using zalloc.release_law [of z p] by auto
next
  case (zr_free_tags z lo hi z')
  then show ?case using Z_FreeTags_refines [of z lo hi] by auto
next
  case (zr_tag z p tag z')
  then obtain n t user where "heap z p = Some (n, t, user)" by auto
  from Z_ChangeTag2_ok [OF zr_tag.IH this zr_tag.hyps(3)] zr_tag.hyps(4) show ?case
    by (auto split: if_splits)
next
  case (zr_user z p u z')
  then obtain n t user where "heap z p = Some (n, t, user)" by auto
  from Z_ChangeUser_ok [OF zr_user.IH this, of u] zr_user.hyps(3) show ?case by auto
qed

section \<open>What the zone promises\<close>

text \<open>
  C1. \<open>Z_Malloc\<close> on a well-formed zone always returns. Either it hands out a fresh block
  of at least the wanted size and leaves every block that is not purgable untouched
  (purged blocks disappear and their owners' pointers become null), with the zone
  well-formed again; or it reports the failed allocation, and then no free block was
  big enough.
\<close>

theorem Z_Malloc_correct:
  assumes "zone_ok z" "0 \<le> sz" "sz \<le> INT_MAX - 64" "tag \<noteq> PU_FREE" "PU_PURGELEVEL \<le> tag \<longrightarrow> user \<noteq> None"
  shows "(\<exists>p z'. Z_Malloc sz tag user z = Some (Inr (p, z')) \<and> zone_ok z' \<and>
           (\<exists>K n. kept (heap z) \<subseteq> K \<and> K \<subseteq> dom (heap z) \<and> p \<notin> K \<and> sz \<le> n \<and>
              heap z' = (heap z |` K)(p \<mapsto> (n, tag, user)) \<and>
              zcells z' = (case user of None \<Rightarrow> cells_after (heap z) K (zcells z)
                           | Some u \<Rightarrow> (cells_after (heap z) K (zcells z))(u := p)))) \<or>
         (Z_Malloc sz tag user z = Some (Inl alloc_failed) \<and>
           (\<forall>n\<in>free_sizes z. n < alloc_size (zarch z) sz))"
  using Z_Malloc_refines [OF assms] unfolding allocated_def .

definition small_zone :: zone where
  "small_zone = Z_Init LP64 0 1000 (\<lambda>_. \<lparr>mb_size = 0, mb_user = None, mb_tag = 0, mb_id = 0, mb_next = 0, mb_prev = 0\<rparr>) (\<lambda>_. 0)"

lemma small_zone_ok: "zone_ok small_zone" "heap small_zone = Map.empty" "zone_reach small_zone"
  unfolding small_zone_def
  by (rule zone_okI; rule Z_Init_ok; simp add: INT_MAX_def) (rule Z_Init_ok zr_init; simp add: INT_MAX_def)+

lemma small_zone_free: "944 \<in> free_sizes small_zone" "zarch small_zone = LP64"
proof -
  have "zset small_zone = {0 + sizeof_memzone LP64}"
    unfolding small_zone_def by (rule zset_eq, rule Z_Init_ok) (simp_all add: INT_MAX_def)
  then have "56 \<in> zset small_zone" by simp
  moreover have "bsize small_zone 56 = 944" "btag small_zone 56 = PU_FREE"
    by (simp_all add: small_zone_def Z_Init_def Let_def blocklist_def i32_def signed_take_bit_int_eq_self)
  ultimately show "944 \<in> free_sizes small_zone" unfolding free_sizes_def by force
  show "zarch small_zone = LP64" by (simp add: small_zone_def Z_Init_def Let_def)
qed

lemma small_alloc_size: "alloc_size LP64 100 = 144"
  by (simp add: alloc_size_def i32_def signed_take_bit_int_eq_self)

theorem Z_Malloc_correct_witness:
  "\<exists>p z' n. Z_Malloc 100 PU_STATIC None small_zone = Some (Inr (p, z')) \<and> zone_ok z' \<and>
     100 \<le> n \<and> heap z' = [p \<mapsto> (n, PU_STATIC, None)]"
  using Z_Malloc_correct [OF small_zone_ok(1), of 100 PU_STATIC None] small_zone_free small_alloc_size
  by (auto simp: small_zone_ok(2) PU_defs INT_MAX_def)

text \<open>
  C2. \<open>Z_Free\<close> of a block that was handed out succeeds, removes exactly that block from
  the heap and clears the pointer of its owner; the zone stays well-formed, in
  particular no two free blocks are neighbours. Freeing the block a second time is
  reported as an error.
\<close>

theorem Z_Free_correct:
  assumes "zone_ok z" "heap z p = Some (n, tag, user)"
  shows "\<exists>z'. Z_Free p z = Inr z' \<and> zone_ok z' \<and> heap z' = (heap z)(p := None) \<and>
     zcells z' = (case user of Some u \<Rightarrow> (zcells z)(u := 0) | None \<Rightarrow> zcells z) \<and>
     Z_Free p z' = Inl (I_Error ''Z_Free: freed a pointer without ZONEID'')"
proof -
  obtain z' where z': "Z_Free p z = Inr z'" "zone_ok z'" "heap z' = (heap z)(p := None)"
    "zcells z' = (case user of Some u \<Rightarrow> (zcells z)(u := 0) | None \<Rightarrow> zcells z)" "bid z' (p - hdr z') \<noteq> ZONEID"
    using Z_Free_refines [OF assms] by blast
  from z'(5) have "Z_Free p z' = Inl (I_Error ''Z_Free: freed a pointer without ZONEID'')"
    by (simp add: Z_Free_def Let_def)
  with z' show ?thesis by blast
qed

text \<open>A zone with one block handed out.\<close>

lemma one_block:
  "\<exists>z p n. zone_reach z \<and> zone_ok z \<and> heap z = [p \<mapsto> (n, PU_CACHE, Some 4)] \<and> 100 \<le> n"
proof -
  have t: "PU_CACHE \<noteq> PU_FREE" by (simp add: PU_defs)
  have n: "\<not> (\<forall>n\<in>free_sizes small_zone. n < alloc_size (zarch small_zone) 100)"
    using small_zone_free small_alloc_size by force
  obtain p z' where r: "Z_Malloc 100 PU_CACHE (Some 4) small_zone = Some (Inr (p, z'))" "zone_ok z'"
    and a: "allocated 100 PU_CACHE (Some 4) small_zone p z'"
    using Z_Malloc_refines [OF small_zone_ok(1) _ _ t, of 100 "Some 4"] n by (auto simp: INT_MAX_def)
  have "zone_reach z'" using zr_malloc [OF small_zone_ok(3) _ _ t r(1)] by (simp add: INT_MAX_def)
  then show ?thesis using r(2) a unfolding allocated_def small_zone_ok(2) by auto
qed

theorem Z_Free_correct_witness:
  "\<exists>z p z'. zone_ok z \<and> p \<in> dom (heap z) \<and> Z_Free p z = Inr z' \<and> zone_ok z' \<and> heap z' = Map.empty \<and> zcells z' 4 = 0"
proof -
  obtain z p n where z: "zone_ok z" "heap z = [p \<mapsto> (n, PU_CACHE, Some 4)]" using one_block by blast
  then have "heap z p = Some (n, PU_CACHE, Some 4)" by simp
  from Z_Free_correct [OF z(1) this] z show ?thesis by auto
qed

text \<open>
  C3. However the zone has been used, its consistency check \<open>Z_CheckHeap\<close> returns without
  an error, the blocks that are handed out are aligned, lie inside the zone, and do not
  overlap each other or each other's headers.
\<close>

theorem reachable_zone_sound:
  assumes "zone_reach z"
  shows "Z_CheckHeap z = Some (Inr ()) \<and>
    (\<forall>p n t u. heap z p = Some (n, t, u) \<longrightarrow>
       mainzone z + sizeof_memzone (zarch z) + hdr z \<le> p \<and> p + n \<le> mainzone z + zsize z \<and>
       0 \<le> n \<and> MEM_ALIGN (zarch z) dvd p - mainzone z) \<and>
    (\<forall>p q n t u n' t' u'. heap z p = Some (n, t, u) \<longrightarrow> heap z q = Some (n', t', u') \<longrightarrow> p \<noteq> q \<longrightarrow>
       p + n \<le> q - hdr z \<or> q + n' \<le> p - hdr z)"
proof -
  have z: "zone_ok z" by (rule zone_reach_ok [OF assms])
  then have zi: "zone_inv (zset z) z" and st: "zstruct (zset z) z" by (simp_all add: zone_ok_def zone_inv_def)
  have f: "bnext z (blocklist z) \<in> zset z" using tail_first [OF st] by blast
  moreover have "blocklist z \<notin> zset z" using st cap_notin by (simp add: zstruct_def)
  ultimately have "Z_CheckHeap z = Some (Inr ())"
    using Z_CheckHeap_loop_ok [OF zi, of "bnext z (blocklist z)"] by (auto simp: Z_CheckHeap_def)
  then show ?thesis
    by (intro conjI allI impI) (assumption | erule heap_inside [OF z] | erule (2) heap_disjoint [OF z])+
qed

theorem reachable_zone_sound_witness:
  "\<exists>z p n. zone_reach z \<and> heap z = [p \<mapsto> (n, PU_CACHE, Some 4)] \<and> Z_CheckHeap z = Some (Inr ()) \<and>
     p + n \<le> mainzone z + zsize z"
proof -
  obtain z p n where z: "zone_reach z" "heap z = [p \<mapsto> (n, PU_CACHE, Some 4)]" using one_block by blast
  then have "heap z p = Some (n, PU_CACHE, Some 4)" by simp
  with reachable_zone_sound [OF z(1)] z show ?thesis by blast
qed

text \<open>
  C4. \<open>Z_FreeTags\<close>, which is called at the end of a level, always returns and frees
  exactly the blocks whose tag lies in the range, although its loop may continue from
  a header that the merge has just swallowed.
\<close>

theorem Z_FreeTags_correct:
  assumes "zone_ok z"
  shows "\<exists>z' K. Z_FreeTags lo hi z = Some (Inr z') \<and> zone_ok z' \<and>
     K = {p. \<exists>n t user. heap z p = Some (n, t, user) \<and> \<not> (lo \<le> t \<and> t \<le> hi)} \<and>
     heap z' = heap z |` K \<and> zcells z' = cells_after (heap z) K (zcells z)"
  using Z_FreeTags_refines [OF assms] .

theorem Z_FreeTags_correct_witness:
  "\<exists>z p n z'. zone_ok z \<and> heap z = [p \<mapsto> (n, PU_CACHE, Some 4)] \<and>
     Z_FreeTags PU_LEVEL PU_CACHE z = Some (Inr z') \<and> heap z' = Map.empty \<and> zcells z' 4 = 0"
proof -
  obtain z p n where z: "zone_ok z" "heap z = [p \<mapsto> (n, PU_CACHE, Some 4)]" using one_block by blast
  let ?K = "{q. \<exists>m t user. heap z q = Some (m, t, user) \<and> \<not> (PU_LEVEL \<le> t \<and> t \<le> PU_CACHE)}"
  have K: "?K = {}" by (auto simp: z(2) PU_defs split: if_splits)
  obtain z' where z': "Z_FreeTags PU_LEVEL PU_CACHE z = Some (Inr z')"
    "heap z' = heap z |` ?K" "zcells z' = cells_after (heap z) ?K (zcells z)"
    using Z_FreeTags_correct [OF z(1), of PU_LEVEL PU_CACHE] by blast
  have "heap z' = Map.empty" "zcells z' 4 = 0"
    unfolding z'(2,3) K by (auto simp: cells_after_def z(2))
  with z z'(1) show ?thesis by blast
qed

text \<open>
  C8. \<open>Z_FreeMemory\<close> returns, without overflow, the bytes in free and purgable blocks,
  and no byte of the zone is lost: together with the blocks in use they are the whole
  zone but its header.
\<close>

theorem Z_FreeMemory_accounts:
  assumes "zone_ok z"
  shows "\<exists>n. Z_FreeMemory z = Some n \<and>
     n = (\<Sum>a\<in>{a \<in> zset z. btag z a = PU_FREE \<or> PU_PURGELEVEL \<le> btag z a}. bsize z a) \<and>
     n + (\<Sum>a\<in>{a \<in> zset z. btag z a \<noteq> PU_FREE \<and> btag z a < PU_PURGELEVEL}. bsize z a) =
       zsize z - sizeof_memzone (zarch z)"
proof -
  let ?F = "{a \<in> zset z. btag z a = PU_FREE \<or> PU_PURGELEVEL \<le> btag z a}"
  let ?U = "{a \<in> zset z. btag z a \<noteq> PU_FREE \<and> btag z a < PU_PURGELEVEL}"
  have st: "zstruct (zset z) z" using assms by (simp add: zone_ok_def zone_inv_def)
  then have fin: "finite (zset z)" and lnk: "zlinks (zset z) z" and lay: "zlayout (zset z) z"
    by (auto simp: zstruct_def zlayout_def)
  note t = tail_first [OF st]
  have first: "bnext z (blocklist z) = zfirst z" using lnk by (simp add: zlinks_def)
  have "Z_FreeMemory z = Some (sum (bsize z) ?F)"
    using Z_FreeMemory_loop_ok [OF st, of "bnext z (blocklist z)" 0] t first by (simp add: Z_FreeMemory_def)
  moreover have "sum (bsize z) (zset z) = zsize z - sizeof_memzone (zarch z)"
    using sum_tail [OF st, of "bnext z (blocklist z)"] t cap_notin [OF lay] first
    by (auto simp: zend_def zfirst_def)
  moreover have "sum (bsize z) ?F + sum (bsize z) ?U = sum (bsize z) (?F \<union> ?U)"
    using fin by (intro sum.union_disjoint [symmetric]) auto
  moreover have "?F \<union> ?U = zset z" by auto
  ultimately show ?thesis by simp
qed

theorem Z_FreeMemory_accounts_witness:
  "\<exists>n. Z_FreeMemory small_zone = Some n \<and>
     n + (\<Sum>a\<in>{a \<in> zset small_zone. btag small_zone a \<noteq> PU_FREE \<and> btag small_zone a < PU_PURGELEVEL}. bsize small_zone a) = 944"
  using Z_FreeMemory_accounts [OF small_zone_ok(1)]
  by (auto simp: small_zone_free(2) small_zone_def Z_Init_def Let_def)

end
