(* ===== verification/Level.thy ===== *)
theory Level
  imports Fixed Zone_Heap
begin

text \<open>
  The state of a level: the map (sectors, lines and sides, as \<^verbatim>\<open>r_defs.h\<close> has them), the
  thinkers (\<^verbatim>\<open>d_think.h\<close>, \<^verbatim>\<open>p_spec.h\<close>, \<^verbatim>\<open>p_mobj.h\<close>) and the list they are linked in, with the
  operations of \<^verbatim>\<open>p_tick.c\<close>. Thinkers are blocks of the zone; a struct that starts with a
  \<open>thinker_t\<close> is a link header and a body at the same address.
\<close>

section \<open>Thinkers\<close>

record thinker_t =
  th_prev :: int
  th_next :: int
  th_function :: int

record mapthing_t =
  mt_x :: int
  mt_y :: int
  mt_angle :: int
  mt_type :: int
  mt_options :: int

text \<open>
  Pointers into the tables \<open>states\<close> and \<open>players\<close> are indices; \<open>player\<close> is \<open>None\<close> for
  \<open>NULL\<close>. All other pointers are addresses.
\<close>

record mobj_t =
  mo_x :: int
  mo_y :: int
  mo_z :: int
  mo_snext :: int
  mo_sprev :: int
  mo_angle :: int
  mo_sprite :: int
  mo_frame :: int
  mo_bnext :: int
  mo_bprev :: int
  mo_subsector :: int
  mo_floorz :: int
  mo_ceilingz :: int
  mo_radius :: int
  mo_height :: int
  mo_momx :: int
  mo_momy :: int
  mo_momz :: int
  mo_validcount :: int
  mo_type :: int
  mo_info :: int
  mo_tics :: int
  mo_state :: int
  mo_flags :: int
  mo_health :: int
  mo_movedir :: int
  mo_movecount :: int
  mo_target :: int
  mo_reactiontime :: int
  mo_threshold :: int
  mo_player :: "int option"
  mo_lastlook :: int
  mo_spawnpoint :: mapthing_t
  mo_tracer :: int

record fireflicker_t =
  ff_sector :: int
  ff_count :: int
  ff_maxlight :: int
  ff_minlight :: int

record lightflash_t =
  lf_sector :: int
  lf_count :: int
  lf_maxlight :: int
  lf_minlight :: int
  lf_maxtime :: int
  lf_mintime :: int

record strobe_t =
  st_sector :: int
  st_count :: int
  st_minlight :: int
  st_maxlight :: int
  st_darktime :: int
  st_brighttime :: int

record glow_t =
  gl_sector :: int
  gl_minlight :: int
  gl_maxlight :: int
  gl_direction :: int

record plat_t =
  pl_sector :: int
  pl_speed :: int
  pl_low :: int
  pl_high :: int
  pl_wait :: int
  pl_count :: int
  pl_status :: int
  pl_oldstatus :: int
  pl_crush :: int
  pl_tag :: int
  pl_type :: int

record vldoor_t =
  vd_type :: int
  vd_sector :: int
  vd_topheight :: int
  vd_speed :: int
  vd_direction :: int
  vd_topwait :: int
  vd_topcountdown :: int

record ceiling_t =
  cl_type :: int
  cl_sector :: int
  cl_bottomheight :: int
  cl_topheight :: int
  cl_speed :: int
  cl_crush :: int
  cl_direction :: int
  cl_tag :: int
  cl_olddirection :: int

record floormove_t =
  fm_type :: int
  fm_crush :: int
  fm_sector :: int
  fm_direction :: int
  fm_newspecial :: int
  fm_texture :: int
  fm_floordestheight :: int
  fm_speed :: int

datatype body =
    No_Body
  | B_mobj mobj_t
  | B_ceiling ceiling_t
  | B_door vldoor_t
  | B_floor floormove_t
  | B_plat plat_t
  | B_flash lightflash_t
  | B_strobe strobe_t
  | B_glow glow_t
  | B_flicker fireflicker_t

text \<open>The functions a thinker may point to; the linker gives them addresses.\<close>

datatype action =
    P_MobjThinker
  | T_MoveCeiling
  | T_VerticalDoor
  | T_MoveFloor
  | T_PlatRaise
  | T_LightFlash
  | T_StrobeFlash
  | T_Glow
  | T_FireFlicker

type_synonym symbols = "action \<Rightarrow> int"

section \<open>The map\<close>

record degenmobj_t =
  dm_thinker :: thinker_t
  dm_x :: int
  dm_y :: int
  dm_z :: int

text \<open>\<open>lines\<close> has \<open>linecount\<close> entries, the numbers of the lines; \<open>blockbox\<close> has four.\<close>

record sector_t =
  sc_floorheight :: int
  sc_ceilingheight :: int
  sc_floorpic :: int
  sc_ceilingpic :: int
  sc_lightlevel :: int
  sc_special :: int
  sc_tag :: int
  sc_soundtraversed :: int
  sc_soundtarget :: int
  sc_blockbox :: "int list"
  sc_soundorg :: degenmobj_t
  sc_validcount :: int
  sc_thinglist :: int
  sc_specialdata :: int
  sc_lines :: "nat list"

record side_t =
  sd_textureoffset :: int
  sd_rowoffset :: int
  sd_toptexture :: int
  sd_bottomtexture :: int
  sd_midtexture :: int
  sd_sector :: nat

datatype slopetype_t = ST_HORIZONTAL | ST_VERTICAL | ST_POSITIVE | ST_NEGATIVE

text \<open>The vertices as numbers in \<open>vertexes\<close>.\<close>

record line_t =
  ln_v1 :: nat
  ln_v2 :: nat
  ln_dx :: int
  ln_dy :: int
  ln_flags :: int
  ln_special :: int
  ln_tag :: int
  ln_sidenum :: "int \<times> int"
  ln_bbox :: "int list"
  ln_slopetype :: slopetype_t
  ln_frontsector :: "nat option"
  ln_backsector :: "nat option"
  ln_validcount :: int
  ln_specialdata :: int

record level =
  lv_zone :: zone
  lv_cap :: int
  lv_th :: "int \<Rightarrow> thinker_t"
  lv_body :: "int \<Rightarrow> body"
  lv_sectors :: "sector_t list"
  lv_lines :: "line_t list"
  lv_sides :: "side_t list"
  lv_ceilings :: "int list"
  lv_plats :: "int list"
  lv_rng :: rng

abbreviation larch :: "level \<Rightarrow> arch" where "larch lv \<equiv> zarch (lv_zone lv)"

definition MAXCEILINGS :: nat where "MAXCEILINGS = 30"
definition MAXPLATS :: nat where "MAXPLATS = 30"

text \<open>The value \<open>(actionf_v)(-1)\<close> that marks a thinker for removal.\<close>

definition removed_mark :: "arch \<Rightarrow> int" where
  "removed_mark arch = 2 ^ nat (8 * sizeof_ptr arch) - 1"

definition upd_th :: "int \<Rightarrow> (thinker_t \<Rightarrow> thinker_t) \<Rightarrow> level \<Rightarrow> level" where
  "upd_th p f lv = lv\<lparr>lv_th := (lv_th lv)(p := f (lv_th lv p))\<rparr>"

definition set_body :: "int \<Rightarrow> body \<Rightarrow> level \<Rightarrow> level" where
  "set_body p b lv = lv\<lparr>lv_body := (lv_body lv)(p := b)\<rparr>"

section \<open>The thinker list\<close>

definition P_InitThinkers :: "level \<Rightarrow> level" where
  "P_InitThinkers lv =
     upd_th (lv_cap lv) (\<lambda>t. t\<lparr>th_next := lv_cap lv, th_prev := lv_cap lv\<rparr>) lv"

definition P_AddThinker :: "int \<Rightarrow> level \<Rightarrow> level" where
  "P_AddThinker thinker lv =
     (let cap = lv_cap lv;
          lv = upd_th (th_prev (lv_th lv cap)) (\<lambda>t. t\<lparr>th_next := thinker\<rparr>) lv;
          lv = upd_th thinker (\<lambda>t. t\<lparr>th_next := cap\<rparr>) lv;
          lv = upd_th thinker (\<lambda>t. t\<lparr>th_prev := th_prev (lv_th lv cap)\<rparr>) lv
      in upd_th cap (\<lambda>t. t\<lparr>th_prev := thinker\<rparr>) lv)"

definition P_RemoveThinker :: "int \<Rightarrow> level \<Rightarrow> level" where
  "P_RemoveThinker thinker lv = upd_th thinker (\<lambda>t. t\<lparr>th_function := removed_mark (larch lv)\<rparr>) lv"

definition unlink_thinker :: "int \<Rightarrow> level \<Rightarrow> level" where
  "unlink_thinker cur lv =
     (let lv = upd_th (th_next (lv_th lv cur)) (\<lambda>t. t\<lparr>th_prev := th_prev (lv_th lv cur)\<rparr>) lv
      in upd_th (th_prev (lv_th lv cur)) (\<lambda>t. t\<lparr>th_next := th_next (lv_th lv cur)\<rparr>) lv)"

text \<open>
  \<open>run\<close> is the call through the function pointer: the function's address, the thinker
  and the state. After \<open>Z_Free\<close> the loop still reads \<open>next\<close> from the freed block, whose
  contents the zone leaves alone.
\<close>

partial_function (option) P_RunThinkers_loop ::
  "(int \<Rightarrow> int \<Rightarrow> level \<Rightarrow> level result) \<Rightarrow> int \<Rightarrow> level \<Rightarrow> level result option" where
  "P_RunThinkers_loop run cur lv =
     (if cur = lv_cap lv then Some (Inr lv)
      else
        (case (if th_function (lv_th lv cur) = removed_mark (larch lv)
               then (let lv = unlink_thinker cur lv
                     in bindE (Z_Free cur (lv_zone lv)) (\<lambda>z. Inr (lv\<lparr>lv_zone := z\<rparr>)))
               else if th_function (lv_th lv cur) \<noteq> 0 then run (th_function (lv_th lv cur)) cur lv
               else Inr lv) of
           Inl e \<Rightarrow> Some (Inl e)
         | Inr lv \<Rightarrow> P_RunThinkers_loop run (th_next (lv_th lv cur)) lv))"

definition P_RunThinkers ::
  "(int \<Rightarrow> int \<Rightarrow> level \<Rightarrow> level result) \<Rightarrow> level \<Rightarrow> level result option" where
  "P_RunThinkers run lv = P_RunThinkers_loop run (th_next (lv_th lv (lv_cap lv))) lv"

section \<open>The list as a list\<close>

primrec dll :: "(int \<Rightarrow> thinker_t) \<Rightarrow> int \<Rightarrow> int list \<Rightarrow> int \<Rightarrow> bool" where
  "dll m p [] q \<longleftrightarrow> th_next (m p) = q \<and> th_prev (m q) = p"
| "dll m p (x # xs) q \<longleftrightarrow> th_next (m p) = x \<and> th_prev (m x) = p \<and> dll m x xs q"

definition thinkers :: "level \<Rightarrow> int list \<Rightarrow> bool" where
  "thinkers lv xs \<longleftrightarrow> distinct (lv_cap lv # xs) \<and> dll (lv_th lv) (lv_cap lv) xs (lv_cap lv)"

lemma upd_th_simps [simp]:
  "lv_cap (upd_th p f lv) = lv_cap lv" "lv_zone (upd_th p f lv) = lv_zone lv"
  "lv_body (upd_th p f lv) = lv_body lv" "lv_sectors (upd_th p f lv) = lv_sectors lv"
  "lv_lines (upd_th p f lv) = lv_lines lv" "lv_sides (upd_th p f lv) = lv_sides lv"
  "lv_ceilings (upd_th p f lv) = lv_ceilings lv" "lv_plats (upd_th p f lv) = lv_plats lv"
  "lv_rng (upd_th p f lv) = lv_rng lv"
  "lv_th (upd_th p f lv) = (lv_th lv)(p := f (lv_th lv p))"
  by (simp_all add: upd_th_def)

lemma set_body_simps [simp]:
  "lv_cap (set_body p b lv) = lv_cap lv" "lv_zone (set_body p b lv) = lv_zone lv"
  "lv_th (set_body p b lv) = lv_th lv" "lv_sectors (set_body p b lv) = lv_sectors lv"
  "lv_lines (set_body p b lv) = lv_lines lv" "lv_sides (set_body p b lv) = lv_sides lv"
  "lv_ceilings (set_body p b lv) = lv_ceilings lv" "lv_plats (set_body p b lv) = lv_plats lv"
  "lv_rng (set_body p b lv) = lv_rng lv"
  "lv_body (set_body p b lv) = (lv_body lv)(p := b)"
  by (simp_all add: set_body_def)

lemma dll_append: "dll m p (xs @ y # ys) q \<longleftrightarrow> dll m p xs y \<and> dll m y ys q"
  by (induction xs arbitrary: p) auto

lemma dll_ends: "dll m p xs q \<Longrightarrow> th_next (m p) = hd (xs @ [q]) \<and> th_prev (m q) = last (p # xs)"
  by (induction xs arbitrary: p) (auto split: if_splits)

text \<open>A segment depends on the forward links of its start and members and on the back links of its members and end.\<close>

lemma dll_cong:
  assumes "\<And>x. x \<in> set (p # xs) \<Longrightarrow> th_next (m' x) = th_next (m x)"
    and "\<And>x. x \<in> set xs \<Longrightarrow> th_prev (m' x) = th_prev (m x)" and "th_prev (m' q) = th_prev (m q)"
  shows "dll m' p xs q = dll m p xs q"
  using assms by (induction xs arbitrary: p) auto

lemma dll_unique: "dll m p xs q \<Longrightarrow> dll m p ys q \<Longrightarrow> q \<notin> set xs \<Longrightarrow> q \<notin> set ys \<Longrightarrow> xs = ys"
proof (induction xs arbitrary: p ys)
  case Nil
  then show ?case by (cases ys) auto
next
  case (Cons x xs)
  then show ?case by (cases ys) auto
qed

lemma thinkers_unique: "thinkers lv xs \<Longrightarrow> thinkers lv ys \<Longrightarrow> xs = ys"
  by (auto simp: thinkers_def intro: dll_unique)

lemma thinkers_init: "thinkers (P_InitThinkers lv) []"
  by (simp add: thinkers_def P_InitThinkers_def)

lemma thinkers_add:
  assumes "thinkers lv xs" "t \<notin> set (lv_cap lv # xs)"
  shows "thinkers (P_AddThinker t lv) (xs @ [t])"
proof -
  let ?c = "lv_cap lv" and ?m = "lv_th lv" and ?m' = "lv_th (P_AddThinker t lv)"
  define l where "l = last (?c # xs)"
  have d: "dll ?m ?c xs ?c" "distinct (?c # xs)" using assms(1) by (simp_all add: thinkers_def)
  have p: "th_prev (?m ?c) = l" using dll_ends [OF d(1)] by (simp add: l_def)
  have lin: "l \<in> set (?c # xs)" unfolding l_def by (rule last_in_set) simp
  have lt: "l \<noteq> t" using lin assms(2) by metis
  have nx: "th_next (?m' x) = (if x = l then t else if x = t then ?c else th_next (?m x))" for x
    using lt assms(2) p by (cases "?c = l") (simp_all add: P_AddThinker_def Let_def p)
  have pv: "th_prev (?m' x) = (if x = ?c then t else if x = t then l else th_prev (?m x))" for x
    using lt assms(2) p by (cases "?c = l") (simp_all add: P_AddThinker_def Let_def p)
  have "dll ?m' ?c xs t"
  proof (cases xs rule: rev_cases)
    case Nil
    then show ?thesis using nx pv assms(2) by (simp add: l_def)
  next
    case (snoc ys y)
    have "dll ?m ?c ys y" using d(1) snoc by (simp add: dll_append)
    moreover have "dll ?m' ?c ys y = dll ?m ?c ys y"
      using d(2) assms(2) snoc by (intro dll_cong) (auto simp: nx pv l_def)
    moreover have "th_next (?m' y) = t" "th_prev (?m' t) = y" using nx pv snoc assms(2) by (auto simp: l_def)
    ultimately show ?thesis using snoc by (simp add: dll_append)
  qed
  moreover have "th_next (?m' t) = ?c" "th_prev (?m' ?c) = t" using nx pv lt by auto
  moreover have "lv_cap (P_AddThinker t lv) = ?c" by (simp add: P_AddThinker_def Let_def)
  ultimately show ?thesis using d(2) assms(2) by (auto simp: thinkers_def dll_append)
qed

lemma thinkers_remove:
  assumes "thinkers lv (xs @ y # ys)"
  shows "thinkers (unlink_thinker y lv) (xs @ ys)"
    and "th_next (lv_th (unlink_thinker y lv) y) = hd (ys @ [lv_cap lv])"
    and "x \<noteq> y \<Longrightarrow> th_function (lv_th (unlink_thinker y lv) x) = th_function (lv_th lv x)"
proof -
  let ?c = "lv_cap lv" and ?m = "lv_th lv" and ?m' = "lv_th (unlink_thinker y lv)"
  let ?p = "last (?c # xs)" and ?n = "hd (ys @ [?c])"
  have d: "dll ?m ?c xs y" "dll ?m y ys ?c" "distinct (?c # xs @ y # ys)"
    using assms by (auto simp: thinkers_def dll_append)
  have p: "th_prev (?m y) = ?p" using dll_ends [OF d(1)] by simp
  have n: "th_next (?m y) = ?n" using dll_ends [OF d(2)] by simp
  have pin: "?p \<in> set (?c # xs)" by (rule last_in_set) simp
  have nin: "?n \<in> set (ys @ [?c])" by (rule hd_in_set) simp
  have ny: "?n \<noteq> y" "?p \<noteq> y" using nin pin d(3) by (metis distinct.simps(2) distinct_append in_set_conv_decomp insert_iff list.set(2) set_append Un_iff disjoint_iff empty_iff list.set(1))+
  have nx: "th_next (?m' x) = (if x = ?p then ?n else th_next (?m x))" for x
    using ny by (simp add: unlink_thinker_def Let_def p n)
  have pv: "th_prev (?m' x) = (if x = ?n then ?p else th_prev (?m x))" for x
    using ny by (simp add: unlink_thinker_def Let_def p n)
  show "th_next (?m' y) = ?n" using nx ny n by simp
  show "x \<noteq> y \<Longrightarrow> th_function (?m' x) = th_function (?m x)"
    by (simp add: unlink_thinker_def Let_def)
  have c: "lv_cap (unlink_thinker y lv) = ?c" by (simp add: unlink_thinker_def Let_def)
  have seg1: "dll ?m' ?c xs ?n"
  proof (cases xs rule: rev_cases)
    case Nil then show ?thesis using nx pv by simp
  next
    case (snoc zs z)
    have "dll ?m ?c zs z" using d(1) snoc by (simp add: dll_append)
    moreover have "dll ?m' ?c zs z = dll ?m ?c zs z"
      using d(3) nin snoc by (intro dll_cong) (auto simp: nx pv)
    ultimately show ?thesis using snoc nx pv by (simp add: dll_append)
  qed
  have "dll ?m' ?c (xs @ ys) ?c"
  proof (cases ys)
    case Nil then show ?thesis using seg1 by simp
  next
    case (Cons z zs)
    have "dll ?m z zs ?c" using d(2) Cons by simp
    moreover have "dll ?m' z zs ?c = dll ?m z zs ?c"
      using d(3) pin Cons by (intro dll_cong) (auto simp: nx pv)
    ultimately show ?thesis using seg1 Cons by (simp add: dll_append)
  qed
  with d(3) c show "thinkers (unlink_thinker y lv) (xs @ ys)" by (auto simp: thinkers_def)
qed

section \<open>Running the thinkers\<close>

text \<open>
  The thinkers are blocks of the zone that cannot be purged; the list's head is a static
  variable outside the zone.
\<close>

definition cap_outside :: "level \<Rightarrow> bool" where
  "cap_outside lv \<longleftrightarrow>
     lv_cap lv < mainzone (lv_zone lv) \<or> mainzone (lv_zone lv) + zsize (lv_zone lv) < lv_cap lv"

definition level_ok :: "level \<Rightarrow> int list \<Rightarrow> bool" where
  "level_ok lv xs \<longleftrightarrow> thinkers lv xs \<and> zone_ok (lv_zone lv) \<and> set xs \<subseteq> kept (heap (lv_zone lv)) \<and> cap_outside lv"

definition free_thinker :: "int \<Rightarrow> level \<Rightarrow> zone \<Rightarrow> level" where
  "free_thinker x lv z = (unlink_thinker x lv)\<lparr>lv_zone := z\<rparr>"

text \<open>
  What a tic does, on lists: \<open>todo\<close> are the thinkers whose turn is still to come, \<open>past\<close>
  those that had theirs and stay. A thinker that is marked is unlinked and freed, the
  others run once; what they add to the list has its turn in the same tic.
\<close>

inductive tic :: "(int \<Rightarrow> int \<Rightarrow> level \<Rightarrow> level result) \<Rightarrow> int list \<Rightarrow> int list \<Rightarrow> level \<Rightarrow> level \<Rightarrow> int list \<Rightarrow> bool"
  for run where
  tic_end: "tic run past [] lv lv past"
| tic_free: "th_function (lv_th lv x) = removed_mark (larch lv) \<Longrightarrow> Z_Free x (lv_zone lv) = Inr z \<Longrightarrow>
    tic run past todo (free_thinker x lv z) lv' ys \<Longrightarrow> tic run past (x # todo) lv lv' ys"
| tic_idle: "th_function (lv_th lv x) = 0 \<Longrightarrow> tic run (past @ [x]) todo lv lv' ys \<Longrightarrow>
    tic run past (x # todo) lv lv' ys"
| tic_run: "th_function (lv_th lv x) \<noteq> removed_mark (larch lv) \<Longrightarrow> th_function (lv_th lv x) \<noteq> 0 \<Longrightarrow>
    run (th_function (lv_th lv x)) x lv = Inr lv1 \<Longrightarrow> level_ok lv1 (past @ x # todo @ new) \<Longrightarrow>
    tic run (past @ [x]) (todo @ new) lv1 lv' ys \<Longrightarrow> tic run past (x # todo) lv lv' ys"

lemma free_thinker_ok:
  assumes lv: "level_ok lv (past @ x # todo)" and z: "Z_Free x (lv_zone lv) = Inr z"
  shows "level_ok (free_thinker x lv z) (past @ todo)"
    and "th_next (lv_th (free_thinker x lv z) x) = hd (todo @ [lv_cap lv])"
proof -
  have t: "thinkers lv (past @ x # todo)" and zo: "zone_ok (lv_zone lv)"
    and k: "set (past @ x # todo) \<subseteq> kept (heap (lv_zone lv))" using lv by (simp_all add: level_ok_def)
  have x: "x \<in> dom (heap (lv_zone lv))" using k by (auto simp: kept_def)
  have h: "zone_ok z" "heap z = (heap (lv_zone lv))(x := None)" using zalloc.release_law [OF zo x] z by auto
  have "set (past @ todo) \<subseteq> kept (heap z)"
    using k t unfolding h(2) by (fastforce simp: kept_def thinkers_def)
  moreover have "thinkers (free_thinker x lv z) (past @ todo)"
    using thinkers_remove(1) [OF t] by (simp add: thinkers_def free_thinker_def)
  moreover have "cap_outside (free_thinker x lv z)"
    using lv Z_Free_const [OF z] by (simp add: level_ok_def cap_outside_def free_thinker_def unlink_thinker_def Let_def)
  ultimately show "level_ok (free_thinker x lv z) (past @ todo)"
    using h(1) by (simp add: level_ok_def free_thinker_def)
  show "th_next (lv_th (free_thinker x lv z) x) = hd (todo @ [lv_cap lv])"
    using thinkers_remove(2) [OF t] by (simp add: free_thinker_def)
qed

lemma thinkers_next:
  assumes "thinkers lv (past @ x # todo)"
  shows "th_next (lv_th lv x) = hd (todo @ [lv_cap lv])" "x \<noteq> lv_cap lv"
  using assms dll_ends [of "lv_th lv" x todo "lv_cap lv"] by (auto simp: thinkers_def dll_append)

text \<open>
  The contract of the thinker functions: they succeed on a thinker of the list, leave the
  list as it is but for thinkers they append, and cannot append without end
  (\<open>pot\<close> bounds what is still to come).
\<close>

locale thinker_actions =
  fixes run :: "int \<Rightarrow> int \<Rightarrow> level \<Rightarrow> level result"
    and good :: "level \<Rightarrow> int list \<Rightarrow> bool"
    and pot :: "level \<Rightarrow> nat"
  assumes run_law: "level_ok lv xs \<Longrightarrow> good lv xs \<Longrightarrow> x \<in> set xs \<Longrightarrow>
      th_function (lv_th lv x) \<noteq> removed_mark (larch lv) \<Longrightarrow> th_function (lv_th lv x) \<noteq> 0 \<Longrightarrow>
      \<exists>lv' new. run (th_function (lv_th lv x)) x lv = Inr lv' \<and> level_ok lv' (xs @ new) \<and> good lv' (xs @ new) \<and>
        lv_cap lv' = lv_cap lv \<and> length new + pot lv' \<le> pot lv"
    and free_law: "level_ok lv (past @ x # todo) \<Longrightarrow> good lv (past @ x # todo) \<Longrightarrow> Z_Free x (lv_zone lv) = Inr z \<Longrightarrow>
      good (free_thinker x lv z) (past @ todo) \<and> pot (free_thinker x lv z) \<le> pot lv"
begin

lemma run_loop:
  assumes "level_ok lv (past @ todo)" "good lv (past @ todo)"
  shows "\<exists>lv' ys. P_RunThinkers_loop run (hd (todo @ [lv_cap lv])) lv = Some (Inr lv') \<and>
    tic run past todo lv lv' ys \<and> level_ok lv' ys \<and> good lv' ys"
  using assms
proof (induction "length todo + pot lv" arbitrary: past todo lv rule: less_induct)
  case less
  show ?case
  proof (cases todo)
    case Nil
    then show ?thesis
      using less.prems tic_end [of run past lv] by (auto simp: P_RunThinkers_loop.simps [of run "lv_cap lv"])
  next
    case (Cons x rest)
    have ok: "level_ok lv (past @ x # rest)" and gd: "good lv (past @ x # rest)"
      using less.prems Cons by simp_all
    then have t: "thinkers lv (past @ x # rest)" and zo: "zone_ok (lv_zone lv)"
      and xk: "x \<in> kept (heap (lv_zone lv))" by (simp_all add: level_ok_def)
    note nx = thinkers_next [OF t]
    let ?f = "th_function (lv_th lv x)"
    consider (rm) "?f = removed_mark (larch lv)" | (idle) "?f \<noteq> removed_mark (larch lv)" "?f = 0"
      | (act) "?f \<noteq> removed_mark (larch lv)" "?f \<noteq> 0" by blast
    then show ?thesis
    proof cases
      case rm
      obtain z where z: "Z_Free x (lv_zone lv) = Inr z"
        using zalloc.release_law [OF zo, of x] xk by (auto simp: kept_def)
      let ?lv = "free_thinker x lv z"
      note f = free_thinker_ok [OF ok z] and fl = free_law [OF ok gd z]
      have c: "lv_cap ?lv = lv_cap lv" by (simp add: free_thinker_def unlink_thinker_def Let_def)
      have "length rest + pot ?lv < length todo + pot lv" using fl Cons by simp
      from less.hyps [OF this f(1)] fl
      obtain lv' ys where ih: "P_RunThinkers_loop run (hd (rest @ [lv_cap lv])) ?lv = Some (Inr lv')"
        "tic run past rest ?lv lv' ys" "level_ok lv' ys" "good lv' ys" unfolding c by blast
      have "P_RunThinkers_loop run x lv = P_RunThinkers_loop run (hd (rest @ [lv_cap lv])) ?lv"
        using nx(2) rm z f(2) by (subst P_RunThinkers_loop.simps)
          (simp add: Let_def free_thinker_def unlink_thinker_def)
      with ih rm z Cons show ?thesis using tic_free [OF rm z ih(2)] by auto
    next
      case idle
      have "length rest + pot lv < length todo + pot lv" using Cons by simp
      from less.hyps [OF this, of "past @ [x]"] ok gd
      obtain lv' ys where ih: "P_RunThinkers_loop run (hd (rest @ [lv_cap lv])) lv = Some (Inr lv')"
        "tic run (past @ [x]) rest lv lv' ys" "level_ok lv' ys" "good lv' ys" by auto
      have "P_RunThinkers_loop run x lv = P_RunThinkers_loop run (hd (rest @ [lv_cap lv])) lv"
        using nx idle by (subst P_RunThinkers_loop.simps) simp
      with ih Cons show ?thesis using tic_idle [OF idle(2) ih(2)] by auto
    next
      case act
      obtain lv1 new where r: "run ?f x lv = Inr lv1" "level_ok lv1 ((past @ x # rest) @ new)"
        "good lv1 ((past @ x # rest) @ new)" "lv_cap lv1 = lv_cap lv" "length new + pot lv1 \<le> pot lv"
        using run_law [OF ok gd _ act] by auto
      have ok1: "level_ok lv1 ((past @ [x]) @ (rest @ new))" "good lv1 ((past @ [x]) @ (rest @ new))"
        using r(2,3) by simp_all
      have "length (rest @ new) + pot lv1 < length todo + pot lv" using r(5) Cons by simp
      from less.hyps [OF this ok1]
      obtain lv' ys where ih: "P_RunThinkers_loop run (hd ((rest @ new) @ [lv_cap lv])) lv1 = Some (Inr lv')"
        "tic run (past @ [x]) (rest @ new) lv1 lv' ys" "level_ok lv' ys" "good lv' ys"
        unfolding r(4) by blast
      have "thinkers lv1 (past @ x # (rest @ new))" using r(2) by (simp add: level_ok_def)
      from thinkers_next(1) [OF this] have "th_next (lv_th lv1 x) = hd ((rest @ new) @ [lv_cap lv])"
        unfolding r(4) by simp
      then have "P_RunThinkers_loop run x lv = P_RunThinkers_loop run (hd ((rest @ new) @ [lv_cap lv])) lv1"
        using nx(2) act r(1) by (subst P_RunThinkers_loop.simps) simp
      with ih Cons show ?thesis using tic_run [OF act r(1) _ ih(2)] r(2) by auto
    qed
  qed
qed

lemma run_thinkers:
  assumes "level_ok lv xs" "good lv xs"
  shows "\<exists>lv' ys. P_RunThinkers run lv = Some (Inr lv') \<and> tic run [] xs lv lv' ys \<and> level_ok lv' ys \<and> good lv' ys"
proof -
  have "th_next (lv_th lv (lv_cap lv)) = hd (xs @ [lv_cap lv])"
    using assms(1) dll_ends [of "lv_th lv" "lv_cap lv" xs "lv_cap lv"] by (simp add: level_ok_def thinkers_def)
  then show ?thesis using run_loop [of lv "[]" xs] assms by (simp add: P_RunThinkers_def)
qed

end

end
