(* ===== verification/Saveg_Structs.thy ===== *)
theory Saveg_Structs
  imports Saveg_IO Player Level
begin

text \<open>
  The structures a saved game is made of: for each one the reader and the writer of
  \<^verbatim>\<open>p_saveg.c\<close>, the bytes of the format and the proof that the pair is a codec. A
  thinker is its link header and its body. Pointers into \<open>sectors\<close>, \<open>states\<close> and \<open>players\<close>
  are saved as indices, all others as their low 32 bits.
\<close>

section \<open>Links and map things\<close>

definition saveg_read_mapthing_t :: "('x, mapthing_t) sg" where
  "saveg_read_mapthing_t = do {
     x \<leftarrow> saveg_read16;
     y \<leftarrow> saveg_read16;
     angle \<leftarrow> saveg_read16;
     type \<leftarrow> saveg_read16;
     options \<leftarrow> saveg_read16;
     State_Monad.return \<lparr>mt_x = x, mt_y = y, mt_angle = angle, mt_type = type, mt_options = options\<rparr> }"

definition saveg_write_mapthing_t :: "mapthing_t \<Rightarrow> ('x, unit) sg" where
  "saveg_write_mapthing_t str = do {
     saveg_write16 (mt_x str);
     saveg_write16 (mt_y str);
     saveg_write16 (mt_angle str);
     saveg_write16 (mt_type str);
     saveg_write16 (mt_options str) }"

definition saveg_read_actionf_t :: "arch \<Rightarrow> ('x, int) sg" where
  "saveg_read_actionf_t arch = saveg_readp arch"

definition saveg_write_actionf_t :: "int \<Rightarrow> ('x, unit) sg" where
  "saveg_write_actionf_t str = saveg_writep str"

definition saveg_read_thinker_t :: "arch \<Rightarrow> ('x, thinker_t) sg" where
  "saveg_read_thinker_t arch = do {
     prev \<leftarrow> saveg_readp arch;
     next \<leftarrow> saveg_readp arch;
     function \<leftarrow> saveg_read_actionf_t arch;
     State_Monad.return \<lparr>th_prev = prev, th_next = next, th_function = function\<rparr> }"

definition saveg_write_thinker_t :: "thinker_t \<Rightarrow> ('x, unit) sg" where
  "saveg_write_thinker_t str = do {
     saveg_writep (th_prev str);
     saveg_writep (th_next str);
     saveg_write_actionf_t (th_function str) }"

definition mapthing_bytes :: "mapthing_t \<Rightarrow> int list" where
  "mapthing_bytes m = concat [le16 (mt_x m), le16 (mt_y m), le16 (mt_angle m), le16 (mt_type m), le16 (mt_options m)]"

definition mapthing_ok :: "mapthing_t \<Rightarrow> bool" where
  "mapthing_ok m \<longleftrightarrow> is_i16 (mt_x m) \<and> is_i16 (mt_y m) \<and> is_i16 (mt_angle m) \<and> is_i16 (mt_type m) \<and> is_i16 (mt_options m)"

definition thinker_bytes :: "thinker_t \<Rightarrow> int list" where
  "thinker_bytes th = concat [le32 (th_prev th), le32 (th_next th), le32 (th_function th)]"

definition saved_thinker :: "arch \<Rightarrow> thinker_t \<Rightarrow> thinker_t" where
  "saved_thinker arch th = \<lparr>th_prev = saved_ptr arch (th_prev th), th_next = saved_ptr arch (th_next th),
     th_function = saved_ptr arch (th_function th)\<rparr>"

lemma struct_length [simp]: "length (mapthing_bytes m) = 10" "length (thinker_bytes th) = 12"
  by (simp_all add: mapthing_bytes_def thinker_bytes_def)

lemma emits_mapthing: "emits p (saveg_write_mapthing_t m) (mapthing_bytes m)"
  unfolding saveg_write_mapthing_t_def mapthing_bytes_def
  by (rule emits_bind emits16 emits_last)+

lemma takes_mapthing: "mapthing_ok m \<Longrightarrow> takes p saveg_read_mapthing_t (mapthing_bytes m) m"
  unfolding saveg_read_mapthing_t_def mapthing_bytes_def mapthing_ok_def
  by (rule takes_bind, rule takes16, simp)+ (rule takes_return, simp)

lemma emits_thinker: "emits p (saveg_write_thinker_t th) (thinker_bytes th)"
  unfolding saveg_write_thinker_t_def thinker_bytes_def saveg_write_actionf_t_def
  by (rule emits_bind emitsp emits_last)+

lemma takes_thinker: "takes p (saveg_read_thinker_t arch) (thinker_bytes th) (saved_thinker arch th)"
  unfolding saveg_read_thinker_t_def thinker_bytes_def saveg_read_actionf_t_def
  by (rule takes_bind, rule takesp)+ (rule takes_return, simp add: saved_thinker_def)

lemmas emits_rules = emits_bind emits_thinker emits_mapthing emits32 emits16 emitsp emits_last
lemmas takes_rules = takes_thinker takesp takes_mapthing takes32 takes16

interpretation c_mapthing: codec saveg_write_mapthing_t saveg_read_mapthing_t mapthing_bytes "\<lambda>m. m" mapthing_ok 10
  by unfold_locales (simp_all add: emits_mapthing takes_mapthing)

interpretation c_thinker: codec saveg_write_thinker_t "saveg_read_thinker_t arch" thinker_bytes "saved_thinker arch"
  "\<lambda>_. True" 12 for arch
  by unfold_locales (simp_all add: emits_thinker takes_thinker)

section \<open>Movers and lights\<close>

subsection \<open>\<open>ceiling_t\<close>\<close>

definition saveg_read_ceiling_t :: "arch \<Rightarrow> ('x, thinker_t \<times> ceiling_t) sg" where
  "saveg_read_ceiling_t arch = do {
     th \<leftarrow> saveg_read_thinker_t arch;
     type \<leftarrow> saveg_read32;
     sector \<leftarrow> saveg_read32;
     bottomheight \<leftarrow> saveg_read32;
     topheight \<leftarrow> saveg_read32;
     speed \<leftarrow> saveg_read32;
     crush \<leftarrow> saveg_read32;
     direction \<leftarrow> saveg_read32;
     tag \<leftarrow> saveg_read32;
     olddirection \<leftarrow> saveg_read32;
     State_Monad.return (th,
       \<lparr>cl_type = type, cl_sector = sector, cl_bottomheight = bottomheight,
       cl_topheight = topheight, cl_speed = speed, cl_crush = crush, cl_direction = direction,
       cl_tag = tag, cl_olddirection = olddirection\<rparr>) }"

definition saveg_write_ceiling_t :: "thinker_t \<times> ceiling_t \<Rightarrow> ('x, unit) sg" where
  "saveg_write_ceiling_t = (\<lambda>(th, str). do {
     saveg_write_thinker_t th;
     saveg_write32 (cl_type str);
     saveg_write32 (cl_sector str);
     saveg_write32 (cl_bottomheight str);
     saveg_write32 (cl_topheight str);
     saveg_write32 (cl_speed str);
     saveg_write32 (cl_crush str);
     saveg_write32 (cl_direction str);
     saveg_write32 (cl_tag str);
     saveg_write32 (cl_olddirection str) })"

definition ceiling_bytes :: "thinker_t \<times> ceiling_t \<Rightarrow> int list" where
  "ceiling_bytes = (\<lambda>(th, str). concat [thinker_bytes th,
     le32 (cl_type str), le32 (cl_sector str), le32 (cl_bottomheight str), le32 (cl_topheight str),
     le32 (cl_speed str), le32 (cl_crush str), le32 (cl_direction str), le32 (cl_tag str),
     le32 (cl_olddirection str)])"

definition ceiling_ok :: "thinker_t \<times> ceiling_t \<Rightarrow> bool" where
  "ceiling_ok = (\<lambda>(th, str).
     is_i32 (cl_type str) \<and> is_i32 (cl_sector str) \<and> is_i32 (cl_bottomheight str) \<and>
     is_i32 (cl_topheight str) \<and> is_i32 (cl_speed str) \<and> is_i32 (cl_crush str) \<and>
     is_i32 (cl_direction str) \<and> is_i32 (cl_tag str) \<and> is_i32 (cl_olddirection str))"

interpretation c_ceiling: codec saveg_write_ceiling_t "saveg_read_ceiling_t arch" ceiling_bytes
  "\<lambda>(th, str). (saved_thinker arch th, str)" ceiling_ok 48 for arch
proof unfold_locales
  fix x :: "thinker_t \<times> ceiling_t" and p
  obtain th str where x: "x = (th, str)" by fastforce
  show "length (ceiling_bytes x) = 48" by (simp add: x ceiling_bytes_def)
  assume "ceiling_ok x"
  then have ok: "ceiling_ok (th, str)" by (simp add: x)
  show "emits p (saveg_write_ceiling_t x) (ceiling_bytes x)"
    unfolding x saveg_write_ceiling_t_def ceiling_bytes_def prod.case by (rule emits_rules)+
  show "takes p (saveg_read_ceiling_t arch) (ceiling_bytes x) ((\<lambda>(th, str). (saved_thinker arch th, str)) x)"
    using ok unfolding x saveg_read_ceiling_t_def ceiling_bytes_def ceiling_ok_def prod.case
    by - ((rule takes_bind, (rule takes_rules, (simp only: simp_thms)?))+, rule takes_return, simp)
qed

subsection \<open>\<open>vldoor_t\<close>\<close>

definition saveg_read_vldoor_t :: "arch \<Rightarrow> ('x, thinker_t \<times> vldoor_t) sg" where
  "saveg_read_vldoor_t arch = do {
     th \<leftarrow> saveg_read_thinker_t arch;
     type \<leftarrow> saveg_read32;
     sector \<leftarrow> saveg_read32;
     topheight \<leftarrow> saveg_read32;
     speed \<leftarrow> saveg_read32;
     direction \<leftarrow> saveg_read32;
     topwait \<leftarrow> saveg_read32;
     topcountdown \<leftarrow> saveg_read32;
     State_Monad.return (th,
       \<lparr>vd_type = type, vd_sector = sector, vd_topheight = topheight, vd_speed = speed,
       vd_direction = direction, vd_topwait = topwait, vd_topcountdown = topcountdown\<rparr>) }"

definition saveg_write_vldoor_t :: "thinker_t \<times> vldoor_t \<Rightarrow> ('x, unit) sg" where
  "saveg_write_vldoor_t = (\<lambda>(th, str). do {
     saveg_write_thinker_t th;
     saveg_write32 (vd_type str);
     saveg_write32 (vd_sector str);
     saveg_write32 (vd_topheight str);
     saveg_write32 (vd_speed str);
     saveg_write32 (vd_direction str);
     saveg_write32 (vd_topwait str);
     saveg_write32 (vd_topcountdown str) })"

definition vldoor_bytes :: "thinker_t \<times> vldoor_t \<Rightarrow> int list" where
  "vldoor_bytes = (\<lambda>(th, str). concat [thinker_bytes th,
     le32 (vd_type str), le32 (vd_sector str), le32 (vd_topheight str), le32 (vd_speed str),
     le32 (vd_direction str), le32 (vd_topwait str), le32 (vd_topcountdown str)])"

definition vldoor_ok :: "thinker_t \<times> vldoor_t \<Rightarrow> bool" where
  "vldoor_ok = (\<lambda>(th, str).
     is_i32 (vd_type str) \<and> is_i32 (vd_sector str) \<and> is_i32 (vd_topheight str) \<and>
     is_i32 (vd_speed str) \<and> is_i32 (vd_direction str) \<and> is_i32 (vd_topwait str) \<and>
     is_i32 (vd_topcountdown str))"

interpretation c_vldoor: codec saveg_write_vldoor_t "saveg_read_vldoor_t arch" vldoor_bytes
  "\<lambda>(th, str). (saved_thinker arch th, str)" vldoor_ok 40 for arch
proof unfold_locales
  fix x :: "thinker_t \<times> vldoor_t" and p
  obtain th str where x: "x = (th, str)" by fastforce
  show "length (vldoor_bytes x) = 40" by (simp add: x vldoor_bytes_def)
  assume "vldoor_ok x"
  then have ok: "vldoor_ok (th, str)" by (simp add: x)
  show "emits p (saveg_write_vldoor_t x) (vldoor_bytes x)"
    unfolding x saveg_write_vldoor_t_def vldoor_bytes_def prod.case by (rule emits_rules)+
  show "takes p (saveg_read_vldoor_t arch) (vldoor_bytes x) ((\<lambda>(th, str). (saved_thinker arch th, str)) x)"
    using ok unfolding x saveg_read_vldoor_t_def vldoor_bytes_def vldoor_ok_def prod.case
    by - ((rule takes_bind, (rule takes_rules, (simp only: simp_thms)?))+, rule takes_return, simp)
qed

subsection \<open>\<open>floormove_t\<close>\<close>

definition saveg_read_floormove_t :: "arch \<Rightarrow> ('x, thinker_t \<times> floormove_t) sg" where
  "saveg_read_floormove_t arch = do {
     th \<leftarrow> saveg_read_thinker_t arch;
     type \<leftarrow> saveg_read32;
     crush \<leftarrow> saveg_read32;
     sector \<leftarrow> saveg_read32;
     direction \<leftarrow> saveg_read32;
     newspecial \<leftarrow> saveg_read32;
     texture \<leftarrow> saveg_read16;
     floordestheight \<leftarrow> saveg_read32;
     speed \<leftarrow> saveg_read32;
     State_Monad.return (th,
       \<lparr>fm_type = type, fm_crush = crush, fm_sector = sector, fm_direction = direction,
       fm_newspecial = newspecial, fm_texture = texture, fm_floordestheight = floordestheight,
       fm_speed = speed\<rparr>) }"

definition saveg_write_floormove_t :: "thinker_t \<times> floormove_t \<Rightarrow> ('x, unit) sg" where
  "saveg_write_floormove_t = (\<lambda>(th, str). do {
     saveg_write_thinker_t th;
     saveg_write32 (fm_type str);
     saveg_write32 (fm_crush str);
     saveg_write32 (fm_sector str);
     saveg_write32 (fm_direction str);
     saveg_write32 (fm_newspecial str);
     saveg_write16 (fm_texture str);
     saveg_write32 (fm_floordestheight str);
     saveg_write32 (fm_speed str) })"

definition floormove_bytes :: "thinker_t \<times> floormove_t \<Rightarrow> int list" where
  "floormove_bytes = (\<lambda>(th, str). concat [thinker_bytes th,
     le32 (fm_type str), le32 (fm_crush str), le32 (fm_sector str), le32 (fm_direction str),
     le32 (fm_newspecial str), le16 (fm_texture str), le32 (fm_floordestheight str), le32 (fm_speed str)])"

definition floormove_ok :: "thinker_t \<times> floormove_t \<Rightarrow> bool" where
  "floormove_ok = (\<lambda>(th, str).
     is_i32 (fm_type str) \<and> is_i32 (fm_crush str) \<and> is_i32 (fm_sector str) \<and>
     is_i32 (fm_direction str) \<and> is_i32 (fm_newspecial str) \<and> is_i16 (fm_texture str) \<and>
     is_i32 (fm_floordestheight str) \<and> is_i32 (fm_speed str))"

interpretation c_floormove: codec saveg_write_floormove_t "saveg_read_floormove_t arch" floormove_bytes
  "\<lambda>(th, str). (saved_thinker arch th, str)" floormove_ok 42 for arch
proof unfold_locales
  fix x :: "thinker_t \<times> floormove_t" and p
  obtain th str where x: "x = (th, str)" by fastforce
  show "length (floormove_bytes x) = 42" by (simp add: x floormove_bytes_def)
  assume "floormove_ok x"
  then have ok: "floormove_ok (th, str)" by (simp add: x)
  show "emits p (saveg_write_floormove_t x) (floormove_bytes x)"
    unfolding x saveg_write_floormove_t_def floormove_bytes_def prod.case by (rule emits_rules)+
  show "takes p (saveg_read_floormove_t arch) (floormove_bytes x) ((\<lambda>(th, str). (saved_thinker arch th, str)) x)"
    using ok unfolding x saveg_read_floormove_t_def floormove_bytes_def floormove_ok_def prod.case
    by - ((rule takes_bind, (rule takes_rules, (simp only: simp_thms)?))+, rule takes_return, simp)
qed

subsection \<open>\<open>plat_t\<close>\<close>

definition saveg_read_plat_t :: "arch \<Rightarrow> ('x, thinker_t \<times> plat_t) sg" where
  "saveg_read_plat_t arch = do {
     th \<leftarrow> saveg_read_thinker_t arch;
     sector \<leftarrow> saveg_read32;
     speed \<leftarrow> saveg_read32;
     low \<leftarrow> saveg_read32;
     high \<leftarrow> saveg_read32;
     wait \<leftarrow> saveg_read32;
     count \<leftarrow> saveg_read32;
     status \<leftarrow> saveg_read32;
     oldstatus \<leftarrow> saveg_read32;
     crush \<leftarrow> saveg_read32;
     tag \<leftarrow> saveg_read32;
     type \<leftarrow> saveg_read32;
     State_Monad.return (th,
       \<lparr>pl_sector = sector, pl_speed = speed, pl_low = low, pl_high = high, pl_wait = wait,
       pl_count = count, pl_status = status, pl_oldstatus = oldstatus, pl_crush = crush, pl_tag = tag,
       pl_type = type\<rparr>) }"

definition saveg_write_plat_t :: "thinker_t \<times> plat_t \<Rightarrow> ('x, unit) sg" where
  "saveg_write_plat_t = (\<lambda>(th, str). do {
     saveg_write_thinker_t th;
     saveg_write32 (pl_sector str);
     saveg_write32 (pl_speed str);
     saveg_write32 (pl_low str);
     saveg_write32 (pl_high str);
     saveg_write32 (pl_wait str);
     saveg_write32 (pl_count str);
     saveg_write32 (pl_status str);
     saveg_write32 (pl_oldstatus str);
     saveg_write32 (pl_crush str);
     saveg_write32 (pl_tag str);
     saveg_write32 (pl_type str) })"

definition plat_bytes :: "thinker_t \<times> plat_t \<Rightarrow> int list" where
  "plat_bytes = (\<lambda>(th, str). concat [thinker_bytes th,
     le32 (pl_sector str), le32 (pl_speed str), le32 (pl_low str), le32 (pl_high str), le32 (pl_wait str),
     le32 (pl_count str), le32 (pl_status str), le32 (pl_oldstatus str), le32 (pl_crush str),
     le32 (pl_tag str), le32 (pl_type str)])"

definition plat_ok :: "thinker_t \<times> plat_t \<Rightarrow> bool" where
  "plat_ok = (\<lambda>(th, str).
     is_i32 (pl_sector str) \<and> is_i32 (pl_speed str) \<and> is_i32 (pl_low str) \<and>
     is_i32 (pl_high str) \<and> is_i32 (pl_wait str) \<and> is_i32 (pl_count str) \<and>
     is_i32 (pl_status str) \<and> is_i32 (pl_oldstatus str) \<and> is_i32 (pl_crush str) \<and>
     is_i32 (pl_tag str) \<and> is_i32 (pl_type str))"

interpretation c_plat: codec saveg_write_plat_t "saveg_read_plat_t arch" plat_bytes
  "\<lambda>(th, str). (saved_thinker arch th, str)" plat_ok 56 for arch
proof unfold_locales
  fix x :: "thinker_t \<times> plat_t" and p
  obtain th str where x: "x = (th, str)" by fastforce
  show "length (plat_bytes x) = 56" by (simp add: x plat_bytes_def)
  assume "plat_ok x"
  then have ok: "plat_ok (th, str)" by (simp add: x)
  show "emits p (saveg_write_plat_t x) (plat_bytes x)"
    unfolding x saveg_write_plat_t_def plat_bytes_def prod.case by (rule emits_rules)+
  show "takes p (saveg_read_plat_t arch) (plat_bytes x) ((\<lambda>(th, str). (saved_thinker arch th, str)) x)"
    using ok unfolding x saveg_read_plat_t_def plat_bytes_def plat_ok_def prod.case
    by - ((rule takes_bind, (rule takes_rules, (simp only: simp_thms)?))+, rule takes_return, simp)
qed

subsection \<open>\<open>lightflash_t\<close>\<close>

definition saveg_read_lightflash_t :: "arch \<Rightarrow> ('x, thinker_t \<times> lightflash_t) sg" where
  "saveg_read_lightflash_t arch = do {
     th \<leftarrow> saveg_read_thinker_t arch;
     sector \<leftarrow> saveg_read32;
     count \<leftarrow> saveg_read32;
     maxlight \<leftarrow> saveg_read32;
     minlight \<leftarrow> saveg_read32;
     maxtime \<leftarrow> saveg_read32;
     mintime \<leftarrow> saveg_read32;
     State_Monad.return (th,
       \<lparr>lf_sector = sector, lf_count = count, lf_maxlight = maxlight, lf_minlight = minlight,
       lf_maxtime = maxtime, lf_mintime = mintime\<rparr>) }"

definition saveg_write_lightflash_t :: "thinker_t \<times> lightflash_t \<Rightarrow> ('x, unit) sg" where
  "saveg_write_lightflash_t = (\<lambda>(th, str). do {
     saveg_write_thinker_t th;
     saveg_write32 (lf_sector str);
     saveg_write32 (lf_count str);
     saveg_write32 (lf_maxlight str);
     saveg_write32 (lf_minlight str);
     saveg_write32 (lf_maxtime str);
     saveg_write32 (lf_mintime str) })"

definition lightflash_bytes :: "thinker_t \<times> lightflash_t \<Rightarrow> int list" where
  "lightflash_bytes = (\<lambda>(th, str). concat [thinker_bytes th,
     le32 (lf_sector str), le32 (lf_count str), le32 (lf_maxlight str), le32 (lf_minlight str),
     le32 (lf_maxtime str), le32 (lf_mintime str)])"

definition lightflash_ok :: "thinker_t \<times> lightflash_t \<Rightarrow> bool" where
  "lightflash_ok = (\<lambda>(th, str).
     is_i32 (lf_sector str) \<and> is_i32 (lf_count str) \<and> is_i32 (lf_maxlight str) \<and>
     is_i32 (lf_minlight str) \<and> is_i32 (lf_maxtime str) \<and> is_i32 (lf_mintime str))"

interpretation c_lightflash: codec saveg_write_lightflash_t "saveg_read_lightflash_t arch" lightflash_bytes
  "\<lambda>(th, str). (saved_thinker arch th, str)" lightflash_ok 36 for arch
proof unfold_locales
  fix x :: "thinker_t \<times> lightflash_t" and p
  obtain th str where x: "x = (th, str)" by fastforce
  show "length (lightflash_bytes x) = 36" by (simp add: x lightflash_bytes_def)
  assume "lightflash_ok x"
  then have ok: "lightflash_ok (th, str)" by (simp add: x)
  show "emits p (saveg_write_lightflash_t x) (lightflash_bytes x)"
    unfolding x saveg_write_lightflash_t_def lightflash_bytes_def prod.case by (rule emits_rules)+
  show "takes p (saveg_read_lightflash_t arch) (lightflash_bytes x) ((\<lambda>(th, str). (saved_thinker arch th, str)) x)"
    using ok unfolding x saveg_read_lightflash_t_def lightflash_bytes_def lightflash_ok_def prod.case
    by - ((rule takes_bind, (rule takes_rules, (simp only: simp_thms)?))+, rule takes_return, simp)
qed

subsection \<open>\<open>strobe_t\<close>\<close>

definition saveg_read_strobe_t :: "arch \<Rightarrow> ('x, thinker_t \<times> strobe_t) sg" where
  "saveg_read_strobe_t arch = do {
     th \<leftarrow> saveg_read_thinker_t arch;
     sector \<leftarrow> saveg_read32;
     count \<leftarrow> saveg_read32;
     minlight \<leftarrow> saveg_read32;
     maxlight \<leftarrow> saveg_read32;
     darktime \<leftarrow> saveg_read32;
     brighttime \<leftarrow> saveg_read32;
     State_Monad.return (th,
       \<lparr>st_sector = sector, st_count = count, st_minlight = minlight, st_maxlight = maxlight,
       st_darktime = darktime, st_brighttime = brighttime\<rparr>) }"

definition saveg_write_strobe_t :: "thinker_t \<times> strobe_t \<Rightarrow> ('x, unit) sg" where
  "saveg_write_strobe_t = (\<lambda>(th, str). do {
     saveg_write_thinker_t th;
     saveg_write32 (st_sector str);
     saveg_write32 (st_count str);
     saveg_write32 (st_minlight str);
     saveg_write32 (st_maxlight str);
     saveg_write32 (st_darktime str);
     saveg_write32 (st_brighttime str) })"

definition strobe_bytes :: "thinker_t \<times> strobe_t \<Rightarrow> int list" where
  "strobe_bytes = (\<lambda>(th, str). concat [thinker_bytes th,
     le32 (st_sector str), le32 (st_count str), le32 (st_minlight str), le32 (st_maxlight str),
     le32 (st_darktime str), le32 (st_brighttime str)])"

definition strobe_ok :: "thinker_t \<times> strobe_t \<Rightarrow> bool" where
  "strobe_ok = (\<lambda>(th, str).
     is_i32 (st_sector str) \<and> is_i32 (st_count str) \<and> is_i32 (st_minlight str) \<and>
     is_i32 (st_maxlight str) \<and> is_i32 (st_darktime str) \<and> is_i32 (st_brighttime str))"

interpretation c_strobe: codec saveg_write_strobe_t "saveg_read_strobe_t arch" strobe_bytes
  "\<lambda>(th, str). (saved_thinker arch th, str)" strobe_ok 36 for arch
proof unfold_locales
  fix x :: "thinker_t \<times> strobe_t" and p
  obtain th str where x: "x = (th, str)" by fastforce
  show "length (strobe_bytes x) = 36" by (simp add: x strobe_bytes_def)
  assume "strobe_ok x"
  then have ok: "strobe_ok (th, str)" by (simp add: x)
  show "emits p (saveg_write_strobe_t x) (strobe_bytes x)"
    unfolding x saveg_write_strobe_t_def strobe_bytes_def prod.case by (rule emits_rules)+
  show "takes p (saveg_read_strobe_t arch) (strobe_bytes x) ((\<lambda>(th, str). (saved_thinker arch th, str)) x)"
    using ok unfolding x saveg_read_strobe_t_def strobe_bytes_def strobe_ok_def prod.case
    by - ((rule takes_bind, (rule takes_rules, (simp only: simp_thms)?))+, rule takes_return, simp)
qed

subsection \<open>\<open>glow_t\<close>\<close>

definition saveg_read_glow_t :: "arch \<Rightarrow> ('x, thinker_t \<times> glow_t) sg" where
  "saveg_read_glow_t arch = do {
     th \<leftarrow> saveg_read_thinker_t arch;
     sector \<leftarrow> saveg_read32;
     minlight \<leftarrow> saveg_read32;
     maxlight \<leftarrow> saveg_read32;
     direction \<leftarrow> saveg_read32;
     State_Monad.return (th,
       \<lparr>gl_sector = sector, gl_minlight = minlight, gl_maxlight = maxlight,
       gl_direction = direction\<rparr>) }"

definition saveg_write_glow_t :: "thinker_t \<times> glow_t \<Rightarrow> ('x, unit) sg" where
  "saveg_write_glow_t = (\<lambda>(th, str). do {
     saveg_write_thinker_t th;
     saveg_write32 (gl_sector str);
     saveg_write32 (gl_minlight str);
     saveg_write32 (gl_maxlight str);
     saveg_write32 (gl_direction str) })"

definition glow_bytes :: "thinker_t \<times> glow_t \<Rightarrow> int list" where
  "glow_bytes = (\<lambda>(th, str). concat [thinker_bytes th,
     le32 (gl_sector str), le32 (gl_minlight str), le32 (gl_maxlight str), le32 (gl_direction str)])"

definition glow_ok :: "thinker_t \<times> glow_t \<Rightarrow> bool" where
  "glow_ok = (\<lambda>(th, str).
     is_i32 (gl_sector str) \<and> is_i32 (gl_minlight str) \<and> is_i32 (gl_maxlight str) \<and>
     is_i32 (gl_direction str))"

interpretation c_glow: codec saveg_write_glow_t "saveg_read_glow_t arch" glow_bytes
  "\<lambda>(th, str). (saved_thinker arch th, str)" glow_ok 28 for arch
proof unfold_locales
  fix x :: "thinker_t \<times> glow_t" and p
  obtain th str where x: "x = (th, str)" by fastforce
  show "length (glow_bytes x) = 28" by (simp add: x glow_bytes_def)
  assume "glow_ok x"
  then have ok: "glow_ok (th, str)" by (simp add: x)
  show "emits p (saveg_write_glow_t x) (glow_bytes x)"
    unfolding x saveg_write_glow_t_def glow_bytes_def prod.case by (rule emits_rules)+
  show "takes p (saveg_read_glow_t arch) (glow_bytes x) ((\<lambda>(th, str). (saved_thinker arch th, str)) x)"
    using ok unfolding x saveg_read_glow_t_def glow_bytes_def glow_ok_def prod.case
    by - ((rule takes_bind, (rule takes_rules, (simp only: simp_thms)?))+, rule takes_return, simp)
qed

section \<open>Map objects\<close>

text \<open>
  \<open>angle\<close> is an unsigned \<open>angle_t\<close>. \<open>player\<close> is saved as the player's number plus one. The
  reader changes a player, and is with the archive functions of \<open>Saveg\<close>.
\<close>

definition player_number :: "mobj_t \<Rightarrow> int" where
  "player_number str = (case mo_player str of Some i \<Rightarrow> i + 1 | None \<Rightarrow> 0)"

definition saveg_write_mobj_t :: "thinker_t \<times> mobj_t \<Rightarrow> ('x, unit) sg" where
  "saveg_write_mobj_t = (\<lambda>(th, str). do {
     saveg_write_thinker_t th;
     saveg_write32 (mo_x str);
     saveg_write32 (mo_y str);
     saveg_write32 (mo_z str);
     saveg_writep (mo_snext str);
     saveg_writep (mo_sprev str);
     saveg_write32 (mo_angle str);
     saveg_write32 (mo_sprite str);
     saveg_write32 (mo_frame str);
     saveg_writep (mo_bnext str);
     saveg_writep (mo_bprev str);
     saveg_writep (mo_subsector str);
     saveg_write32 (mo_floorz str);
     saveg_write32 (mo_ceilingz str);
     saveg_write32 (mo_radius str);
     saveg_write32 (mo_height str);
     saveg_write32 (mo_momx str);
     saveg_write32 (mo_momy str);
     saveg_write32 (mo_momz str);
     saveg_write32 (mo_validcount str);
     saveg_write32 (mo_type str);
     saveg_writep (mo_info str);
     saveg_write32 (mo_tics str);
     saveg_write32 (mo_state str);
     saveg_write32 (mo_flags str);
     saveg_write32 (mo_health str);
     saveg_write32 (mo_movedir str);
     saveg_write32 (mo_movecount str);
     saveg_writep (mo_target str);
     saveg_write32 (mo_reactiontime str);
     saveg_write32 (mo_threshold str);
     saveg_write32 (player_number str);
     saveg_write32 (mo_lastlook str);
     saveg_write_mapthing_t (mo_spawnpoint str);
     saveg_writep (mo_tracer str) })"

definition mobj_bytes :: "thinker_t \<times> mobj_t \<Rightarrow> int list" where
  "mobj_bytes = (\<lambda>(th, str). concat [thinker_bytes th,
     le32 (mo_x str), le32 (mo_y str), le32 (mo_z str), le32 (mo_snext str), le32 (mo_sprev str),
     le32 (mo_angle str), le32 (mo_sprite str), le32 (mo_frame str), le32 (mo_bnext str),
     le32 (mo_bprev str), le32 (mo_subsector str), le32 (mo_floorz str), le32 (mo_ceilingz str),
     le32 (mo_radius str), le32 (mo_height str), le32 (mo_momx str), le32 (mo_momy str),
     le32 (mo_momz str), le32 (mo_validcount str), le32 (mo_type str), le32 (mo_info str),
     le32 (mo_tics str), le32 (mo_state str), le32 (mo_flags str), le32 (mo_health str),
     le32 (mo_movedir str), le32 (mo_movecount str), le32 (mo_target str), le32 (mo_reactiontime str),
     le32 (mo_threshold str), le32 (player_number str), le32 (mo_lastlook str),
     mapthing_bytes (mo_spawnpoint str), le32 (mo_tracer str)])"

definition mobj_ok :: "thinker_t \<times> mobj_t \<Rightarrow> bool" where
  "mobj_ok = (\<lambda>(th, str). 0 \<le> mo_angle str \<and> mo_angle str < 2 ^ 32 \<and> is_i32 (player_number str) \<and>
     (\<forall>i. mo_player str = Some i \<longrightarrow> 0 \<le> i) \<and> mapthing_ok (mo_spawnpoint str) \<and>
     is_i32 (mo_x str) \<and> is_i32 (mo_y str) \<and> is_i32 (mo_z str) \<and>
     is_i32 (mo_sprite str) \<and> is_i32 (mo_frame str) \<and> is_i32 (mo_floorz str) \<and>
     is_i32 (mo_ceilingz str) \<and> is_i32 (mo_radius str) \<and> is_i32 (mo_height str) \<and>
     is_i32 (mo_momx str) \<and> is_i32 (mo_momy str) \<and> is_i32 (mo_momz str) \<and>
     is_i32 (mo_validcount str) \<and> is_i32 (mo_type str) \<and> is_i32 (mo_tics str) \<and>
     is_i32 (mo_state str) \<and> is_i32 (mo_flags str) \<and> is_i32 (mo_health str) \<and>
     is_i32 (mo_movedir str) \<and> is_i32 (mo_movecount str) \<and> is_i32 (mo_reactiontime str) \<and>
     is_i32 (mo_threshold str) \<and> is_i32 (mo_lastlook str))"

definition saved_mobj :: "arch \<Rightarrow> mobj_t \<Rightarrow> mobj_t" where
  "saved_mobj arch str = str\<lparr>
     mo_snext := saved_ptr arch (mo_snext str), mo_sprev := saved_ptr arch (mo_sprev str),
     mo_bnext := saved_ptr arch (mo_bnext str), mo_bprev := saved_ptr arch (mo_bprev str),
     mo_subsector := saved_ptr arch (mo_subsector str), mo_info := saved_ptr arch (mo_info str),
     mo_target := saved_ptr arch (mo_target str), mo_tracer := saved_ptr arch (mo_tracer str)\<rparr>"

lemma u32_i32: "0 \<le> x \<Longrightarrow> x < 2 ^ 32 \<Longrightarrow> u32 (i32 x) = x"
proof -
  assume "0 \<le> x" "x < 2 ^ 32"
  moreover have "u32 (i32 x) = u32 x" by (rule bit_eqI) (auto simp: u32_def bit_simps bit_i32)
  ultimately show ?thesis by (simp add: u32_def take_bit_int_eq_self)
qed

lemma player_number_back:
  "\<forall>i. mo_player str = Some i \<longrightarrow> 0 \<le> i \<Longrightarrow>
    (if player_number str > 0 then Some (player_number str - 1) else None) = mo_player str"
  by (cases "mo_player str") (simp_all add: player_number_def)

lemma mobj_width: "length (mobj_bytes x) = 154"
  by (cases x) (simp add: mobj_bytes_def)

lemma emits_mobj: "mobj_ok x \<Longrightarrow> emits p (saveg_write_mobj_t x) (mobj_bytes x)"
proof -
  obtain th str where x: "x = (th, str)" by fastforce
  show "emits p (saveg_write_mobj_t x) (mobj_bytes x)"
    unfolding x saveg_write_mobj_t_def mobj_bytes_def prod.case by (rule emits_rules)+
qed

section \<open>Players\<close>

definition i8 :: "int \<Rightarrow> int" where
  "i8 x = signed_take_bit 7 x"

text \<open>
  \<open>consistancy\<close> is a \<open>byte\<close> that is saved as 16 bits; the fields of the other games are not
  saved and keep the value \<open>old\<close> has.
\<close>

definition saveg_read_ticcmd_t :: "ticcmd_t \<Rightarrow> ('x, ticcmd_t) sg" where
  "saveg_read_ticcmd_t old = do {
     forwardmove \<leftarrow> saveg_read8;
     sidemove \<leftarrow> saveg_read8;
     angleturn \<leftarrow> saveg_read16;
     consistancy \<leftarrow> saveg_read16;
     chatchar \<leftarrow> saveg_read8;
     buttons \<leftarrow> saveg_read8;
     State_Monad.return (old\<lparr>cmd_forwardmove := i8 forwardmove, cmd_sidemove := i8 sidemove,
       cmd_angleturn := angleturn, cmd_consistancy := u8 consistancy, cmd_chatchar := chatchar,
       cmd_buttons := buttons\<rparr>) }"

definition saveg_write_ticcmd_t :: "ticcmd_t \<Rightarrow> ('x, unit) sg" where
  "saveg_write_ticcmd_t str = do {
     saveg_write8 (cmd_forwardmove str);
     saveg_write8 (cmd_sidemove str);
     saveg_write16 (cmd_angleturn str);
     saveg_write16 (cmd_consistancy str);
     saveg_write8 (cmd_chatchar str);
     saveg_write8 (cmd_buttons str) }"

definition saveg_read_pspdef_t :: "('x, pspdef_t) sg" where
  "saveg_read_pspdef_t = do {
     state \<leftarrow> saveg_read32;
     tics \<leftarrow> saveg_read32;
     sx \<leftarrow> saveg_read32;
     sy \<leftarrow> saveg_read32;
     State_Monad.return \<lparr>psp_state = (if state > 0 then Some state else None), psp_tics = tics, psp_sx = sx, psp_sy = sy\<rparr> }"

definition saveg_write_pspdef_t :: "pspdef_t \<Rightarrow> ('x, unit) sg" where
  "saveg_write_pspdef_t str = do {
     saveg_write32 (case psp_state str of Some state \<Rightarrow> state | None \<Rightarrow> 0);
     saveg_write32 (psp_tics str);
     saveg_write32 (psp_sx str);
     saveg_write32 (psp_sy str) }"

definition saveg_read_player_t :: "arch \<Rightarrow> player_t \<Rightarrow> ('x, player_t) sg" where
  "saveg_read_player_t arch old = do {
     mo \<leftarrow> saveg_readp arch;
     playerstate \<leftarrow> saveg_read32;
     cmd \<leftarrow> saveg_read_ticcmd_t (pr_cmd old);
     viewz \<leftarrow> saveg_read32;
     viewheight \<leftarrow> saveg_read32;
     deltaviewheight \<leftarrow> saveg_read32;
     bob \<leftarrow> saveg_read32;
     health \<leftarrow> saveg_read32;
     armorpoints \<leftarrow> saveg_read32;
     armortype \<leftarrow> saveg_read32;
     powers \<leftarrow> read_array NUMPOWERS saveg_read32;
     cards \<leftarrow> read_array NUMCARDS saveg_read32;
     backpack \<leftarrow> saveg_read32;
     frags \<leftarrow> read_array MAXPLAYERS saveg_read32;
     readyweapon \<leftarrow> saveg_read32;
     pendingweapon \<leftarrow> saveg_read32;
     weaponowned \<leftarrow> read_array NUMWEAPONS saveg_read32;
     ammo \<leftarrow> read_array NUMAMMO saveg_read32;
     maxammo \<leftarrow> read_array NUMAMMO saveg_read32;
     attackdown \<leftarrow> saveg_read32;
     usedown \<leftarrow> saveg_read32;
     cheats \<leftarrow> saveg_read32;
     refire \<leftarrow> saveg_read32;
     killcount \<leftarrow> saveg_read32;
     itemcount \<leftarrow> saveg_read32;
     secretcount \<leftarrow> saveg_read32;
     message \<leftarrow> saveg_readp arch;
     damagecount \<leftarrow> saveg_read32;
     bonuscount \<leftarrow> saveg_read32;
     attacker \<leftarrow> saveg_readp arch;
     extralight \<leftarrow> saveg_read32;
     fixedcolormap \<leftarrow> saveg_read32;
     colormap \<leftarrow> saveg_read32;
     psprites \<leftarrow> read_array NUMPSPRITES saveg_read_pspdef_t;
     didsecret \<leftarrow> saveg_read32;
     State_Monad.return
       \<lparr>pr_mo = mo, pr_playerstate = playerstate, pr_cmd = cmd, pr_viewz = viewz,
       pr_viewheight = viewheight, pr_deltaviewheight = deltaviewheight, pr_bob = bob, pr_health = health,
       pr_armorpoints = armorpoints, pr_armortype = armortype, pr_powers = powers, pr_cards = cards,
       pr_backpack = backpack, pr_frags = frags, pr_readyweapon = readyweapon,
       pr_pendingweapon = pendingweapon, pr_weaponowned = weaponowned, pr_ammo = ammo,
       pr_maxammo = maxammo, pr_attackdown = attackdown, pr_usedown = usedown, pr_cheats = cheats,
       pr_refire = refire, pr_killcount = killcount, pr_itemcount = itemcount,
       pr_secretcount = secretcount, pr_message = message, pr_damagecount = damagecount,
       pr_bonuscount = bonuscount, pr_attacker = attacker, pr_extralight = extralight,
       pr_fixedcolormap = fixedcolormap, pr_colormap = colormap, pr_psprites = psprites,
       pr_didsecret = didsecret\<rparr> }"

definition saveg_write_player_t :: "player_t \<Rightarrow> ('x, unit) sg" where
  "saveg_write_player_t str = do {
     saveg_writep (pr_mo str);
     saveg_write32 (pr_playerstate str);
     saveg_write_ticcmd_t (pr_cmd str);
     saveg_write32 (pr_viewz str);
     saveg_write32 (pr_viewheight str);
     saveg_write32 (pr_deltaviewheight str);
     saveg_write32 (pr_bob str);
     saveg_write32 (pr_health str);
     saveg_write32 (pr_armorpoints str);
     saveg_write32 (pr_armortype str);
     for_each saveg_write32 (pr_powers str);
     for_each saveg_write32 (pr_cards str);
     saveg_write32 (pr_backpack str);
     for_each saveg_write32 (pr_frags str);
     saveg_write32 (pr_readyweapon str);
     saveg_write32 (pr_pendingweapon str);
     for_each saveg_write32 (pr_weaponowned str);
     for_each saveg_write32 (pr_ammo str);
     for_each saveg_write32 (pr_maxammo str);
     saveg_write32 (pr_attackdown str);
     saveg_write32 (pr_usedown str);
     saveg_write32 (pr_cheats str);
     saveg_write32 (pr_refire str);
     saveg_write32 (pr_killcount str);
     saveg_write32 (pr_itemcount str);
     saveg_write32 (pr_secretcount str);
     saveg_writep (pr_message str);
     saveg_write32 (pr_damagecount str);
     saveg_write32 (pr_bonuscount str);
     saveg_writep (pr_attacker str);
     saveg_write32 (pr_extralight str);
     saveg_write32 (pr_fixedcolormap str);
     saveg_write32 (pr_colormap str);
     for_each saveg_write_pspdef_t (pr_psprites str);
     saveg_write32 (pr_didsecret str) }"

definition ticcmd_bytes :: "ticcmd_t \<Rightarrow> int list" where
  "ticcmd_bytes str = concat [[u8 (cmd_forwardmove str)], [u8 (cmd_sidemove str)], le16 (cmd_angleturn str),
     le16 (cmd_consistancy str), [u8 (cmd_chatchar str)], [u8 (cmd_buttons str)]]"

definition ticcmd_ok :: "ticcmd_t \<Rightarrow> bool" where
  "ticcmd_ok str \<longleftrightarrow> - 128 \<le> cmd_forwardmove str \<and> cmd_forwardmove str < 128 \<and> - 128 \<le> cmd_sidemove str \<and>
     cmd_sidemove str < 128 \<and> is_i16 (cmd_angleturn str) \<and> 0 \<le> cmd_consistancy str \<and> cmd_consistancy str < 256 \<and>
     0 \<le> cmd_chatchar str \<and> cmd_chatchar str < 256 \<and> 0 \<le> cmd_buttons str \<and> cmd_buttons str < 256"

definition saved_ticcmd :: "ticcmd_t \<Rightarrow> ticcmd_t \<Rightarrow> ticcmd_t" where
  "saved_ticcmd old str = str\<lparr>cmd_buttons2 := cmd_buttons2 old, cmd_inventory := cmd_inventory old,
     cmd_lookfly := cmd_lookfly old, cmd_arti := cmd_arti old\<rparr>"

definition pspdef_bytes :: "pspdef_t \<Rightarrow> int list" where
  "pspdef_bytes str = concat [le32 (case psp_state str of Some state \<Rightarrow> state | None \<Rightarrow> 0),
     le32 (psp_tics str), le32 (psp_sx str), le32 (psp_sy str)]"

text \<open>State 0, \<open>S_NULL\<close>, reads back as no state at all.\<close>

definition pspdef_ok :: "pspdef_t \<Rightarrow> bool" where
  "pspdef_ok str \<longleftrightarrow> (\<forall>state. psp_state str = Some state \<longrightarrow> 0 < state \<and> is_i32 state) \<and>
     is_i32 (psp_tics str) \<and> is_i32 (psp_sx str) \<and> is_i32 (psp_sy str)"

definition player_bytes :: "player_t \<Rightarrow> int list" where
  "player_bytes str = concat [
     le32 (pr_mo str), le32 (pr_playerstate str), ticcmd_bytes (pr_cmd str), le32 (pr_viewz str),
     le32 (pr_viewheight str), le32 (pr_deltaviewheight str), le32 (pr_bob str), le32 (pr_health str),
     le32 (pr_armorpoints str), le32 (pr_armortype str), concat (map le32 (pr_powers str)),
     concat (map le32 (pr_cards str)), le32 (pr_backpack str), concat (map le32 (pr_frags str)),
     le32 (pr_readyweapon str), le32 (pr_pendingweapon str), concat (map le32 (pr_weaponowned str)),
     concat (map le32 (pr_ammo str)), concat (map le32 (pr_maxammo str)), le32 (pr_attackdown str),
     le32 (pr_usedown str), le32 (pr_cheats str), le32 (pr_refire str), le32 (pr_killcount str),
     le32 (pr_itemcount str), le32 (pr_secretcount str), le32 (pr_message str), le32 (pr_damagecount str),
     le32 (pr_bonuscount str), le32 (pr_attacker str), le32 (pr_extralight str),
     le32 (pr_fixedcolormap str), le32 (pr_colormap str), concat (map pspdef_bytes (pr_psprites str)),
     le32 (pr_didsecret str)]"

definition player_ok :: "player_t \<Rightarrow> bool" where
  "player_ok str \<longleftrightarrow> player_shape str \<and> ticcmd_ok (pr_cmd str) \<and> (\<forall>psp\<in>set (pr_psprites str). pspdef_ok psp) \<and>
     (\<forall>x\<in>set (pr_powers str). is_i32 x) \<and>
     (\<forall>x\<in>set (pr_cards str). is_i32 x) \<and>
     (\<forall>x\<in>set (pr_frags str). is_i32 x) \<and>
     (\<forall>x\<in>set (pr_weaponowned str). is_i32 x) \<and>
     (\<forall>x\<in>set (pr_ammo str). is_i32 x) \<and>
     (\<forall>x\<in>set (pr_maxammo str). is_i32 x) \<and> is_i32 (pr_playerstate str) \<and>
     is_i32 (pr_viewz str) \<and> is_i32 (pr_viewheight str) \<and> is_i32 (pr_deltaviewheight str) \<and>
     is_i32 (pr_bob str) \<and> is_i32 (pr_health str) \<and> is_i32 (pr_armorpoints str) \<and>
     is_i32 (pr_armortype str) \<and> is_i32 (pr_backpack str) \<and> is_i32 (pr_readyweapon str) \<and>
     is_i32 (pr_pendingweapon str) \<and> is_i32 (pr_attackdown str) \<and> is_i32 (pr_usedown str) \<and>
     is_i32 (pr_cheats str) \<and> is_i32 (pr_refire str) \<and> is_i32 (pr_killcount str) \<and>
     is_i32 (pr_itemcount str) \<and> is_i32 (pr_secretcount str) \<and> is_i32 (pr_damagecount str) \<and>
     is_i32 (pr_bonuscount str) \<and> is_i32 (pr_extralight str) \<and>
     is_i32 (pr_fixedcolormap str) \<and> is_i32 (pr_colormap str) \<and> is_i32 (pr_didsecret str)"

definition saved_player :: "arch \<Rightarrow> player_t \<Rightarrow> player_t \<Rightarrow> player_t" where
  "saved_player arch old str = str\<lparr>pr_mo := saved_ptr arch (pr_mo str), pr_cmd := saved_ticcmd (pr_cmd old) (pr_cmd str),
     pr_message := saved_ptr arch (pr_message str), pr_attacker := saved_ptr arch (pr_attacker str)\<rparr>"

lemma i8_u8: "- 128 \<le> x \<Longrightarrow> x < 128 \<Longrightarrow> i8 (u8 x) = x"
proof -
  assume "- 128 \<le> x" "x < 128"
  moreover have "signed_take_bit 7 (take_bit 8 x) = signed_take_bit 7 x"
    by (simp add: signed_take_bit_eq_iff_take_bit_eq)
  ultimately show ?thesis unfolding i8_def u8_def by (simp add: signed_take_bit_int_eq_self)
qed

lemma u8_id: "0 \<le> x \<Longrightarrow> x < 256 \<Longrightarrow> u8 x = x"
  by (simp add: u8_def take_bit_int_eq_self)

interpretation c_ticcmd: codec saveg_write_ticcmd_t "saveg_read_ticcmd_t old" ticcmd_bytes "saved_ticcmd old" ticcmd_ok 8 for old
proof unfold_locales
  fix x p
  show "length (ticcmd_bytes x) = 8" by (simp add: ticcmd_bytes_def)
  assume ok: "ticcmd_ok x"
  show "emits p (saveg_write_ticcmd_t x) (ticcmd_bytes x)"
    unfolding saveg_write_ticcmd_t_def ticcmd_bytes_def by (rule emits_rules emits8)+
  have c: "is_i16 (cmd_consistancy x)" "u8 (cmd_consistancy x) = cmd_consistancy x" "u8 (cmd_chatchar x) = cmd_chatchar x"
    "u8 (cmd_buttons x) = cmd_buttons x" "i8 (u8 (cmd_forwardmove x)) = cmd_forwardmove x"
    "i8 (u8 (cmd_sidemove x)) = cmd_sidemove x" "is_i16 (cmd_angleturn x)"
    using ok by (simp_all add: ticcmd_ok_def is_i16_def u8_id i8_u8)
  show "takes p (saveg_read_ticcmd_t old) (ticcmd_bytes x) (saved_ticcmd old x)"
    unfolding saveg_read_ticcmd_t_def ticcmd_bytes_def
    by ((rule takes_bind, (rule takes8 | rule takes16, rule c))+, rule takes_return, simp add: c saved_ticcmd_def)
qed

interpretation c_pspdef: codec saveg_write_pspdef_t saveg_read_pspdef_t pspdef_bytes "\<lambda>x. x" pspdef_ok 16
proof unfold_locales
  fix x p
  show "length (pspdef_bytes x) = 16" by (simp add: pspdef_bytes_def)
  assume ok: "pspdef_ok x"
  show "emits p (saveg_write_pspdef_t x) (pspdef_bytes x)"
    unfolding saveg_write_pspdef_t_def pspdef_bytes_def by (rule emits_rules)+
  define n where "n = (case psp_state x of Some state \<Rightarrow> state | None \<Rightarrow> 0)"
  have c: "is_i32 n" "(if n > 0 then Some n else None) = psp_state x" "is_i32 (psp_tics x)" "is_i32 (psp_sx x)" "is_i32 (psp_sy x)"
    using ok by (cases "psp_state x"; simp add: pspdef_ok_def n_def is_i32_iff)+
  show "takes p saveg_read_pspdef_t (pspdef_bytes x) x"
    unfolding saveg_read_pspdef_t_def pspdef_bytes_def n_def [symmetric]
    by ((rule takes_bind, rule takes32, rule c)+, rule takes_return, simp add: c)
qed

lemma takes_array32: "\<forall>x\<in>set xs. is_i32 x \<Longrightarrow> length xs = n \<Longrightarrow> takes p (read_array n saveg_read32) (concat (map le32 xs)) xs"
  using c32.rd_array [of xs n p] by simp

lemma takes_psprites:
  "\<forall>x\<in>set xs. pspdef_ok x \<Longrightarrow> length xs = n \<Longrightarrow> takes p (read_array n saveg_read_pspdef_t) (concat (map pspdef_bytes xs)) xs"
  using c_pspdef.rd_array [of xs n p] by simp

interpretation c_player: codec saveg_write_player_t "saveg_read_player_t arch old" player_bytes "saved_player arch old" player_ok 280
  for arch old
proof unfold_locales
  fix x p
  assume ok: "player_ok x"
  have arr: "length (concat (map le32 xs)) = 4 * length xs" for xs by (induction xs) simp_all
  have "length (concat (map pspdef_bytes (pr_psprites x))) = 16 * length (pr_psprites x)"
    by (rule c_pspdef.array_width) (use ok in \<open>simp add: player_ok_def\<close>)
  moreover have "length (ticcmd_bytes (pr_cmd x)) = 8" by (simp add: ticcmd_bytes_def)
  moreover have "player_shape x" using ok by (simp add: player_ok_def)
  ultimately show "length (player_bytes x) = 280"
    unfolding player_bytes_def player_shape_def by (simp only: concat.simps length_append arr le_length player_consts list.size)
  have cmd: "ticcmd_ok (pr_cmd x)" and psp: "\<forall>psp\<in>set (pr_psprites x). pspdef_ok psp" using ok by (simp_all add: player_ok_def)
  show "emits p (saveg_write_player_t x) (player_bytes x)"
    unfolding saveg_write_player_t_def player_bytes_def
    by (rule emits_rules c_ticcmd.wr [OF cmd] c_pspdef.wr_array [OF psp] emits_array [OF emits32])+
  show "takes p (saveg_read_player_t arch old) (player_bytes x) (saved_player arch old x)"
    using ok unfolding saveg_read_player_t_def player_bytes_def player_ok_def player_shape_def
    by - ((rule takes_bind, (rule takesp | (rule takes32 takes_array32 takes_psprites c_ticcmd.rd; elim conjE, assumption)))+,
      rule takes_return, simp add: saved_player_def)
qed

end
