(* ===== verification/Spec.thy ===== *)
theory Spec
  imports Level
begin

text \<open>
  The queries of \<^verbatim>\<open>p_spec.c\<close> about the surroundings of a sector, which the moving floors,
  ceilings and lights ask. Sectors and lines are indices into the level's tables.
\<close>

definition ML_TWOSIDED :: int where "ML_TWOSIDED = 4"

abbreviation sector :: "level \<Rightarrow> nat \<Rightarrow> sector_t" where "sector lv s \<equiv> lv_sectors lv ! s"
abbreviation line :: "level \<Rightarrow> nat \<Rightarrow> line_t" where "line lv l \<equiv> lv_lines lv ! l"

definition getSide :: "level \<Rightarrow> nat \<Rightarrow> nat \<Rightarrow> nat \<Rightarrow> side_t" where
  "getSide lv currentSector l side =
     (let ln = line lv (sc_lines (sector lv currentSector) ! l)
      in lv_sides lv ! nat (if side = 0 then fst (ln_sidenum ln) else snd (ln_sidenum ln)))"

definition getSector :: "level \<Rightarrow> nat \<Rightarrow> nat \<Rightarrow> nat \<Rightarrow> nat" where
  "getSector lv currentSector l side =
     (let ln = line lv (sc_lines (sector lv currentSector) ! l)
      in sd_sector (lv_sides lv ! nat (if side = 0 then fst (ln_sidenum ln) else snd (ln_sidenum ln))))"

definition twoSided :: "level \<Rightarrow> nat \<Rightarrow> nat \<Rightarrow> int" where
  "twoSided lv s l = ln_flags (line lv (sc_lines (sector lv s) ! l)) AND ML_TWOSIDED"

definition getNextSector :: "line_t \<Rightarrow> nat \<Rightarrow> nat option" where
  "getNextSector ln sec =
     (if ln_flags ln AND ML_TWOSIDED = 0 then None
      else if ln_frontsector ln = Some sec then ln_backsector ln
      else ln_frontsector ln)"

definition P_FindLowestFloorSurrounding :: "level \<Rightarrow> nat \<Rightarrow> int" where
  "P_FindLowestFloorSurrounding lv sec =
     fold (\<lambda>l floor. case getNextSector (line lv l) sec of
             None \<Rightarrow> floor
           | Some other \<Rightarrow> if sc_floorheight (sector lv other) < floor
                           then sc_floorheight (sector lv other) else floor)
          (sc_lines (sector lv sec)) (sc_floorheight (sector lv sec))"

definition P_FindHighestFloorSurrounding :: "level \<Rightarrow> nat \<Rightarrow> int" where
  "P_FindHighestFloorSurrounding lv sec =
     fold (\<lambda>l floor. case getNextSector (line lv l) sec of
             None \<Rightarrow> floor
           | Some other \<Rightarrow> if sc_floorheight (sector lv other) > floor
                           then sc_floorheight (sector lv other) else floor)
          (sc_lines (sector lv sec)) (- 500 * FRACUNIT)"

definition MAX_ADJOINING_SECTORS :: nat where "MAX_ADJOINING_SECTORS = 20"

text \<open>
  The list of heights is kept in an array of 22 entries; the 22nd entry also overwrites
  the variable \<open>height\<close>, as it did on the stack of the original program.
\<close>

fun next_highest_loop :: "level \<Rightarrow> nat \<Rightarrow> nat list \<Rightarrow> int \<Rightarrow> int list \<Rightarrow> int list result" where
  "next_highest_loop lv sec [] height heightlist = Inr heightlist"
| "next_highest_loop lv sec (l # ls) height heightlist =
     (case getNextSector (line lv l) sec of
        None \<Rightarrow> next_highest_loop lv sec ls height heightlist
      | Some other \<Rightarrow>
          (let fl = sc_floorheight (sector lv other)
           in if fl > height
              then if length heightlist = MAX_ADJOINING_SECTORS + 1
                   then next_highest_loop lv sec ls fl (heightlist @ [fl])
                   else if length heightlist = MAX_ADJOINING_SECTORS + 2
                   then Inl (I_Error ''Sector with more than 22 adjoining sectors. Vanilla will crash here'')
                   else next_highest_loop lv sec ls height (heightlist @ [fl])
              else next_highest_loop lv sec ls height heightlist))"

definition P_FindNextHighestFloor :: "level \<Rightarrow> nat \<Rightarrow> int \<Rightarrow> int result" where
  "P_FindNextHighestFloor lv sec currentheight =
     bindE (next_highest_loop lv sec (sc_lines (sector lv sec)) currentheight []) (\<lambda>heightlist.
       case heightlist of
         [] \<Rightarrow> Inr currentheight
       | h # hs \<Rightarrow> Inr (fold (\<lambda>x m. if x < m then x else m) hs h))"

definition P_FindLowestCeilingSurrounding :: "level \<Rightarrow> nat \<Rightarrow> int" where
  "P_FindLowestCeilingSurrounding lv sec =
     fold (\<lambda>l height. case getNextSector (line lv l) sec of
             None \<Rightarrow> height
           | Some other \<Rightarrow> if sc_ceilingheight (sector lv other) < height
                           then sc_ceilingheight (sector lv other) else height)
          (sc_lines (sector lv sec)) INT_MAX"

definition P_FindHighestCeilingSurrounding :: "level \<Rightarrow> nat \<Rightarrow> int" where
  "P_FindHighestCeilingSurrounding lv sec =
     fold (\<lambda>l height. case getNextSector (line lv l) sec of
             None \<Rightarrow> height
           | Some other \<Rightarrow> if sc_ceilingheight (sector lv other) > height
                           then sc_ceilingheight (sector lv other) else height)
          (sc_lines (sector lv sec)) 0"

definition P_FindSectorFromLineTag :: "level \<Rightarrow> line_t \<Rightarrow> int \<Rightarrow> int" where
  "P_FindSectorFromLineTag lv ln start =
     (case find (\<lambda>i. sc_tag (sector lv i) = ln_tag ln) [nat (start + 1)..<length (lv_sectors lv)] of
        Some i \<Rightarrow> int i
      | None \<Rightarrow> -1)"

definition P_FindMinSurroundingLight :: "level \<Rightarrow> nat \<Rightarrow> int \<Rightarrow> int" where
  "P_FindMinSurroundingLight lv sec mx =
     fold (\<lambda>l mn. case getNextSector (line lv l) sec of
             None \<Rightarrow> mn
           | Some check \<Rightarrow> if sc_lightlevel (sector lv check) < mn
                           then sc_lightlevel (sector lv check) else mn)
          (sc_lines (sector lv sec)) mx"

section \<open>What the queries find\<close>

text \<open>The sectors on the other side of a sector's two-sided lines.\<close>

definition neighbours :: "level \<Rightarrow> nat \<Rightarrow> nat set" where
  "neighbours lv sec = {other. \<exists>l\<in>set (sc_lines (sector lv sec)). getNextSector (line lv l) sec = Some other}"

lemma finite_neighbours [simp]: "finite (neighbours lv sec)"
proof -
  have "neighbours lv sec \<subseteq> (\<lambda>l. the (getNextSector (line lv l) sec)) ` set (sc_lines (sector lv sec))"
    by (force simp: neighbours_def)
  then show ?thesis by (rule finite_subset) simp
qed

lemma fold_min_option:
  fixes f :: "'b \<Rightarrow> int"
  shows "fold (\<lambda>l m. case g l of None \<Rightarrow> m | Some x \<Rightarrow> if f x < m then f x else m) ls m0 =
    Min (insert m0 (f ` {x. \<exists>l\<in>set ls. g l = Some x}))"
proof (induction ls arbitrary: m0)
  case (Cons l ls)
  have fin: "finite {x. \<exists>l\<in>set ls. g l = Some x}"
    by (rule finite_subset [of _ "(\<lambda>l. the (g l)) ` set ls"]) (force simp: image_iff)+
  show ?case
  proof (cases "g l")
    case None
    then have "{x. \<exists>k\<in>set (l # ls). g k = Some x} = {x. \<exists>l\<in>set ls. g l = Some x}" by auto
    then show ?thesis using Cons.IH [of m0] None by simp
  next
    case (Some y)
    then have e: "{x. \<exists>k\<in>set (l # ls). g k = Some x} = insert y {x. \<exists>l\<in>set ls. g l = Some x}" by auto
    have "fold (\<lambda>l m. case g l of None \<Rightarrow> m | Some x \<Rightarrow> if f x < m then f x else m) (l # ls) m0 =
      Min (insert (min (f y) m0) (f ` {x. \<exists>l\<in>set ls. g l = Some x}))"
    proof -
      have "(if f y < m0 then f y else m0) = min (f y) m0" by simp
      with Cons.IH [of "min (f y) m0"] Some show ?thesis by (simp only: fold_Cons o_apply option.case)
    qed
    also have "\<dots> = Min (insert m0 (f ` insert y {x. \<exists>l\<in>set ls. g l = Some x}))"
    proof (cases "{x. \<exists>l\<in>set ls. g l = Some x} = {}")
      case True then show ?thesis by (simp add: min.commute)
    next
      case False
      with fin show ?thesis by (simp add: min.assoc min.left_commute)
    qed
    finally show ?thesis unfolding e .
  qed
qed simp

lemma fold_max_option:
  fixes f :: "'b \<Rightarrow> int"
  shows "fold (\<lambda>l m. case g l of None \<Rightarrow> m | Some x \<Rightarrow> if f x > m then f x else m) ls m0 =
    Max (insert m0 (f ` {x. \<exists>l\<in>set ls. g l = Some x}))"
proof (induction ls arbitrary: m0)
  case (Cons l ls)
  have fin: "finite {x. \<exists>l\<in>set ls. g l = Some x}"
    by (rule finite_subset [of _ "(\<lambda>l. the (g l)) ` set ls"]) (force simp: image_iff)+
  show ?case
  proof (cases "g l")
    case None
    then have "{x. \<exists>k\<in>set (l # ls). g k = Some x} = {x. \<exists>l\<in>set ls. g l = Some x}" by auto
    then show ?thesis using Cons.IH [of m0] None by simp
  next
    case (Some y)
    then have e: "{x. \<exists>k\<in>set (l # ls). g k = Some x} = insert y {x. \<exists>l\<in>set ls. g l = Some x}" by auto
    have "fold (\<lambda>l m. case g l of None \<Rightarrow> m | Some x \<Rightarrow> if f x > m then f x else m) (l # ls) m0 =
      Max (insert (max (f y) m0) (f ` {x. \<exists>l\<in>set ls. g l = Some x}))"
    proof -
      have "(if f y > m0 then f y else m0) = max (f y) m0" by simp
      with Cons.IH [of "max (f y) m0"] Some show ?thesis by (simp only: fold_Cons o_apply option.case)
    qed
    also have "\<dots> = Max (insert m0 (f ` insert y {x. \<exists>l\<in>set ls. g l = Some x}))"
    proof (cases "{x. \<exists>l\<in>set ls. g l = Some x} = {}")
      case True then show ?thesis by (simp add: max.commute)
    next
      case False
      with fin show ?thesis by (simp add: max.assoc max.left_commute)
    qed
    finally show ?thesis unfolding e .
  qed
qed simp

lemma surrounding_eq:
  "P_FindLowestFloorSurrounding lv s =
     Min (insert (sc_floorheight (sector lv s)) ((\<lambda>n. sc_floorheight (sector lv n)) ` neighbours lv s))"
  "P_FindHighestFloorSurrounding lv s =
     Max (insert (- 500 * FRACUNIT) ((\<lambda>n. sc_floorheight (sector lv n)) ` neighbours lv s))"
  "P_FindLowestCeilingSurrounding lv s =
     Min (insert INT_MAX ((\<lambda>n. sc_ceilingheight (sector lv n)) ` neighbours lv s))"
  "P_FindHighestCeilingSurrounding lv s =
     Max (insert 0 ((\<lambda>n. sc_ceilingheight (sector lv n)) ` neighbours lv s))"
  "P_FindMinSurroundingLight lv s mx =
     Min (insert mx ((\<lambda>n. sc_lightlevel (sector lv n)) ` neighbours lv s))"
  unfolding P_FindLowestFloorSurrounding_def P_FindHighestFloorSurrounding_def
    P_FindLowestCeilingSurrounding_def P_FindHighestCeilingSurrounding_def P_FindMinSurroundingLight_def
    neighbours_def
  by (rule fold_min_option fold_max_option)+

text \<open>The heights that \<open>P_FindNextHighestFloor\<close> collects: one per line, repetitions included.\<close>

definition higher_floors :: "level \<Rightarrow> nat \<Rightarrow> int \<Rightarrow> nat list \<Rightarrow> int list" where
  "higher_floors lv sec h ls =
     concat (map (\<lambda>l. case getNextSector (line lv l) sec of
                        None \<Rightarrow> []
                      | Some other \<Rightarrow> if sc_floorheight (sector lv other) > h
                                      then [sc_floorheight (sector lv other)] else []) ls)"

lemma next_highest_loop_ok:
  "length hl + length (higher_floors lv sec h ls) \<le> 21 \<Longrightarrow>
   next_highest_loop lv sec ls h hl = Inr (hl @ higher_floors lv sec h ls)"
proof (induction ls arbitrary: hl)
  case (Cons l ls)
  show ?case
  proof (cases "getNextSector (line lv l) sec")
    case None
    with Cons show ?thesis by (simp add: higher_floors_def)
  next
    case (Some other)
    show ?thesis
    proof (cases "sc_floorheight (sector lv other) > h")
      case True
      with Cons.prems Some have "length (hl @ [sc_floorheight (sector lv other)]) + length (higher_floors lv sec h ls) \<le> 21"
        "length hl < 21" by (simp_all add: higher_floors_def)
      with Cons.IH [OF this(1)] Some True show ?thesis
        by (simp add: higher_floors_def Let_def MAX_ADJOINING_SECTORS_def)
    next
      case False
      with Cons Some show ?thesis by (simp add: higher_floors_def Let_def)
    qed
  qed
qed (simp add: higher_floors_def)

lemma set_higher_floors:
  "set (higher_floors lv sec h (sc_lines (sector lv sec))) =
     {f. \<exists>n\<in>neighbours lv sec. f = sc_floorheight (sector lv n) \<and> h < f}"
proof (rule set_eqI)
  fix f
  show "f \<in> set (higher_floors lv sec h (sc_lines (sector lv sec))) \<longleftrightarrow>
        f \<in> {f. \<exists>n\<in>neighbours lv sec. f = sc_floorheight (sector lv n) \<and> h < f}" (is "?l \<longleftrightarrow> ?r")
  proof
    assume ?l
    then obtain l where l: "l \<in> set (sc_lines (sector lv sec))"
      "f \<in> set (case getNextSector (line lv l) sec of None \<Rightarrow> []
                | Some n \<Rightarrow> if sc_floorheight (sector lv n) > h then [sc_floorheight (sector lv n)] else [])"
      unfolding higher_floors_def set_concat set_map by blast
    then show ?r by (cases "getNextSector (line lv l) sec") (auto simp: neighbours_def split: if_splits)
  next
    assume ?r
    then obtain l n where "l \<in> set (sc_lines (sector lv sec))" "getNextSector (line lv l) sec = Some n"
      "f = sc_floorheight (sector lv n)" "h < f" by (auto simp: neighbours_def)
    then show ?l by (force simp: higher_floors_def)
  qed
qed

lemma fold_less_Min: "fold (\<lambda>x m. if x < m then x else m) hs h = Min (set (h # hs))" for h :: int
proof -
  have "(\<lambda>x m. if x < m then x else m) = (min :: int \<Rightarrow> int \<Rightarrow> int)" by (intro ext) (simp add: min_def)
  then show ?thesis using Min.set_eq_fold [of h hs] by simp
qed

text \<open>
  C20. The surroundings of a sector: each query returns the extreme of the heights or
  light levels over the sectors behind its two-sided lines (with the bounds the source
  starts from), and \<open>P_FindNextHighestFloor\<close> the lowest floor among the higher ones,
  or the current height if there is none, for up to 21 lines with a higher floor behind.
\<close>

theorem surrounding_queries:
  assumes "length (higher_floors lv s h (sc_lines (sector lv s))) \<le> 21"
  shows "P_FindLowestFloorSurrounding lv s =
      Min (insert (sc_floorheight (sector lv s)) ((\<lambda>n. sc_floorheight (sector lv n)) ` neighbours lv s)) \<and>
    P_FindHighestFloorSurrounding lv s =
      Max (insert (- 500 * FRACUNIT) ((\<lambda>n. sc_floorheight (sector lv n)) ` neighbours lv s)) \<and>
    P_FindLowestCeilingSurrounding lv s =
      Min (insert INT_MAX ((\<lambda>n. sc_ceilingheight (sector lv n)) ` neighbours lv s)) \<and>
    P_FindHighestCeilingSurrounding lv s =
      Max (insert 0 ((\<lambda>n. sc_ceilingheight (sector lv n)) ` neighbours lv s)) \<and>
    P_FindMinSurroundingLight lv s mx =
      Min (insert mx ((\<lambda>n. sc_lightlevel (sector lv n)) ` neighbours lv s)) \<and>
    P_FindNextHighestFloor lv s h =
      (let hs = {f. \<exists>n\<in>neighbours lv s. f = sc_floorheight (sector lv n) \<and> h < f}
       in Inr (if hs = {} then h else Min hs))"
proof -
  let ?hs = "higher_floors lv s h (sc_lines (sector lv s))"
  have "P_FindNextHighestFloor lv s h = Inr (if set ?hs = {} then h else Min (set ?hs))"
    using next_highest_loop_ok [of "[]" lv s h "sc_lines (sector lv s)"] assms
    by (auto simp: P_FindNextHighestFloor_def fold_less_Min bindE_simps split: list.split)
  then show ?thesis
    unfolding surrounding_eq set_higher_floors Let_def by blast
qed

text \<open>Three rooms in a row, the floors at 0, 24 and 16.\<close>

definition room :: "int \<Rightarrow> nat list \<Rightarrow> sector_t" where
  "room h ls = \<lparr>sc_floorheight = h * FRACUNIT, sc_ceilingheight = 128 * FRACUNIT, sc_floorpic = 0, sc_ceilingpic = 0,
     sc_lightlevel = 160, sc_special = 0, sc_tag = 0, sc_soundtraversed = 0, sc_soundtarget = 0, sc_blockbox = [0, 0, 0, 0],
     sc_soundorg = \<lparr>dm_thinker = \<lparr>th_prev = 0, th_next = 0, th_function = 0\<rparr>, dm_x = 0, dm_y = 0, dm_z = 0\<rparr>, sc_validcount = 0,
     sc_thinglist = 0, sc_specialdata = 0, sc_lines = ls\<rparr>"

definition two_sided_line :: "nat \<Rightarrow> nat \<Rightarrow> line_t" where
  "two_sided_line f b = \<lparr>ln_v1 = 0, ln_v2 = 0, ln_dx = 0, ln_dy = 0, ln_flags = 4, ln_special = 0, ln_tag = 0, ln_sidenum = (0, 1), ln_bbox = [0, 0, 0, 0], ln_slopetype = ST_VERTICAL,
     ln_frontsector = Some f, ln_backsector = Some b, ln_validcount = 0, ln_specialdata = 0\<rparr>"

definition three_rooms :: level where
  "three_rooms = \<lparr>lv_zone = small_zone, lv_cap = 2000, lv_th = (\<lambda>_. \<lparr>th_prev = 2000, th_next = 2000, th_function = 0\<rparr>),
     lv_body = (\<lambda>_. No_Body), lv_sectors = [room 24 [0], room 0 [0, 1], room 16 [1]],
     lv_lines = [two_sided_line 0 1, two_sided_line 1 2], lv_sides = [], lv_ceilings = [], lv_plats = [],
     lv_rng = \<lparr>rndindex = 0, prndindex = 0\<rparr>\<rparr>"

theorem surrounding_queries_witness:
  "P_FindNextHighestFloor three_rooms 1 0 = Inr (16 * FRACUNIT)"
proof -
  have n: "neighbours three_rooms 1 = {0, 2}"
    by (auto simp: neighbours_def three_rooms_def room_def two_sided_line_def getNextSector_def ML_TWOSIDED_def)
  have l: "length (higher_floors three_rooms 1 0 (sc_lines (sector three_rooms 1))) \<le> 21"
    by (simp add: higher_floors_def three_rooms_def room_def two_sided_line_def getNextSector_def ML_TWOSIDED_def)
  have hs: "{f. \<exists>n\<in>neighbours three_rooms 1. f = sc_floorheight (sector three_rooms n) \<and> 0 < f} = {24 * FRACUNIT, 16 * FRACUNIT}"
    unfolding n by (auto simp: three_rooms_def room_def FRACUNIT_def FRACBITS_def)
  show ?thesis
    using surrounding_queries [OF l, of 0] unfolding Let_def hs by (simp add: FRACUNIT_def FRACBITS_def)
qed

end
