(* ===== verification/Lights.thy ===== *)
theory Lights
  imports Spec
begin

text \<open>
  The lights of \<^verbatim>\<open>p_lights.c\<close>: flickering fires, broken lamps, strobes and glowing sectors.
  Each is a thinker that owns no more than the address of its sector; several of them may
  work on one sector.
\<close>

section \<open>Allocation\<close>

text \<open>\<open>Z_Malloc (size, tag, 0)\<close> for a thinker.\<close>

definition level_alloc :: "int \<Rightarrow> int \<Rightarrow> level \<Rightarrow> (int \<times> level) result option" where
  "level_alloc sz tag lv =
     bindO (Z_Malloc sz tag None (lv_zone lv)) (\<lambda>(p, z). Some (Inr (p, lv\<lparr>lv_zone := z\<rparr>)))"

fun sizeof_fireflicker :: "arch \<Rightarrow> int" where
  "sizeof_fireflicker ILP32 = 28"
| "sizeof_fireflicker LP64 = 48"

fun sizeof_lightflash :: "arch \<Rightarrow> int" where
  "sizeof_lightflash ILP32 = 36"
| "sizeof_lightflash LP64 = 56"

fun sizeof_strobe :: "arch \<Rightarrow> int" where
  "sizeof_strobe ILP32 = 36"
| "sizeof_strobe LP64 = 56"

fun sizeof_glow :: "arch \<Rightarrow> int" where
  "sizeof_glow ILP32 = 28"
| "sizeof_glow LP64 = 48"

definition upd_sector :: "nat \<Rightarrow> (sector_t \<Rightarrow> sector_t) \<Rightarrow> level \<Rightarrow> level" where
  "upd_sector s f lv = lv\<lparr>lv_sectors := (lv_sectors lv)[s := f (sector lv s)]\<rparr>"

text \<open>\<open>lightlevel\<close> is a \<open>short\<close>.\<close>

definition set_light :: "nat \<Rightarrow> int \<Rightarrow> level \<Rightarrow> level" where
  "set_light s l = upd_sector s (\<lambda>sc. sc\<lparr>sc_lightlevel := i16 l\<rparr>)"

definition clear_special :: "nat \<Rightarrow> level \<Rightarrow> level" where
  "clear_special s = upd_sector s (\<lambda>sc. sc\<lparr>sc_special := 0\<rparr>)"

definition random_level :: "level \<Rightarrow> int \<times> level" where
  "random_level lv = (let (r, g) = P_Random (lv_rng lv) in (r, lv\<lparr>lv_rng := g\<rparr>))"

definition set_function :: "int \<Rightarrow> int \<Rightarrow> level \<Rightarrow> level" where
  "set_function p f = upd_th p (\<lambda>t. t\<lparr>th_function := f\<rparr>)"

definition GLOWSPEED :: int where "GLOWSPEED = 8"
definition STROBEBRIGHT :: int where "STROBEBRIGHT = 5"
definition FASTDARK :: int where "FASTDARK = 15"
definition SLOWDARK :: int where "SLOWDARK = 35"

section \<open>The thinkers\<close>

definition do_FireFlicker :: "int \<Rightarrow> level \<Rightarrow> level result" where
  "do_FireFlicker p lv =
     (case lv_body lv p of
        B_flicker flick \<Rightarrow>
          (let flick = flick\<lparr>ff_count := i32 (ff_count flick - 1)\<rparr>
           in if ff_count flick \<noteq> 0 then Inr (set_body p (B_flicker flick) lv)
              else
                (let (r, lv) = random_level lv;
                     amount = (r AND 3) * 16;
                     s = nat (ff_sector flick);
                     lv = (if sc_lightlevel (sector lv s) - amount < ff_minlight flick
                           then set_light s (ff_minlight flick) lv
                           else set_light s (ff_maxlight flick - amount) lv)
                 in Inr (set_body p (B_flicker (flick\<lparr>ff_count := 4\<rparr>)) lv)))
      | _ \<Rightarrow> Inl Bad_Access)"

definition do_LightFlash :: "int \<Rightarrow> level \<Rightarrow> level result" where
  "do_LightFlash p lv =
     (case lv_body lv p of
        B_flash flash \<Rightarrow>
          (let flash = flash\<lparr>lf_count := i32 (lf_count flash - 1)\<rparr>
           in if lf_count flash \<noteq> 0 then Inr (set_body p (B_flash flash) lv)
              else
                (let s = nat (lf_sector flash)
                 in if sc_lightlevel (sector lv s) = lf_maxlight flash
                    then (let lv = set_light s (lf_minlight flash) lv;
                              (r, lv) = random_level lv
                          in Inr (set_body p (B_flash (flash\<lparr>lf_count := (r AND lf_mintime flash) + 1\<rparr>)) lv))
                    else (let lv = set_light s (lf_maxlight flash) lv;
                              (r, lv) = random_level lv
                          in Inr (set_body p (B_flash (flash\<lparr>lf_count := (r AND lf_maxtime flash) + 1\<rparr>)) lv))))
      | _ \<Rightarrow> Inl Bad_Access)"

definition do_StrobeFlash :: "int \<Rightarrow> level \<Rightarrow> level result" where
  "do_StrobeFlash p lv =
     (case lv_body lv p of
        B_strobe flash \<Rightarrow>
          (let flash = flash\<lparr>st_count := i32 (st_count flash - 1)\<rparr>
           in if st_count flash \<noteq> 0 then Inr (set_body p (B_strobe flash) lv)
              else
                (let s = nat (st_sector flash)
                 in if sc_lightlevel (sector lv s) = st_minlight flash
                    then Inr (set_body p (B_strobe (flash\<lparr>st_count := st_brighttime flash\<rparr>))
                                (set_light s (st_maxlight flash) lv))
                    else Inr (set_body p (B_strobe (flash\<lparr>st_count := st_darktime flash\<rparr>))
                                (set_light s (st_minlight flash) lv))))
      | _ \<Rightarrow> Inl Bad_Access)"

definition do_Glow :: "int \<Rightarrow> level \<Rightarrow> level result" where
  "do_Glow p lv =
     (case lv_body lv p of
        B_glow g \<Rightarrow>
          (let s = nat (gl_sector g)
           in if gl_direction g = - 1
              then (let lv = set_light s (sc_lightlevel (sector lv s) - GLOWSPEED) lv
                    in if sc_lightlevel (sector lv s) \<le> gl_minlight g
                       then Inr (set_body p (B_glow (g\<lparr>gl_direction := 1\<rparr>))
                                   (set_light s (sc_lightlevel (sector lv s) + GLOWSPEED) lv))
                       else Inr lv)
              else if gl_direction g = 1
              then (let lv = set_light s (sc_lightlevel (sector lv s) + GLOWSPEED) lv
                    in if sc_lightlevel (sector lv s) \<ge> gl_maxlight g
                       then Inr (set_body p (B_glow (g\<lparr>gl_direction := - 1\<rparr>))
                                   (set_light s (sc_lightlevel (sector lv s) - GLOWSPEED) lv))
                       else Inr lv)
              else Inr lv)
      | _ \<Rightarrow> Inl Bad_Access)"

text \<open>The call through the function pointer, for the thinkers of this file.\<close>

definition light_thinker :: "symbols \<Rightarrow> int \<Rightarrow> int \<Rightarrow> level \<Rightarrow> level result" where
  "light_thinker fnp f p lv =
     (if f = fnp T_FireFlicker then do_FireFlicker p lv
      else if f = fnp T_LightFlash then do_LightFlash p lv
      else if f = fnp T_StrobeFlash then do_StrobeFlash p lv
      else if f = fnp T_Glow then do_Glow p lv
      else Inl Bad_Access)"

section \<open>Spawning\<close>

definition P_SpawnFireFlicker :: "symbols \<Rightarrow> nat \<Rightarrow> level \<Rightarrow> level result option" where
  "P_SpawnFireFlicker fnp s lv =
     (let lv = clear_special s lv
      in bindO (level_alloc (sizeof_fireflicker (larch lv)) PU_LEVSPEC lv) (\<lambda>(flick, lv).
           let lv = set_function flick (fnp T_FireFlicker) (P_AddThinker flick lv);
               l = sc_lightlevel (sector lv s)
           in Some (Inr (set_body flick (B_flicker
                \<lparr>ff_sector = int s, ff_count = 4, ff_maxlight = l,
                 ff_minlight = P_FindMinSurroundingLight lv s l + 16\<rparr>) lv))))"

definition P_SpawnLightFlash :: "symbols \<Rightarrow> nat \<Rightarrow> level \<Rightarrow> level result option" where
  "P_SpawnLightFlash fnp s lv =
     (let lv = clear_special s lv
      in bindO (level_alloc (sizeof_lightflash (larch lv)) PU_LEVSPEC lv) (\<lambda>(flash, lv).
           let lv = set_function flash (fnp T_LightFlash) (P_AddThinker flash lv);
               l = sc_lightlevel (sector lv s);
               m = P_FindMinSurroundingLight lv s l;
               (r, lv) = random_level lv
           in Some (Inr (set_body flash (B_flash
                \<lparr>lf_sector = int s, lf_count = (r AND 64) + 1, lf_maxlight = l, lf_minlight = m,
                 lf_maxtime = 64, lf_mintime = 7\<rparr>) lv))))"

definition strobe_count :: "bool \<Rightarrow> level \<Rightarrow> int \<times> level" where
  "strobe_count inSync lv =
     (if inSync then (1, lv) else (case random_level lv of (r, lv) \<Rightarrow> ((r AND 7) + 1, lv)))"

definition P_SpawnStrobeFlash :: "symbols \<Rightarrow> nat \<Rightarrow> int \<Rightarrow> bool \<Rightarrow> level \<Rightarrow> level result option" where
  "P_SpawnStrobeFlash fnp s fastOrSlow inSync lv =
     bindO (level_alloc (sizeof_strobe (larch lv)) PU_LEVSPEC lv) (\<lambda>(flash, lv).
       let lv = set_function flash (fnp T_StrobeFlash) (P_AddThinker flash lv);
           l = sc_lightlevel (sector lv s);
           m = P_FindMinSurroundingLight lv s l;
           m = (if m = l then 0 else m);
           lv = clear_special s lv;
           (c, lv) = strobe_count inSync lv
       in Some (Inr (set_body flash (B_strobe
            \<lparr>st_sector = int s, st_count = c, st_minlight = m, st_maxlight = l,
             st_darktime = fastOrSlow, st_brighttime = STROBEBRIGHT\<rparr>) lv)))"

definition P_SpawnGlowingLight :: "symbols \<Rightarrow> nat \<Rightarrow> level \<Rightarrow> level result option" where
  "P_SpawnGlowingLight fnp s lv =
     bindO (level_alloc (sizeof_glow (larch lv)) PU_LEVSPEC lv) (\<lambda>(g, lv).
       let lv = P_AddThinker g lv;
           l = sc_lightlevel (sector lv s);
           lv = set_function g (fnp T_Glow) lv;
           lv = set_body g (B_glow \<lparr>gl_sector = int s, gl_minlight = P_FindMinSurroundingLight lv s l,
                                    gl_maxlight = l, gl_direction = - 1\<rparr>) lv
       in Some (Inr (clear_special s lv)))"

section \<open>Events\<close>

partial_function (option) EV_StartLightStrobing_loop ::
  "symbols \<Rightarrow> line_t \<Rightarrow> int \<Rightarrow> level \<Rightarrow> level result option" where
  "EV_StartLightStrobing_loop fnp ln secnum lv =
     (let secnum = P_FindSectorFromLineTag lv ln secnum
      in if secnum < 0 then Some (Inr lv)
         else if sc_specialdata (sector lv (nat secnum)) \<noteq> 0
         then EV_StartLightStrobing_loop fnp ln secnum lv
         else (case P_SpawnStrobeFlash fnp (nat secnum) SLOWDARK False lv of
                 None \<Rightarrow> None
               | Some (Inl e) \<Rightarrow> Some (Inl e)
               | Some (Inr lv) \<Rightarrow> EV_StartLightStrobing_loop fnp ln secnum lv))"

definition EV_StartLightStrobing :: "symbols \<Rightarrow> line_t \<Rightarrow> level \<Rightarrow> level result option" where
  "EV_StartLightStrobing fnp ln lv = EV_StartLightStrobing_loop fnp ln (- 1) lv"

definition EV_TurnTagLightsOff :: "line_t \<Rightarrow> level \<Rightarrow> level" where
  "EV_TurnTagLightsOff ln lv =
     fold (\<lambda>j lv. if sc_tag (sector lv j) = ln_tag ln
                  then set_light j
                         (fold (\<lambda>l mn. case getNextSector (line lv l) j of
                                  None \<Rightarrow> mn
                                | Some tsec \<Rightarrow> if sc_lightlevel (sector lv tsec) < mn
                                               then sc_lightlevel (sector lv tsec) else mn)
                               (sc_lines (sector lv j)) (sc_lightlevel (sector lv j))) lv
                  else lv)
          [0..<length (lv_sectors lv)] lv"

text \<open>The parameter \<open>bright\<close> is a local variable of the loop: what one sector finds is still there for the next.\<close>

definition light_on_step :: "line_t \<Rightarrow> nat \<Rightarrow> int \<times> level \<Rightarrow> int \<times> level" where
  "light_on_step ln i = (\<lambda>(bright, lv).
     if sc_tag (sector lv i) = ln_tag ln
     then (let bright = (if bright = 0
                         then fold (\<lambda>l b. case getNextSector (line lv l) i of
                                      None \<Rightarrow> b
                                    | Some temp \<Rightarrow> if sc_lightlevel (sector lv temp) > b
                                                   then sc_lightlevel (sector lv temp) else b)
                                   (sc_lines (sector lv i)) bright
                         else bright)
           in (bright, set_light i bright lv))
     else (bright, lv))"

definition EV_LightTurnOn :: "line_t \<Rightarrow> int \<Rightarrow> level \<Rightarrow> level" where
  "EV_LightTurnOn ln bright lv =
     snd (fold (light_on_step ln) [0..<length (lv_sectors lv)] (bright, lv))"

section \<open>Frames\<close>

lemma upd_sector_simps [simp]:
  "lv_cap (upd_sector s f lv) = lv_cap lv" "lv_zone (upd_sector s f lv) = lv_zone lv"
  "lv_th (upd_sector s f lv) = lv_th lv" "lv_body (upd_sector s f lv) = lv_body lv"
  "lv_lines (upd_sector s f lv) = lv_lines lv" "lv_sides (upd_sector s f lv) = lv_sides lv"
  "lv_ceilings (upd_sector s f lv) = lv_ceilings lv" "lv_plats (upd_sector s f lv) = lv_plats lv"
  "lv_rng (upd_sector s f lv) = lv_rng lv"
  "lv_sectors (upd_sector s f lv) = (lv_sectors lv)[s := f (sector lv s)]"
  by (simp_all add: upd_sector_def)

lemma set_light_simps [simp]:
  "lv_cap (set_light s l lv) = lv_cap lv" "lv_zone (set_light s l lv) = lv_zone lv"
  "lv_th (set_light s l lv) = lv_th lv" "lv_body (set_light s l lv) = lv_body lv"
  "lv_lines (set_light s l lv) = lv_lines lv" "length (lv_sectors (set_light s l lv)) = length (lv_sectors lv)"
  "lv_rng (set_light s l lv) = lv_rng lv"
  by (simp_all add: set_light_def)

lemma random_level_simps [simp]:
  "lv_cap (snd (random_level lv)) = lv_cap lv" "lv_zone (snd (random_level lv)) = lv_zone lv"
  "lv_th (snd (random_level lv)) = lv_th lv" "lv_body (snd (random_level lv)) = lv_body lv"
  "lv_lines (snd (random_level lv)) = lv_lines lv" "lv_sectors (snd (random_level lv)) = lv_sectors lv"
  by (simp_all add: random_level_def split: prod.split)

lemma random_levelD:
  assumes "random_level lv = (r, lv')"
  shows "lv_cap lv' = lv_cap lv" "lv_zone lv' = lv_zone lv" "lv_th lv' = lv_th lv" "lv_body lv' = lv_body lv"
    "lv_lines lv' = lv_lines lv" "lv_sectors lv' = lv_sectors lv"
  using random_level_simps [of lv] unfolding assms by simp_all

lemma strobe_countD:
  assumes "strobe_count sync lv = (c, lv')"
  shows "lv_cap lv' = lv_cap lv" "lv_zone lv' = lv_zone lv" "lv_th lv' = lv_th lv" "lv_body lv' = lv_body lv"
    "lv_lines lv' = lv_lines lv" "lv_sectors lv' = lv_sectors lv"
proof -
  obtain r lv1 where r: "random_level lv = (r, lv1)" by fastforce
  from assms have "lv' = lv \<or> lv' = lv1" by (simp add: strobe_count_def r split: if_splits)
  then show "lv_cap lv' = lv_cap lv" "lv_zone lv' = lv_zone lv" "lv_th lv' = lv_th lv" "lv_body lv' = lv_body lv"
    "lv_lines lv' = lv_lines lv" "lv_sectors lv' = lv_sectors lv" using random_levelD [OF r] by auto
qed

lemma sector_set_light: "s < length (lv_sectors lv) \<Longrightarrow>
    sector (set_light s l lv) t = (if t = s then (sector lv t)\<lparr>sc_lightlevel := i16 l\<rparr> else sector lv t)"
  by (simp add: set_light_def nth_list_update)

lemma level_ok_frame:
  "level_ok lv xs \<Longrightarrow> lv_cap lv' = lv_cap lv \<Longrightarrow> lv_th lv' = lv_th lv \<Longrightarrow> lv_zone lv' = lv_zone lv \<Longrightarrow> level_ok lv' xs"
  by (simp add: level_ok_def thinkers_def cap_outside_def)

section \<open>A tic of the lights\<close>

text \<open>
  A light is well-formed within the bounds \<open>lo\<close> and \<open>hi\<close> if its function and its body
  agree, its sector exists and it can only set levels between the bounds.
\<close>

definition light_in :: "symbols \<Rightarrow> int \<Rightarrow> int \<Rightarrow> level \<Rightarrow> int \<Rightarrow> bool" where
  "light_in fnp lo hi lv x =
     (let f = th_function (lv_th lv x); n = int (length (lv_sectors lv))
      in f = 0 \<or> f = removed_mark (larch lv) \<or>
      (case lv_body lv x of
         B_flicker b \<Rightarrow> f = fnp T_FireFlicker \<and> 0 \<le> ff_sector b \<and> ff_sector b < n \<and>
           lo \<le> ff_minlight b \<and> ff_minlight b \<le> hi \<and> lo + 48 \<le> ff_maxlight b \<and> ff_maxlight b \<le> hi
       | B_flash b \<Rightarrow> f = fnp T_LightFlash \<and> 0 \<le> lf_sector b \<and> lf_sector b < n \<and>
           lo \<le> lf_minlight b \<and> lf_minlight b \<le> hi \<and> lo \<le> lf_maxlight b \<and> lf_maxlight b \<le> hi
       | B_strobe b \<Rightarrow> f = fnp T_StrobeFlash \<and> 0 \<le> st_sector b \<and> st_sector b < n \<and>
           lo \<le> st_minlight b \<and> st_minlight b \<le> hi \<and> lo \<le> st_maxlight b \<and> st_maxlight b \<le> hi
       | B_glow b \<Rightarrow> f = fnp T_Glow \<and> 0 \<le> gl_sector b \<and> gl_sector b < n \<and>
           lo \<le> gl_minlight b \<and> gl_minlight b \<le> hi \<and> lo \<le> gl_maxlight b \<and> gl_maxlight b \<le> hi
       | _ \<Rightarrow> False))"

definition lights_ok :: "symbols \<Rightarrow> int \<Rightarrow> int \<Rightarrow> level \<Rightarrow> int list \<Rightarrow> bool" where
  "lights_ok fnp lo hi lv xs \<longleftrightarrow>
     inj fnp \<and> - 32768 \<le> lo - 8 \<and> hi + 8 \<le> 32767 \<and>
     (\<forall>s<length (lv_sectors lv). lo \<le> sc_lightlevel (sector lv s) \<and> sc_lightlevel (sector lv s) \<le> hi) \<and>
     (\<forall>x\<in>set xs. light_in fnp lo hi lv x)"

text \<open>What one thinker's turn may change.\<close>

definition same_map :: "level \<Rightarrow> level \<Rightarrow> bool" where
  "same_map lv lv' \<longleftrightarrow> lv_lines lv' = lv_lines lv \<and> map sc_lines (lv_sectors lv') = map sc_lines (lv_sectors lv)"

lemma same_map_refl [simp]: "same_map lv lv"
  by (simp add: same_map_def)

lemma same_map_trans: "same_map lv1 lv2 \<Longrightarrow> same_map lv2 lv3 \<Longrightarrow> same_map lv1 lv3"
  by (simp add: same_map_def)

lemma same_map_length: "same_map lv lv' \<Longrightarrow> length (lv_sectors lv') = length (lv_sectors lv)"
  unfolding same_map_def by (drule conjunct2) (rule map_eq_imp_length_eq)

lemma same_map_neighbours:
  assumes "same_map lv lv'" "s < length (lv_sectors lv)"
  shows "neighbours lv' s = neighbours lv s"
proof -
  have "map sc_lines (lv_sectors lv') ! s = map sc_lines (lv_sectors lv) ! s" using assms(1) by (simp add: same_map_def)
  then have "sc_lines (sector lv' s) = sc_lines (sector lv s)"
    using assms(2) same_map_length [OF assms(1)] by simp
  moreover have "lv_lines lv' = lv_lines lv" using assms(1) by (simp add: same_map_def)
  ultimately show ?thesis by (simp add: neighbours_def)
qed

lemma map_update_same: "f y = f (xs ! i) \<Longrightarrow> map f (xs[i := y]) = map f xs"
  by (metis list_update_beyond list_update_id map_update not_le)

lemma same_map_simps [simp]:
  "same_map lv (set_light s l lv') = same_map lv lv'" "same_map lv (clear_special s lv') = same_map lv lv'"
  "same_map lv (set_body p b lv') = same_map lv lv'" "same_map lv (snd (random_level lv')) = same_map lv lv'"
  "same_map lv (P_AddThinker p lv') = same_map lv lv'" "same_map lv (set_function p f lv') = same_map lv lv'"
  "same_map lv (lv'\<lparr>lv_zone := z\<rparr>) = same_map lv lv'" "same_map lv (unlink_thinker p lv') = same_map lv lv'"
  by (simp_all add: same_map_def set_light_def clear_special_def map_update_same P_AddThinker_def set_function_def
      unlink_thinker_def Let_def)

definition light_turn :: "symbols \<Rightarrow> int \<Rightarrow> int \<Rightarrow> int \<Rightarrow> level \<Rightarrow> level \<Rightarrow> bool" where
  "light_turn fnp lo hi x lv lv' \<longleftrightarrow>
     lv_cap lv' = lv_cap lv \<and> lv_th lv' = lv_th lv \<and> lv_zone lv' = lv_zone lv \<and>
     length (lv_sectors lv') = length (lv_sectors lv) \<and> same_map lv lv' \<and>
     (\<forall>y. y \<noteq> x \<longrightarrow> lv_body lv' y = lv_body lv y) \<and>
     (\<forall>s<length (lv_sectors lv). lo \<le> sc_lightlevel (sector lv' s) \<and> sc_lightlevel (sector lv' s) \<le> hi) \<and>
     light_in fnp lo hi lv' x"

lemma i16_id': "- 32768 \<le> l \<Longrightarrow> l \<le> 32767 \<Longrightarrow> i16 l = l"
  by (rule i16_id) (simp add: is_i16_def)

lemma and_3_bounds: "0 \<le> (r::int) AND 3 \<and> r AND 3 \<le> 3"
  using AND_upper2 [of 3 r] by simp

text \<open>Setting a light within the bounds, on a level with the same sectors.\<close>

lemma set_light_turn:
  assumes ok: "lights_ok fnp lo hi lv xs" and s: "s < length (lv_sectors lv)" and n: "lo \<le> n" "n \<le> hi"
    and l1: "lv_cap lv1 = lv_cap lv" "lv_zone lv1 = lv_zone lv" "lv_th lv1 = lv_th lv" "lv_body lv1 = lv_body lv"
      "lv_sectors lv1 = lv_sectors lv"
  shows "lv_cap (set_light s n lv1) = lv_cap lv" "lv_zone (set_light s n lv1) = lv_zone lv"
    "lv_th (set_light s n lv1) = lv_th lv" "lv_body (set_light s n lv1) = lv_body lv"
    "length (lv_sectors (set_light s n lv1)) = length (lv_sectors lv)"
    "\<forall>t<length (lv_sectors lv). lo \<le> sc_lightlevel (sector (set_light s n lv1) t) \<and> sc_lightlevel (sector (set_light s n lv1) t) \<le> hi"
proof -
  have "i16 n = n" using ok n by (intro i16_id') (auto simp: lights_ok_def)
  then show "\<forall>t<length (lv_sectors lv). lo \<le> sc_lightlevel (sector (set_light s n lv1) t) \<and> sc_lightlevel (sector (set_light s n lv1) t) \<le> hi"
    using ok s n l1(5) by (auto simp: lights_ok_def sector_set_light)
qed (use l1 in simp_all)

lemma flicker_turn:
  assumes ok: "lights_ok fnp lo hi lv xs" and x: "light_in fnp lo hi lv x"
    and f: "th_function (lv_th lv x) = fnp T_FireFlicker" "fnp T_FireFlicker \<noteq> 0" "fnp T_FireFlicker \<noteq> removed_mark (larch lv)"
  shows "\<exists>lv'. do_FireFlicker x lv = Inr lv' \<and> light_turn fnp lo hi x lv lv'"
proof -
  have inj: "inj fnp" and w: "- 32768 \<le> lo - 8" "hi + 8 \<le> 32767" using ok by (simp_all add: lights_ok_def)
  obtain b where b: "lv_body lv x = B_flicker b" "0 \<le> ff_sector b" "ff_sector b < int (length (lv_sectors lv))"
    "lo \<le> ff_minlight b" "ff_minlight b \<le> hi" "lo + 48 \<le> ff_maxlight b" "ff_maxlight b \<le> hi"
    using x f inj by (auto simp: light_in_def Let_def inj_eq split: body.splits)
  have s: "nat (ff_sector b) < length (lv_sectors lv)" using b(2,3) by simp
  show ?thesis
  proof (cases "i32 (ff_count b - 1) = 0")
    case False
    then show ?thesis using ok b f
      by (auto simp: do_FireFlicker_def Let_def light_turn_def lights_ok_def light_in_def)
  next
    case True
    obtain r lv1 where r: "random_level lv = (r, lv1)" by fastforce
    have l1: "lv_cap lv1 = lv_cap lv" "lv_zone lv1 = lv_zone lv" "lv_th lv1 = lv_th lv" "lv_body lv1 = lv_body lv"
      "lv_sectors lv1 = lv_sectors lv" using random_level_simps [of lv] unfolding r by simp_all
    have m: "same_map lv lv1" using same_map_simps(4) [of lv lv] unfolding r by simp
    define a where "a = (r AND 3) * 16"
    let ?s = "nat (ff_sector b)"
    have a: "0 \<le> a" "a \<le> 48" using and_3_bounds [of r] by (simp_all add: a_def)
    let ?n = "if sc_lightlevel (sector lv ?s) - a < ff_minlight b then ff_minlight b else ff_maxlight b - a"
    have n: "lo \<le> ?n" "?n \<le> hi" using b a by auto
    then have i: "i16 ?n = ?n" using w by (intro i16_id') linarith+
    have "do_FireFlicker x lv = Inr (set_body x (B_flicker (b\<lparr>ff_count := 4\<rparr>)) (set_light ?s ?n lv1))"
      using b True r l1 by (simp add: do_FireFlicker_def Let_def a_def)
    moreover have "light_turn fnp lo hi x lv (set_body x (B_flicker (b\<lparr>ff_count := 4\<rparr>)) (set_light ?s ?n lv1))"
      using set_light_turn [OF ok s n l1] b f m by (auto simp: light_turn_def light_in_def Let_def l1)
    ultimately show ?thesis by blast
  qed
qed

lemma flash_turn:
  assumes ok: "lights_ok fnp lo hi lv xs" and x: "light_in fnp lo hi lv x"
    and f: "th_function (lv_th lv x) = fnp T_LightFlash" "fnp T_LightFlash \<noteq> 0" "fnp T_LightFlash \<noteq> removed_mark (larch lv)"
  shows "\<exists>lv'. do_LightFlash x lv = Inr lv' \<and> light_turn fnp lo hi x lv lv'"
proof -
  have inj: "inj fnp" using ok by (simp add: lights_ok_def)
  obtain b where b: "lv_body lv x = B_flash b" "0 \<le> lf_sector b" "lf_sector b < int (length (lv_sectors lv))"
    "lo \<le> lf_minlight b" "lf_minlight b \<le> hi" "lo \<le> lf_maxlight b" "lf_maxlight b \<le> hi"
    using x f inj by (auto simp: light_in_def Let_def inj_eq split: body.splits)
  let ?s = "nat (lf_sector b)"
  have s: "?s < length (lv_sectors lv)" using b(2,3) by simp
  show ?thesis
  proof (cases "i32 (lf_count b - 1) = 0")
    case False
    then show ?thesis using ok b f
      by (auto simp: do_LightFlash_def Let_def light_turn_def lights_ok_def light_in_def)
  next
    case True
    define n where "n = (if sc_lightlevel (sector lv ?s) = lf_maxlight b then lf_minlight b else lf_maxlight b)"
    define t where "t = (if sc_lightlevel (sector lv ?s) = lf_maxlight b then lf_mintime b else lf_maxtime b)"
    have n: "lo \<le> n" "n \<le> hi" using b by (auto simp: n_def)
    obtain r lv1 where r: "random_level (set_light ?s n lv) = (r, lv1)" by fastforce
    have l1: "lv_cap lv1 = lv_cap lv" "lv_zone lv1 = lv_zone lv" "lv_th lv1 = lv_th lv" "lv_body lv1 = lv_body lv"
      "lv_sectors lv1 = lv_sectors (set_light ?s n lv)"
      using random_level_simps [of "set_light ?s n lv"] unfolding r by simp_all
    have m: "same_map lv lv1" using same_map_simps(4) [of lv "set_light ?s n lv"] unfolding r by simp
    let ?lv = "set_body x (B_flash (b\<lparr>lf_count := (r AND t) + 1\<rparr>)) lv1"
    have "do_LightFlash x lv = Inr ?lv"
      using b True r
      by (cases "sc_lightlevel (sector lv ?s) = lf_maxlight b") (simp_all add: do_LightFlash_def Let_def n_def t_def)
    moreover have "light_turn fnp lo hi x lv ?lv"
      using set_light_turn [OF ok s n refl refl refl refl refl] b f l1 m
      by (auto simp: light_turn_def light_in_def Let_def)
    ultimately show ?thesis by blast
  qed
qed

lemma strobe_turn:
  assumes ok: "lights_ok fnp lo hi lv xs" and x: "light_in fnp lo hi lv x"
    and f: "th_function (lv_th lv x) = fnp T_StrobeFlash" "fnp T_StrobeFlash \<noteq> 0" "fnp T_StrobeFlash \<noteq> removed_mark (larch lv)"
  shows "\<exists>lv'. do_StrobeFlash x lv = Inr lv' \<and> light_turn fnp lo hi x lv lv'"
proof -
  have inj: "inj fnp" using ok by (simp add: lights_ok_def)
  obtain b where b: "lv_body lv x = B_strobe b" "0 \<le> st_sector b" "st_sector b < int (length (lv_sectors lv))"
    "lo \<le> st_minlight b" "st_minlight b \<le> hi" "lo \<le> st_maxlight b" "st_maxlight b \<le> hi"
    using x f inj by (auto simp: light_in_def Let_def inj_eq split: body.splits)
  let ?s = "nat (st_sector b)"
  have s: "?s < length (lv_sectors lv)" using b(2,3) by simp
  show ?thesis
  proof (cases "i32 (st_count b - 1) = 0")
    case False
    then show ?thesis using ok b f
      by (auto simp: do_StrobeFlash_def Let_def light_turn_def lights_ok_def light_in_def)
  next
    case True
    define n where "n = (if sc_lightlevel (sector lv ?s) = st_minlight b then st_maxlight b else st_minlight b)"
    define t where "t = (if sc_lightlevel (sector lv ?s) = st_minlight b then st_brighttime b else st_darktime b)"
    have n: "lo \<le> n" "n \<le> hi" using b by (auto simp: n_def)
    let ?lv = "set_body x (B_strobe (b\<lparr>st_count := t\<rparr>)) (set_light ?s n lv)"
    have "do_StrobeFlash x lv = Inr ?lv"
      using b True by (simp add: do_StrobeFlash_def Let_def n_def t_def)
    moreover have "light_turn fnp lo hi x lv ?lv"
      using set_light_turn [OF ok s n refl refl refl refl refl] b f by (auto simp: light_turn_def light_in_def Let_def)
    ultimately show ?thesis by blast
  qed
qed

text \<open>Two assignments to one light level are the second one.\<close>

lemma set_light_twice: "set_light s l (set_light s k lv) = set_light s l lv"
  by (simp add: set_light_def upd_sector_def) (cases "s < length (lv_sectors lv)"; simp add: list_update_beyond)

lemma glow_turn:
  assumes ok: "lights_ok fnp lo hi lv xs" and x: "light_in fnp lo hi lv x"
    and f: "th_function (lv_th lv x) = fnp T_Glow" "fnp T_Glow \<noteq> 0" "fnp T_Glow \<noteq> removed_mark (larch lv)"
  shows "\<exists>lv'. do_Glow x lv = Inr lv' \<and> light_turn fnp lo hi x lv lv'"
proof -
  have inj: "inj fnp" and w: "- 32768 \<le> lo - 8" "hi + 8 \<le> 32767" using ok by (simp_all add: lights_ok_def)
  obtain b where b: "lv_body lv x = B_glow b" "0 \<le> gl_sector b" "gl_sector b < int (length (lv_sectors lv))"
    "lo \<le> gl_minlight b" "gl_minlight b \<le> hi" "lo \<le> gl_maxlight b" "gl_maxlight b \<le> hi"
    using x f inj by (auto simp: light_in_def Let_def inj_eq split: body.splits)
  let ?s = "nat (gl_sector b)" and ?l = "sc_lightlevel (sector lv (nat (gl_sector b)))"
  have s: "?s < length (lv_sectors lv)" using b(2,3) by simp
  have l: "lo \<le> ?l" "?l \<le> hi" using ok s by (simp_all add: lights_ok_def)
  have i: "i16 (?l - 8) = ?l - 8" "i16 (?l + 8) = ?l + 8" using l w by (auto intro: i16_id')
  note sl = sector_set_light [OF s]
  have turn: "light_turn fnp lo hi x lv (set_light ?s n lv)"
    "light_turn fnp lo hi x lv (set_body x (B_glow (b\<lparr>gl_direction := d\<rparr>)) (set_light ?s n lv))"
    if "lo \<le> n" "n \<le> hi" for n d
    using set_light_turn [OF ok s that refl refl refl refl refl] b f by (auto simp: light_turn_def light_in_def Let_def)
  have same: "light_turn fnp lo hi x lv lv" using ok x by (simp add: light_turn_def lights_ok_def)
  consider "gl_direction b = - 1" | "gl_direction b = 1" | "gl_direction b \<noteq> - 1" "gl_direction b \<noteq> 1" by blast
  then show ?thesis
  proof cases
    case 1
    have "do_Glow x lv = Inr (if ?l - 8 \<le> gl_minlight b
       then set_body x (B_glow (b\<lparr>gl_direction := 1\<rparr>)) (set_light ?s ?l lv) else set_light ?s (?l - 8) lv)"
      using b 1 i by (simp add: do_Glow_def Let_def sl GLOWSPEED_def set_light_twice)
    then show ?thesis using turn [of ?l] turn(1) [of "?l - 8"] l b by auto
  next
    case 2
    have "do_Glow x lv = Inr (if ?l + 8 \<ge> gl_maxlight b
       then set_body x (B_glow (b\<lparr>gl_direction := - 1\<rparr>)) (set_light ?s ?l lv) else set_light ?s (?l + 8) lv)"
      using b 2 i by (simp add: do_Glow_def Let_def sl GLOWSPEED_def set_light_twice)
    then show ?thesis using turn [of ?l] turn(1) [of "?l + 8"] l b by auto
  next
    case 3
    then show ?thesis using b same by (simp add: do_Glow_def Let_def)
  qed
qed

lemma light_in_other:
  assumes "light_in fnp lo hi lv y" "lv_th lv' = lv_th lv" "lv_zone lv' = lv_zone lv" "lv_body lv' y = lv_body lv y"
    "length (lv_sectors lv') = length (lv_sectors lv)"
  shows "light_in fnp lo hi lv' y"
  using assms by (simp add: light_in_def)

lemma light_turnD:
  assumes "light_turn fnp lo hi x lv lv'"
  shows "lv_cap lv' = lv_cap lv" "lv_th lv' = lv_th lv" "lv_zone lv' = lv_zone lv"
    "length (lv_sectors lv') = length (lv_sectors lv)" "y \<noteq> x \<Longrightarrow> lv_body lv' y = lv_body lv y"
    "s < length (lv_sectors lv) \<Longrightarrow> lo \<le> sc_lightlevel (sector lv' s) \<and> sc_lightlevel (sector lv' s) \<le> hi"
    "light_in fnp lo hi lv' x" "same_map lv lv'"
  using assms by (simp_all only: light_turn_def) blast+

lemma lights_okD:
  assumes "lights_ok fnp lo hi lv xs"
  shows "inj fnp" "- 32768 \<le> lo - 8" "hi + 8 \<le> 32767"
    "s < length (lv_sectors lv) \<Longrightarrow> lo \<le> sc_lightlevel (sector lv s) \<and> sc_lightlevel (sector lv s) \<le> hi"
    "x \<in> set xs \<Longrightarrow> light_in fnp lo hi lv x"
  using assms by (simp_all only: lights_ok_def)

lemma lights_ok_turn:
  assumes ok: "lights_ok fnp lo hi lv xs" and t: "light_turn fnp lo hi x lv lv'"
  shows "lights_ok fnp lo hi lv' xs"
proof -
  note o = lights_okD [OF ok] and d = light_turnD [OF t]
  have "light_in fnp lo hi lv' y" if "y \<in> set xs" for y
    using light_in_other [OF o(5) [OF that] d(2,3) _ d(4)] d(5) [of y] d(7) by (cases "y = x") simp_all
  with o d(4,6) show ?thesis unfolding lights_ok_def by metis
qed

lemma light_thinker_turn:
  assumes ok: "lights_ok fnp lo hi lv xs" and x: "x \<in> set xs"
    and f: "th_function (lv_th lv x) \<noteq> 0" "th_function (lv_th lv x) \<noteq> removed_mark (larch lv)"
  shows "\<exists>lv'. light_thinker fnp (th_function (lv_th lv x)) x lv = Inr lv' \<and> light_turn fnp lo hi x lv lv'"
proof -
  have inj: "inj fnp" and i: "light_in fnp lo hi lv x" using ok x by (simp_all add: lights_ok_def)
  let ?f = "th_function (lv_th lv x)"
  consider "?f = fnp T_FireFlicker" | "?f = fnp T_LightFlash" | "?f = fnp T_StrobeFlash" | "?f = fnp T_Glow"
    using i f by (auto simp: light_in_def Let_def split: body.splits)
  then show ?thesis
  proof cases
    case 1 with flicker_turn [OF ok i 1] f show ?thesis by (simp add: light_thinker_def)
  next
    case 2 with flash_turn [OF ok i 2] f inj show ?thesis by (simp add: light_thinker_def inj_eq)
  next
    case 3 with strobe_turn [OF ok i 3] f inj show ?thesis by (simp add: light_thinker_def inj_eq)
  next
    case 4 with glow_turn [OF ok i 4] f inj show ?thesis by (simp add: light_thinker_def inj_eq)
  qed
qed

lemma lights_ok_free:
  assumes "level_ok lv (past @ x # todo)" "lights_ok fnp lo hi lv (past @ x # todo)" "Z_Free x (lv_zone lv) = Inr z"
  shows "lights_ok fnp lo hi (free_thinker x lv z) (past @ todo)"
proof -
  have t: "thinkers lv (past @ x # todo)" and zo: "zone_ok (lv_zone lv)" and xd: "x \<in> dom (heap (lv_zone lv))"
    using assms(1) by (auto simp: level_ok_def kept_def)
  have a: "zarch z = zarch (lv_zone lv)" using Z_Free_const(1) [OF assms(3)] .
  have "light_in fnp lo hi (free_thinker x lv z) y" if "y \<in> set (past @ todo)" for y
  proof -
    have "y \<noteq> x" using that t by (auto simp: thinkers_def)
    then have "th_function (lv_th (free_thinker x lv z) y) = th_function (lv_th lv y)"
      using thinkers_remove(3) [OF t, of y] by (simp add: free_thinker_def)
    moreover have "light_in fnp lo hi lv y" using assms(2) that by (auto simp: lights_ok_def)
    moreover have "lv_body (free_thinker x lv z) = lv_body lv" "lv_sectors (free_thinker x lv z) = lv_sectors lv"
      "larch (free_thinker x lv z) = larch lv"
      using a by (simp_all add: free_thinker_def unlink_thinker_def Let_def)
    ultimately show ?thesis by (simp add: light_in_def)
  qed
  with assms(2) show ?thesis
    by (simp add: lights_ok_def free_thinker_def unlink_thinker_def Let_def)
qed

interpretation lights: thinker_actions "light_thinker fnp" "lights_ok fnp lo hi" "\<lambda>_. 0" for fnp lo hi
proof unfold_locales
  fix lv xs x
  assume ok: "level_ok lv xs" and l: "lights_ok fnp lo hi lv xs" and x: "x \<in> set xs"
    and f: "th_function (lv_th lv x) \<noteq> removed_mark (larch lv)" "th_function (lv_th lv x) \<noteq> 0"
  obtain lv' where r: "light_thinker fnp (th_function (lv_th lv x)) x lv = Inr lv'" and t: "light_turn fnp lo hi x lv lv'"
    using light_thinker_turn [OF l x f(2,1)] by blast
  have "level_ok lv' xs" using level_ok_frame [OF ok] t by (simp add: light_turn_def)
  moreover have "lights_ok fnp lo hi lv' xs" by (rule lights_ok_turn [OF l t])
  moreover have "lv_cap lv' = lv_cap lv" using t by (simp add: light_turn_def)
  ultimately show "\<exists>lv' new. light_thinker fnp (th_function (lv_th lv x)) x lv = Inr lv' \<and> level_ok lv' (xs @ new) \<and>
        lights_ok fnp lo hi lv' (xs @ new) \<and> lv_cap lv' = lv_cap lv \<and> length new + 0 \<le> (0::nat)"
    using r by (intro exI [of _ lv'] exI [of _ "[]"]) simp
next
  fix lv past x todo z
  assume "level_ok lv (past @ x # todo)" "lights_ok fnp lo hi lv (past @ x # todo)" "Z_Free x (lv_zone lv) = Inr z"
  from lights_ok_free [OF this] show "lights_ok fnp lo hi (free_thinker x lv z) (past @ todo) \<and> (0::nat) \<le> 0" by simp
qed

lemma light_tic:
  assumes "tic (light_thinker fnp) past todo lv lv' ys" "level_ok lv (past @ todo)" "lights_ok fnp lo hi lv (past @ todo)"
  shows "ys = past @ filter (\<lambda>x. th_function (lv_th lv x) \<noteq> removed_mark (larch lv)) todo \<and>
    length (lv_sectors lv') = length (lv_sectors lv) \<and> same_map lv lv' \<and>
    heap (lv_zone lv') = heap (lv_zone lv) |` (- {x \<in> set todo. th_function (lv_th lv x) = removed_mark (larch lv)})"
  using assms
proof (induction rule: tic.induct)
  case (tic_free lv x z past todo lv' ys)
  have t: "thinkers lv (past @ x # todo)" using tic_free.prems(1) by (simp add: level_ok_def)
  have a: "larch (free_thinker x lv z) = larch lv" "lv_sectors (free_thinker x lv z) = lv_sectors lv"
    using Z_Free_const(1) [OF tic_free.hyps(2)] by (simp_all add: free_thinker_def unlink_thinker_def Let_def)
  have m: "same_map (free_thinker x lv z) lv' \<longrightarrow> same_map lv lv'" and zn: "lv_zone (free_thinker x lv z) = z"
    by (simp_all add: same_map_def free_thinker_def unlink_thinker_def Let_def)
  have f: "th_function (lv_th (free_thinker x lv z) y) = th_function (lv_th lv y)" if "y \<in> set todo" for y
    using thinkers_remove(3) [OF t, of y] that t by (auto simp: free_thinker_def thinkers_def)
  then have "filter (\<lambda>y. th_function (lv_th (free_thinker x lv z) y) \<noteq> removed_mark (larch lv)) todo =
      filter (\<lambda>y. th_function (lv_th lv y) \<noteq> removed_mark (larch lv)) todo"
    by (intro filter_cong) simp_all
  moreover have "heap z = (heap (lv_zone lv))(x := None)"
    using zalloc.release_law [of "lv_zone lv" x] tic_free.prems(1) tic_free.hyps(2) by (auto simp: level_ok_def kept_def)
  moreover have "{y \<in> set todo. th_function (lv_th (free_thinker x lv z) y) = removed_mark (larch lv)} =
      {y \<in> set todo. th_function (lv_th lv y) = removed_mark (larch lv)}" using f by auto
  ultimately show ?case
    using tic_free.IH [OF free_thinker_ok(1) [OF tic_free.prems(1) tic_free.hyps(2)]
        lights_ok_free [OF tic_free.prems tic_free.hyps(2)]] tic_free.hyps(1) a m zn
    by (auto simp: restrict_map_def fun_eq_iff)
next
  case (tic_idle lv x past todo lv' ys)
  have "(0::int) \<noteq> removed_mark (larch lv)" by (cases "larch lv") (simp_all add: removed_mark_def)
  with tic_idle show ?case by (auto simp: restrict_map_def fun_eq_iff)
next
  case (tic_run lv x lv1 past todo new lv' ys)
  have x: "x \<in> set (past @ x # todo)" by simp
  obtain lv2 where "light_thinker fnp (th_function (lv_th lv x)) x lv = Inr lv2" "light_turn fnp lo hi x lv lv2"
    using light_thinker_turn [OF tic_run.prems(2) x tic_run.hyps(2,1)] by blast
  with tic_run.hyps(3) have t: "light_turn fnp lo hi x lv lv1" by simp
  note d = light_turnD [OF t]
  have "thinkers lv1 (past @ x # todo)" "thinkers lv1 (past @ x # todo @ new)"
    using tic_run.prems(1) tic_run.hyps(4) d by (simp_all add: level_ok_def thinkers_def)
  from thinkers_unique [OF this] have n: "new = []" by simp
  have "level_ok lv1 ((past @ [x]) @ todo @ new)" using tic_run.hyps(4) by simp
  moreover have "lights_ok fnp lo hi lv1 ((past @ [x]) @ todo @ new)"
    using lights_ok_turn [OF tic_run.prems(2) t] n by simp
  ultimately show ?case using tic_run.IH tic_run.hyps(1) n d(1-4) same_map_trans [OF d(8)]
    by (auto simp: restrict_map_def fun_eq_iff)
qed (simp add: restrict_map_def)

section \<open>Spawning keeps the level in order\<close>

lemma level_alloc_cases:
  assumes ok: "level_ok lv xs" and sz: "0 < sz" "sz \<le> INT_MAX - 64" and tag: "tag \<noteq> PU_FREE" "tag < PU_PURGELEVEL"
  shows "level_alloc sz tag lv = Some (Inl alloc_failed) \<or>
    (\<exists>p z. level_alloc sz tag lv = Some (Inr (p, lv\<lparr>lv_zone := z\<rparr>)) \<and> level_ok (lv\<lparr>lv_zone := z\<rparr>) xs \<and>
       p \<notin> set (lv_cap lv # xs) \<and> p \<in> kept (heap z) \<and> zarch z = larch lv)"
proof -
  have zo: "zone_ok (lv_zone lv)" and k: "set xs \<subseteq> kept (heap (lv_zone lv))" using ok by (simp_all add: level_ok_def)
  have own: "PU_PURGELEVEL \<le> tag \<longrightarrow> (None :: int option) \<noteq> None" using tag by simp
  have sz': "0 \<le> sz" using sz(1) by simp
  consider "Z_Malloc sz tag None (lv_zone lv) = Some (Inl alloc_failed)"
    | p z where "Z_Malloc sz tag None (lv_zone lv) = Some (Inr (p, z))"
    using zalloc.alloc_law [OF zo sz' sz(2) tag(1) own] by blast
  then show ?thesis
  proof cases
    case 1 then show ?thesis by (simp add: level_alloc_def)
  next
    case (2 p z)
    note a = zalloc.alloc_keeps [OF zo sz' sz(2) tag(1) own 2] and c = Z_Malloc_const [OF zo own 2]
    obtain n where n: "heap z p = Some (n, tag, None)" "sz \<le> n" using a(2) by blast
    have "p \<notin> set xs" "set xs \<subseteq> kept (heap z)" using a(3) k by (fastforce simp: kept_def)+
    moreover have "p \<noteq> lv_cap lv"
    proof -
      have "mainzone z \<le> p" using heap_inside(1) [OF a(1) n(1)] by (cases "zarch z") (simp_all add: hdr_def)
      moreover have "p \<le> mainzone z + zsize z" using heap_inside(2) [OF a(1) n(1)] n(2) sz(1) by linarith
      ultimately show ?thesis using ok c by (auto simp: level_ok_def cap_outside_def)
    qed
    moreover have "p \<in> kept (heap z)" using n(1) tag(2) by (auto simp: kept_def)
    moreover have "level_ok (lv\<lparr>lv_zone := z\<rparr>) xs"
      using ok a(1) c calculation(2) by (simp add: level_ok_def thinkers_def cap_outside_def)
    moreover have "level_alloc sz tag lv = Some (Inr (p, lv\<lparr>lv_zone := z\<rparr>))" using 2 by (simp add: level_alloc_def)
    ultimately show ?thesis using c(1) by auto
  qed
qed

lemma add_thinker_ok:
  assumes "level_ok lv xs" "p \<notin> set (lv_cap lv # xs)" "p \<in> kept (heap (lv_zone lv))"
  shows "level_ok (P_AddThinker p lv) (xs @ [p])"
proof -
  have "lv_zone (P_AddThinker p lv) = lv_zone lv" "lv_cap (P_AddThinker p lv) = lv_cap lv"
    by (simp_all add: P_AddThinker_def Let_def)
  then show ?thesis using assms thinkers_add [of lv xs p] by (simp add: level_ok_def cap_outside_def)
qed

lemma P_AddThinker_frame [simp]:
  "lv_zone (P_AddThinker p lv) = lv_zone lv" "lv_cap (P_AddThinker p lv) = lv_cap lv"
  "lv_body (P_AddThinker p lv) = lv_body lv" "lv_sectors (P_AddThinker p lv) = lv_sectors lv"
  "lv_lines (P_AddThinker p lv) = lv_lines lv" "lv_rng (P_AddThinker p lv) = lv_rng lv"
  "th_function (lv_th (P_AddThinker p lv) x) = th_function (lv_th lv x)"
  by (simp_all add: P_AddThinker_def Let_def)

lemma set_function_frame [simp]:
  "lv_zone (set_function p f lv) = lv_zone lv" "lv_cap (set_function p f lv) = lv_cap lv"
  "lv_body (set_function p f lv) = lv_body lv" "lv_sectors (set_function p f lv) = lv_sectors lv"
  "lv_lines (set_function p f lv) = lv_lines lv" "lv_rng (set_function p f lv) = lv_rng lv"
  "th_function (lv_th (set_function p f lv) x) = (if x = p then f else th_function (lv_th lv x))"
  by (simp_all add: set_function_def)

lemma set_function_ok [simp]: "level_ok (set_function p f lv) xs = level_ok lv xs"
proof -
  have "th_next (lv_th (set_function p f lv) x) = th_next (lv_th lv x)"
    "th_prev (lv_th (set_function p f lv) x) = th_prev (lv_th lv x)" for x by (simp_all add: set_function_def)
  then have "dll (lv_th (set_function p f lv)) q ys r = dll (lv_th lv) q ys r" for q ys r
    by (intro dll_cong) simp_all
  then show ?thesis by (simp add: level_ok_def thinkers_def cap_outside_def)
qed

lemma clear_special_frame [simp]:
  "lv_zone (clear_special s lv) = lv_zone lv" "lv_cap (clear_special s lv) = lv_cap lv"
  "lv_th (clear_special s lv) = lv_th lv" "lv_body (clear_special s lv) = lv_body lv"
  "lv_lines (clear_special s lv) = lv_lines lv" "lv_rng (clear_special s lv) = lv_rng lv"
  "length (lv_sectors (clear_special s lv)) = length (lv_sectors lv)"
  "sc_lightlevel (sector (clear_special s lv) t) = sc_lightlevel (sector lv t)"
  "sc_lines (sector (clear_special s lv) t) = sc_lines (sector lv t)"
  "sc_tag (sector (clear_special s lv) t) = sc_tag (sector lv t)"
  "sc_specialdata (sector (clear_special s lv) t) = sc_specialdata (sector lv t)"
  by (simp_all add: clear_special_def upd_sector_def)
    (cases "s < length (lv_sectors lv)"; cases "t = s"; simp add: list_update_beyond)+

lemma clear_special_sectors: "lv_sectors lv = lv_sectors lv' \<Longrightarrow> lv_sectors (clear_special s lv) = lv_sectors (clear_special s lv')"
  by (simp add: clear_special_def)

lemma min_light_bounds:
  assumes "lights_ok fnp lo hi lv xs" "neighbours lv s \<subseteq> {..<length (lv_sectors lv)}" "lo \<le> m" "m \<le> hi"
  shows "lo \<le> P_FindMinSurroundingLight lv s m \<and> P_FindMinSurroundingLight lv s m \<le> m"
proof -
  let ?S = "insert m ((\<lambda>n. sc_lightlevel (sector lv n)) ` neighbours lv s)"
  have fin: "finite ?S" by simp
  have "x \<in> ?S \<Longrightarrow> lo \<le> x" for x using assms lights_okD(4) [OF assms(1)] by auto
  then show ?thesis unfolding surrounding_eq using Min_in [OF fin] Min_le [OF fin, of m] by blast
qed

text \<open>A new light at the end of the list.\<close>

definition appended :: "level \<Rightarrow> level \<Rightarrow> int list \<Rightarrow> int \<Rightarrow> bool" where
  "appended lv lv' xs p \<longleftrightarrow>
     level_ok lv' (xs @ [p]) \<and> p \<notin> set xs \<and> larch lv' = larch lv \<and>
     (\<forall>y\<in>set xs. th_function (lv_th lv' y) = th_function (lv_th lv y) \<and> lv_body lv' y = lv_body lv y) \<and>
     length (lv_sectors lv') = length (lv_sectors lv) \<and> lv_lines lv' = lv_lines lv \<and>
     (\<forall>s. sc_lightlevel (sector lv' s) = sc_lightlevel (sector lv s) \<and> sc_lines (sector lv' s) = sc_lines (sector lv s) \<and>
          sc_tag (sector lv' s) = sc_tag (sector lv s) \<and> sc_specialdata (sector lv' s) = sc_specialdata (sector lv s))"

lemma lights_ok_appended:
  assumes "appended lv lv' xs p" "lights_ok fnp lo hi lv xs" "light_in fnp lo hi lv' p"
  shows "lights_ok fnp lo hi lv' (xs @ [p])"
proof -
  have "light_in fnp lo hi lv' y" if "y \<in> set xs" for y
    using lights_okD(5) [OF assms(2) that] assms(1) that by (simp add: appended_def light_in_def Let_def)
  then show ?thesis using assms lights_okD [OF assms(2)] unfolding lights_ok_def appended_def by auto
qed

lemma appendedI:
  assumes a: "level_ok (lv\<lparr>lv_zone := z\<rparr>) xs" "p \<notin> set (lv_cap lv # xs)" "p \<in> kept (heap z)" "zarch z = larch lv"
    and l: "lv_zone lv' = z" "lv_cap lv' = lv_cap lv" "lv_lines lv' = lv_lines lv"
      "lv_th lv' = lv_th (set_function p f (P_AddThinker p (lv\<lparr>lv_zone := z\<rparr>)))"
      "\<And>y. y \<noteq> p \<Longrightarrow> lv_body lv' y = lv_body lv y" "lv_sectors lv' = lv_sectors (clear_special s lv) \<or> lv_sectors lv' = lv_sectors lv"
  shows "appended lv lv' xs p" "th_function (lv_th lv' p) = f"
proof -
  have "level_ok (set_function p f (P_AddThinker p (lv\<lparr>lv_zone := z\<rparr>))) (xs @ [p])"
    using add_thinker_ok [OF a(1)] a(2,3) by simp
  then have "level_ok lv' (xs @ [p])" by (rule level_ok_frame) (simp_all add: l)
  moreover have "length (lv_sectors lv') = length (lv_sectors lv) \<and>
     (\<forall>s. sc_lightlevel (sector lv' s) = sc_lightlevel (sector lv s) \<and> sc_lines (sector lv' s) = sc_lines (sector lv s) \<and>
          sc_tag (sector lv' s) = sc_tag (sector lv s) \<and> sc_specialdata (sector lv' s) = sc_specialdata (sector lv s))"
    using l(6) clear_special_frame [of s lv] by auto
  ultimately show "appended lv lv' xs p"
    unfolding appended_def using a(2,4) l(1-5) by auto
  show "th_function (lv_th lv' p) = f" using l(4) by simp
qed

lemma min_light_frame:
  assumes "lv_lines lv' = lv_lines lv" "sc_lines (sector lv' s) = sc_lines (sector lv s)"
    "\<And>t. sc_lightlevel (sector lv' t) = sc_lightlevel (sector lv t)"
  shows "P_FindMinSurroundingLight lv' s m = P_FindMinSurroundingLight lv s m"
  unfolding surrounding_eq neighbours_def using assms by simp

lemmas spawn_defs = P_SpawnFireFlicker_def P_SpawnLightFlash_def P_SpawnStrobeFlash_def P_SpawnGlowingLight_def

lemma sizes_ok:
  "0 < sizeof_fireflicker a" "sizeof_fireflicker a \<le> INT_MAX - 64" "0 < sizeof_lightflash a" "sizeof_lightflash a \<le> INT_MAX - 64"
  "0 < sizeof_strobe a" "sizeof_strobe a \<le> INT_MAX - 64" "0 < sizeof_glow a" "sizeof_glow a \<le> INT_MAX - 64"
  by (cases a; simp add: INT_MAX_def)+

lemma levspec_tag: "PU_LEVSPEC \<noteq> PU_FREE" "PU_LEVSPEC < PU_PURGELEVEL"
  by (simp_all add: PU_defs)

lemma clear_special_ok [simp]: "level_ok (clear_special s lv) xs = level_ok lv xs"
  by (simp add: level_ok_def thinkers_def cap_outside_def)

text \<open>What a spawn function does, for the light it makes.\<close>

definition spawns :: "level result option \<Rightarrow> level \<Rightarrow> int list \<Rightarrow> int \<Rightarrow> (int \<Rightarrow> body \<Rightarrow> bool) \<Rightarrow> bool" where
  "spawns r lv xs f P \<longleftrightarrow> r = Some (Inl alloc_failed) \<or>
     (\<exists>p lv'. r = Some (Inr lv') \<and> appended lv lv' xs p \<and> th_function (lv_th lv' p) = f \<and> P p (lv_body lv' p))"

lemma spawn_strobe:
  assumes ok: "level_ok lv xs"
  shows "spawns (P_SpawnStrobeFlash fnp s fs sync lv) lv xs (fnp T_StrobeFlash)
    (\<lambda>p b. \<exists>c. b = B_strobe \<lparr>st_sector = int s, st_count = c,
        st_minlight = (let m = P_FindMinSurroundingLight lv s (sc_lightlevel (sector lv s))
                       in if m = sc_lightlevel (sector lv s) then 0 else m),
        st_maxlight = sc_lightlevel (sector lv s), st_darktime = fs, st_brighttime = STROBEBRIGHT\<rparr>)"
  using level_alloc_cases [OF ok sizes_ok(5,6) levspec_tag, of "larch lv"]
proof (elim disjE exE conjE)
  fix p z
  let ?lv = "lv\<lparr>lv_zone := z\<rparr>"
  assume r: "level_alloc (sizeof_strobe (larch lv)) PU_LEVSPEC lv = Some (Inr (p, ?lv))"
    and a: "level_ok ?lv xs" "p \<notin> set (lv_cap lv # xs)" "p \<in> kept (heap z)" "zarch z = larch lv"
  let ?lv1 = "set_function p (fnp T_StrobeFlash) (P_AddThinker p ?lv)"
  define l where "l = sc_lightlevel (sector lv s)"
  define m where "m = (let m = P_FindMinSurroundingLight lv s l in if m = l then 0 else m)"
  have mn: "P_FindMinSurroundingLight ?lv1 s l = P_FindMinSurroundingLight lv s l" by (rule min_light_frame) simp_all
  obtain c lv2 where c: "strobe_count sync (clear_special s ?lv1) = (c, lv2)" by fastforce
  have lv2: "lv_zone lv2 = z" "lv_cap lv2 = lv_cap lv" "lv_lines lv2 = lv_lines lv" "lv_th lv2 = lv_th ?lv1"
    "lv_body lv2 = lv_body lv" "lv_sectors lv2 = lv_sectors (clear_special s lv)"
    using strobe_countD [OF c] clear_special_sectors [of ?lv1 lv s] by simp_all
  let ?b = "B_strobe \<lparr>st_sector = int s, st_count = c, st_minlight = m, st_maxlight = l, st_darktime = fs, st_brighttime = STROBEBRIGHT\<rparr>"
  have res: "P_SpawnStrobeFlash fnp s fs sync lv = Some (Inr (set_body p ?b lv2))"
    using r c mn by (simp add: P_SpawnStrobeFlash_def Let_def m_def l_def)
  have "appended lv (set_body p ?b lv2) xs p" "th_function (lv_th (set_body p ?b lv2) p) = fnp T_StrobeFlash"
    by (rule appendedI [OF a, where f = "fnp T_StrobeFlash" and s = s]; simp add: lv2)+
  then show ?thesis unfolding spawns_def res m_def l_def by auto
qed (simp add: spawns_def P_SpawnStrobeFlash_def)

lemma spawn_glow:
  assumes ok: "level_ok lv xs"
  shows "spawns (P_SpawnGlowingLight fnp s lv) lv xs (fnp T_Glow)
    (\<lambda>p b. b = B_glow \<lparr>gl_sector = int s, gl_minlight = P_FindMinSurroundingLight lv s (sc_lightlevel (sector lv s)),
        gl_maxlight = sc_lightlevel (sector lv s), gl_direction = - 1\<rparr>)"
  using level_alloc_cases [OF ok sizes_ok(7,8) levspec_tag, of "larch lv"]
proof (elim disjE exE conjE)
  fix p z
  let ?lv = "lv\<lparr>lv_zone := z\<rparr>"
  assume r: "level_alloc (sizeof_glow (larch lv)) PU_LEVSPEC lv = Some (Inr (p, ?lv))"
    and a: "level_ok ?lv xs" "p \<notin> set (lv_cap lv # xs)" "p \<in> kept (heap z)" "zarch z = larch lv"
  let ?lv1 = "set_function p (fnp T_Glow) (P_AddThinker p ?lv)"
  define l where "l = sc_lightlevel (sector lv s)"
  have mn: "P_FindMinSurroundingLight ?lv1 s l = P_FindMinSurroundingLight lv s l" by (rule min_light_frame) simp_all
  let ?b = "B_glow \<lparr>gl_sector = int s, gl_minlight = P_FindMinSurroundingLight lv s l, gl_maxlight = l, gl_direction = - 1\<rparr>"
  let ?lv2 = "clear_special s (set_body p ?b ?lv1)"
  have res: "P_SpawnGlowingLight fnp s lv = Some (Inr ?lv2)"
    using r mn by (simp add: P_SpawnGlowingLight_def Let_def l_def)
  have sec: "lv_sectors ?lv2 = lv_sectors (clear_special s lv)" by (rule clear_special_sectors) simp
  have "appended lv ?lv2 xs p" "th_function (lv_th ?lv2 p) = fnp T_Glow"
    by (rule appendedI [OF a, where f = "fnp T_Glow" and s = s]; simp add: sec)+
  then show ?thesis unfolding spawns_def res l_def by auto
qed (simp add: spawns_def P_SpawnGlowingLight_def)

lemma spawn_flicker:
  assumes ok: "level_ok lv xs"
  shows "spawns (P_SpawnFireFlicker fnp s lv) lv xs (fnp T_FireFlicker)
    (\<lambda>p b. b = B_flicker \<lparr>ff_sector = int s, ff_count = 4, ff_maxlight = sc_lightlevel (sector lv s),
        ff_minlight = P_FindMinSurroundingLight lv s (sc_lightlevel (sector lv s)) + 16\<rparr>)"
proof -
  let ?cs = "clear_special s lv"
  have ok0: "level_ok ?cs xs" using ok by simp
  show ?thesis
    using level_alloc_cases [OF ok0 sizes_ok(1,2) levspec_tag, of "larch lv"]
  proof (elim disjE exE conjE)
    fix p z
    let ?lv = "?cs\<lparr>lv_zone := z\<rparr>"
    assume r: "level_alloc (sizeof_fireflicker (larch lv)) PU_LEVSPEC ?cs = Some (Inr (p, ?lv))"
      and a: "level_ok ?lv xs" "p \<notin> set (lv_cap ?cs # xs)" "p \<in> kept (heap z)" "zarch z = larch ?cs"
    let ?lv1 = "set_function p (fnp T_FireFlicker) (P_AddThinker p ?lv)"
    define l where "l = sc_lightlevel (sector lv s)"
    have mn: "P_FindMinSurroundingLight ?lv1 s l = P_FindMinSurroundingLight lv s l" by (rule min_light_frame) simp_all
    let ?b = "B_flicker \<lparr>ff_sector = int s, ff_count = 4, ff_maxlight = l, ff_minlight = P_FindMinSurroundingLight lv s l + 16\<rparr>"
    let ?lv2 = "set_body p ?b ?lv1"
    have res: "P_SpawnFireFlicker fnp s lv = Some (Inr ?lv2)"
      using r mn by (simp add: P_SpawnFireFlicker_def Let_def l_def)
    have "appended ?cs ?lv2 xs p" "th_function (lv_th ?lv2 p) = fnp T_FireFlicker"
      by (rule appendedI [OF a, where f = "fnp T_FireFlicker" and s = s]; simp)+
    then show ?thesis unfolding spawns_def res l_def by (auto simp: appended_def)
  qed (simp add: spawns_def P_SpawnFireFlicker_def)
qed

lemma spawn_flash:
  assumes ok: "level_ok lv xs"
  shows "spawns (P_SpawnLightFlash fnp s lv) lv xs (fnp T_LightFlash)
    (\<lambda>p b. \<exists>c. b = B_flash \<lparr>lf_sector = int s, lf_count = c, lf_maxlight = sc_lightlevel (sector lv s),
        lf_minlight = P_FindMinSurroundingLight lv s (sc_lightlevel (sector lv s)), lf_maxtime = 64, lf_mintime = 7\<rparr>)"
proof -
  let ?cs = "clear_special s lv"
  have ok0: "level_ok ?cs xs" using ok by simp
  show ?thesis
    using level_alloc_cases [OF ok0 sizes_ok(3,4) levspec_tag, of "larch lv"]
  proof (elim disjE exE conjE)
    fix p z
    let ?lv = "?cs\<lparr>lv_zone := z\<rparr>"
    assume r: "level_alloc (sizeof_lightflash (larch lv)) PU_LEVSPEC ?cs = Some (Inr (p, ?lv))"
      and a: "level_ok ?lv xs" "p \<notin> set (lv_cap ?cs # xs)" "p \<in> kept (heap z)" "zarch z = larch ?cs"
    let ?lv1 = "set_function p (fnp T_LightFlash) (P_AddThinker p ?lv)"
    define l where "l = sc_lightlevel (sector lv s)"
    have mn: "P_FindMinSurroundingLight ?lv1 s l = P_FindMinSurroundingLight lv s l" by (rule min_light_frame) simp_all
    obtain c lv2 where c: "random_level ?lv1 = (c, lv2)" by fastforce
    note d = random_levelD [OF c]
    let ?b = "B_flash \<lparr>lf_sector = int s, lf_count = (c AND 64) + 1, lf_maxlight = l,
       lf_minlight = P_FindMinSurroundingLight lv s l, lf_maxtime = 64, lf_mintime = 7\<rparr>"
    have res: "P_SpawnLightFlash fnp s lv = Some (Inr (set_body p ?b lv2))"
      using r mn c by (simp add: P_SpawnLightFlash_def Let_def l_def)
    have "appended ?cs (set_body p ?b lv2) xs p" "th_function (lv_th (set_body p ?b lv2) p) = fnp T_LightFlash"
      by (rule appendedI [OF a, where f = "fnp T_LightFlash" and s = s]; simp add: d)+
    then show ?thesis unfolding spawns_def res l_def by (auto simp: appended_def)
  qed (simp add: spawns_def P_SpawnLightFlash_def)
qed

section \<open>Events on tagged sectors\<close>

lemma find_tag_cases:
  assumes "- 1 \<le> start"
  shows "P_FindSectorFromLineTag lv ln start = - 1 \<and>
      filter (\<lambda>i. sc_tag (sector lv i) = ln_tag ln) [nat (start + 1)..<length (lv_sectors lv)] = [] \<or>
    (\<exists>i. P_FindSectorFromLineTag lv ln start = int i \<and> start < int i \<and> i < length (lv_sectors lv) \<and>
      filter (\<lambda>i. sc_tag (sector lv i) = ln_tag ln) [nat (start + 1)..<length (lv_sectors lv)] =
      i # filter (\<lambda>i. sc_tag (sector lv i) = ln_tag ln) [Suc i..<length (lv_sectors lv)])"
proof -
  let ?P = "\<lambda>i. sc_tag (sector lv i) = ln_tag ln" and ?n = "length (lv_sectors lv)" and ?a = "nat (start + 1)"
  show ?thesis
  proof (cases "find ?P [?a..<?n]")
    case None
    then have "filter ?P [?a..<?n] = []" by (auto simp: find_None_iff filter_empty_conv)
    with None show ?thesis by (simp add: P_FindSectorFromLineTag_def)
  next
    case (Some i)
    then obtain k where k: "k < length [?a..<?n]" "?P ([?a..<?n] ! k)" "i = [?a..<?n] ! k" "\<forall>j<k. \<not> ?P ([?a..<?n] ! j)"
      by (auto simp: find_Some_iff)
    then have i: "i = ?a + k" "i < ?n" "?P i" by auto
    have "[?a..<?n] = [?a..<i] @ i # [Suc i..<?n]"
      using i(1,2) by (metis le_add1 less_imp_le le_add_diff_inverse upt_add_eq_append upt_conv_Cons)
    moreover have "filter ?P [?a..<i] = []"
    proof -
      have "\<not> ?P x" if "x \<in> set [?a..<i]" for x
      proof -
        have "x - ?a < k" "[?a..<?n] ! (x - ?a) = x" using that i by auto
        with k(4) show ?thesis by metis
      qed
      then show ?thesis by (simp add: filter_empty_conv)
    qed
    ultimately have "filter ?P [?a..<?n] = i # filter ?P [Suc i..<?n]" using i(3) by simp
    moreover have "start < int i" using i(1) assms by simp
    moreover have "P_FindSectorFromLineTag lv ln start = int i" using Some by (simp add: P_FindSectorFromLineTag_def)
    ultimately show ?thesis using i(2) by blast
  qed
qed

fun strobe_sector :: "body \<Rightarrow> nat" where
  "strobe_sector (B_strobe b) = nat (st_sector b)"
| "strobe_sector _ = 0"

lemma strobing_loop:
  assumes "level_ok lv xs" "- 1 \<le> secnum"
  shows "EV_StartLightStrobing_loop fnp ln secnum lv = Some (Inl alloc_failed) \<or>
    (\<exists>lv' ps. EV_StartLightStrobing_loop fnp ln secnum lv = Some (Inr lv') \<and> level_ok lv' (xs @ ps) \<and>
       map (\<lambda>p. strobe_sector (lv_body lv' p)) ps =
         filter (\<lambda>i. sc_specialdata (sector lv i) = 0)
           (filter (\<lambda>i. sc_tag (sector lv i) = ln_tag ln) [nat (secnum + 1)..<length (lv_sectors lv)]) \<and>
       (\<forall>p\<in>set ps. th_function (lv_th lv' p) = fnp T_StrobeFlash) \<and>
       (\<forall>y\<in>set xs. th_function (lv_th lv' y) = th_function (lv_th lv y) \<and> lv_body lv' y = lv_body lv y))"
  using assms
proof (induction "length (lv_sectors lv) - nat (secnum + 1)" arbitrary: lv xs secnum rule: less_induct)
  case less
  let ?P = "\<lambda>i. sc_tag (sector lv i) = ln_tag ln" and ?n = "length (lv_sectors lv)"
  from find_tag_cases [OF less.prems(2), of lv ln]
  consider "P_FindSectorFromLineTag lv ln secnum = - 1" "filter ?P [nat (secnum + 1)..<?n] = []"
    | i where "P_FindSectorFromLineTag lv ln secnum = int i" "secnum < int i" "i < ?n"
      "filter ?P [nat (secnum + 1)..<?n] = i # filter ?P [Suc i..<?n]" by blast
  then show ?case
  proof cases
    case 1
    then have "EV_StartLightStrobing_loop fnp ln secnum lv = Some (Inr lv)"
      by (subst EV_StartLightStrobing_loop.simps) (simp add: Let_def)
    with 1 less.prems(1) show ?thesis by (intro disjI2 exI [of _ lv] exI [of _ "[]"]) simp
  next
    case (2 i)
    have dec: "?n - nat (int i + 1) < ?n - nat (secnum + 1)" using 2(2,3) less.prems(2) by linarith
    have i1: "- 1 \<le> int i" "nat (int i + 1) = Suc i" by auto
    show ?thesis
    proof (cases "sc_specialdata (sector lv i) = 0")
      case False
      then have "EV_StartLightStrobing_loop fnp ln secnum lv = EV_StartLightStrobing_loop fnp ln (int i) lv"
        using 2 by (subst EV_StartLightStrobing_loop.simps) (simp add: Let_def)
      with less.hyps [OF dec less.prems(1) i1(1)] 2(4) False i1(2) show ?thesis by simp
    next
      case True
      from spawn_strobe [OF less.prems(1), of fnp i SLOWDARK False] show ?thesis
        unfolding spawns_def
      proof (elim disjE exE conjE)
        assume "P_SpawnStrobeFlash fnp i SLOWDARK False lv = Some (Inl alloc_failed)"
        then have "EV_StartLightStrobing_loop fnp ln secnum lv = Some (Inl alloc_failed)"
          using 2 True by (subst EV_StartLightStrobing_loop.simps) (simp add: Let_def)
        then show ?thesis by blast
      next
        fix p lv1 c
        assume sp: "P_SpawnStrobeFlash fnp i SLOWDARK False lv = Some (Inr lv1)"
          and ap: "appended lv lv1 xs p" and fn: "th_function (lv_th lv1 p) = fnp T_StrobeFlash"
          and b: "lv_body lv1 p = B_strobe \<lparr>st_sector = int i, st_count = c,
            st_minlight = (let m = P_FindMinSurroundingLight lv i (sc_lightlevel (sector lv i))
                           in if m = sc_lightlevel (sector lv i) then 0 else m),
            st_maxlight = sc_lightlevel (sector lv i), st_darktime = SLOWDARK, st_brighttime = STROBEBRIGHT\<rparr>"
        have eq: "EV_StartLightStrobing_loop fnp ln secnum lv = EV_StartLightStrobing_loop fnp ln (int i) lv1"
          using 2 True sp by (subst EV_StartLightStrobing_loop.simps) (simp add: Let_def)
        have ok1: "level_ok lv1 (xs @ [p])" and len: "length (lv_sectors lv1) = ?n"
          and px: "p \<notin> set xs"
          and same: "\<And>s. sc_tag (sector lv1 s) = sc_tag (sector lv s) \<and> sc_specialdata (sector lv1 s) = sc_specialdata (sector lv s)"
          and old: "\<forall>y\<in>set xs. th_function (lv_th lv1 y) = th_function (lv_th lv y) \<and> lv_body lv1 y = lv_body lv y"
          using ap by (simp_all add: appended_def)
        have "length (lv_sectors lv1) - nat (int i + 1) < ?n - nat (secnum + 1)" using dec len by simp
        from less.hyps [OF this ok1 i1(1)] show ?thesis
        proof (elim disjE exE conjE)
          fix lv' ps
          assume l: "EV_StartLightStrobing_loop fnp ln (int i) lv1 = Some (Inr lv')"
            and ok': "level_ok lv' ((xs @ [p]) @ ps)"
            and m: "map (\<lambda>p. strobe_sector (lv_body lv' p)) ps =
              filter (\<lambda>i. sc_specialdata (sector lv1 i) = 0)
               (filter (\<lambda>i. sc_tag (sector lv1 i) = ln_tag ln) [nat (int i + 1)..<length (lv_sectors lv1)])"
            and f: "\<forall>q\<in>set ps. th_function (lv_th lv' q) = fnp T_StrobeFlash"
            and o: "\<forall>y\<in>set (xs @ [p]). th_function (lv_th lv' y) = th_function (lv_th lv1 y) \<and> lv_body lv' y = lv_body lv1 y"
          have "map (\<lambda>q. strobe_sector (lv_body lv' q)) (p # ps) =
              filter (\<lambda>i. sc_specialdata (sector lv i) = 0) (filter ?P [nat (secnum + 1)..<?n])"
            using m o b True 2(4) i1(2) len same by simp
          moreover have "\<forall>q\<in>set (p # ps). th_function (lv_th lv' q) = fnp T_StrobeFlash" using f o fn by simp
          moreover have "\<forall>y\<in>set xs. th_function (lv_th lv' y) = th_function (lv_th lv y) \<and> lv_body lv' y = lv_body lv y"
            using o old by simp
          ultimately show ?thesis using l ok' eq by (intro disjI2 exI [of _ lv'] exI [of _ "p # ps"]) simp
        qed (simp add: eq)
      qed
    qed
  qed
qed

text \<open>
  Every way the lights of a level come about: a level without thinkers, the spawn functions
  on a sector whose level leaves room for the flicker's steps, the line events, and tics.
\<close>

inductive light_reach :: "symbols \<Rightarrow> int \<Rightarrow> int \<Rightarrow> level \<Rightarrow> bool" for fnp lo hi where
  lr_start: "level_ok lv [] \<Longrightarrow> lights_ok fnp lo hi lv [] \<Longrightarrow>
    \<forall>s<length (lv_sectors lv). neighbours lv s \<subseteq> {..<length (lv_sectors lv)} \<Longrightarrow> light_reach fnp lo hi lv"
| lr_flicker: "light_reach fnp lo hi lv \<Longrightarrow> s < length (lv_sectors lv) \<Longrightarrow> lo + 48 \<le> sc_lightlevel (sector lv s) \<Longrightarrow>
    sc_lightlevel (sector lv s) + 16 \<le> hi \<Longrightarrow> P_SpawnFireFlicker fnp s lv = Some (Inr lv') \<Longrightarrow> light_reach fnp lo hi lv'"
| lr_flash: "light_reach fnp lo hi lv \<Longrightarrow> s < length (lv_sectors lv) \<Longrightarrow>
    P_SpawnLightFlash fnp s lv = Some (Inr lv') \<Longrightarrow> light_reach fnp lo hi lv'"
| lr_strobe: "light_reach fnp lo hi lv \<Longrightarrow> s < length (lv_sectors lv) \<Longrightarrow>
    P_SpawnStrobeFlash fnp s dark sync lv = Some (Inr lv') \<Longrightarrow> light_reach fnp lo hi lv'"
| lr_glow: "light_reach fnp lo hi lv \<Longrightarrow> s < length (lv_sectors lv) \<Longrightarrow>
    P_SpawnGlowingLight fnp s lv = Some (Inr lv') \<Longrightarrow> light_reach fnp lo hi lv'"
| lr_off: "light_reach fnp lo hi lv \<Longrightarrow> light_reach fnp lo hi (EV_TurnTagLightsOff ln lv)"
| lr_on: "light_reach fnp lo hi lv \<Longrightarrow> lo \<le> bright \<Longrightarrow> bright \<le> hi \<Longrightarrow> light_reach fnp lo hi (EV_LightTurnOn ln bright lv)"
| lr_tic: "light_reach fnp lo hi lv \<Longrightarrow> P_RunThinkers (light_thinker fnp) lv = Some (Inr lv') \<Longrightarrow> light_reach fnp lo hi lv'"

lemma lights_set_light:
  assumes "lights_ok fnp lo hi lv xs" "s < length (lv_sectors lv)" "lo \<le> l" "l \<le> hi"
  shows "lights_ok fnp lo hi (set_light s l lv) xs"
proof -
  have "i16 l = l" using assms by (intro i16_id') (simp_all add: lights_ok_def)
  then have "lo \<le> sc_lightlevel (sector (set_light s l lv) t) \<and> sc_lightlevel (sector (set_light s l lv) t) \<le> hi"
    if "t < length (lv_sectors lv)" for t
    using lights_okD(4) [OF assms(1) that] assms(2-4) by (simp add: sector_set_light)
  moreover have "light_in fnp lo hi (set_light s l lv) x = light_in fnp lo hi lv x" for x
    by (simp add: light_in_def)
  ultimately show ?thesis using assms(1) by (simp add: lights_ok_def)
qed

text \<open>The levels the events and tics keep: the lights are in order and the map is unchanged.\<close>

definition lit :: "symbols \<Rightarrow> int \<Rightarrow> int \<Rightarrow> level \<Rightarrow> int list \<Rightarrow> bool" where
  "lit fnp lo hi lv xs \<longleftrightarrow> level_ok lv xs \<and> lights_ok fnp lo hi lv xs \<and>
     (\<forall>s<length (lv_sectors lv). neighbours lv s \<subseteq> {..<length (lv_sectors lv)})"

lemma lit_same_map:
  assumes "lit fnp lo hi lv xs" "same_map lv lv'" "level_ok lv' ys" "lights_ok fnp lo hi lv' ys"
  shows "lit fnp lo hi lv' ys"
  using assms same_map_neighbours [OF assms(2)] same_map_length [OF assms(2)] by (simp add: lit_def)

lemma lit_set_light:
  assumes "lit fnp lo hi lv xs" "s < length (lv_sectors lv)" "lo \<le> l" "l \<le> hi"
  shows "lit fnp lo hi (set_light s l lv) xs"
proof (rule lit_same_map [OF assms(1)])
  show "level_ok (set_light s l lv) xs" using assms(1) by (auto simp: lit_def intro: level_ok_frame)
  show "lights_ok fnp lo hi (set_light s l lv) xs" using assms by (auto simp: lit_def intro: lights_set_light)
qed simp

lemma neighbour_light:
  assumes "lit fnp lo hi lv xs" "s < length (lv_sectors lv)" "l \<in> set (sc_lines (sector lv s))"
    "getNextSector (line lv l) s = Some t"
  shows "lo \<le> sc_lightlevel (sector lv t) \<and> sc_lightlevel (sector lv t) \<le> hi"
proof -
  have "t \<in> neighbours lv s" using assms(3,4) by (auto simp: neighbours_def)
  then have "t < length (lv_sectors lv)" using assms(1,2) by (auto simp: lit_def)
  then show ?thesis using assms(1) lights_okD(4) unfolding lit_def by blast
qed

lemma lit_min_light:
  assumes "lit fnp lo hi lv xs" "s < length (lv_sectors lv)"
  shows "lo \<le> sc_lightlevel (sector lv s)" "sc_lightlevel (sector lv s) \<le> hi"
    "lo \<le> P_FindMinSurroundingLight lv s (sc_lightlevel (sector lv s))"
    "P_FindMinSurroundingLight lv s (sc_lightlevel (sector lv s)) \<le> sc_lightlevel (sector lv s)"
proof -
  have ok: "lights_ok fnp lo hi lv xs" and n: "neighbours lv s \<subseteq> {..<length (lv_sectors lv)}"
    using assms by (simp_all add: lit_def)
  show l: "lo \<le> sc_lightlevel (sector lv s)" "sc_lightlevel (sector lv s) \<le> hi"
    using lights_okD(4) [OF ok assms(2)] by simp_all
  show "lo \<le> P_FindMinSurroundingLight lv s (sc_lightlevel (sector lv s))"
    "P_FindMinSurroundingLight lv s (sc_lightlevel (sector lv s)) \<le> sc_lightlevel (sector lv s)"
    using min_light_bounds [OF ok n l] by simp_all
qed

lemma lights_off_lit:
  assumes "lit fnp lo hi lv xs"
  shows "lit fnp lo hi (EV_TurnTagLightsOff ln lv) xs \<and>
    length (lv_sectors (EV_TurnTagLightsOff ln lv)) = length (lv_sectors lv)"
  unfolding EV_TurnTagLightsOff_def
proof (rule fold_invariant [where Q = "\<lambda>j. j < length (lv_sectors lv)"])
  fix j lv'
  assume j: "j < length (lv_sectors lv)" and p: "lit fnp lo hi lv' xs \<and> length (lv_sectors lv') = length (lv_sectors lv)"
  let ?m = "P_FindMinSurroundingLight lv' j (sc_lightlevel (sector lv' j))"
  have l: "lit fnp lo hi lv' xs" "j < length (lv_sectors lv')" using p j by simp_all
  have "lit fnp lo hi (set_light j ?m lv') xs"
    by (rule lit_set_light [OF l]) (use lit_min_light [OF l] in linarith)+
  then show "lit fnp lo hi (if sc_tag (sector lv' j) = ln_tag ln
                  then set_light j
                         (fold (\<lambda>l mn. case getNextSector (line lv' l) j of
                                  None \<Rightarrow> mn
                                | Some tsec \<Rightarrow> if sc_lightlevel (sector lv' tsec) < mn
                                               then sc_lightlevel (sector lv' tsec) else mn)
                               (sc_lines (sector lv' j)) (sc_lightlevel (sector lv' j))) lv'
                  else lv') xs \<and>
    length (lv_sectors (if sc_tag (sector lv' j) = ln_tag ln
                  then set_light j
                         (fold (\<lambda>l mn. case getNextSector (line lv' l) j of
                                  None \<Rightarrow> mn
                                | Some tsec \<Rightarrow> if sc_lightlevel (sector lv' tsec) < mn
                                               then sc_lightlevel (sector lv' tsec) else mn)
                               (sc_lines (sector lv' j)) (sc_lightlevel (sector lv' j))) lv'
                  else lv')) = length (lv_sectors lv)"
    using p by (simp add: P_FindMinSurroundingLight_def)
qed (use assms in simp_all)

lemma light_on_step_lit:
  assumes "lit fnp lo hi lv xs" "i < length (lv_sectors lv)" "lo \<le> b" "b \<le> hi" "light_on_step ln i (b, lv) = (b', lv')"
  shows "lit fnp lo hi lv' xs \<and> length (lv_sectors lv') = length (lv_sectors lv) \<and> lo \<le> b' \<and> b' \<le> hi"
proof -
  let ?f = "fold (\<lambda>l b. case getNextSector (line lv l) i of None \<Rightarrow> b
     | Some temp \<Rightarrow> if sc_lightlevel (sector lv temp) > b then sc_lightlevel (sector lv temp) else b) (sc_lines (sector lv i)) b"
  have "lo \<le> ?f \<and> ?f \<le> hi"
    by (rule fold_invariant [where Q = "\<lambda>l. l \<in> set (sc_lines (sector lv i))"])
      (use assms(3,4) neighbour_light [OF assms(1,2)] in \<open>auto split: option.split\<close>)
  then show ?thesis
    using assms lit_set_light [OF assms(1,2)] by (auto simp: light_on_step_def Let_def split: if_splits)
qed

lemma lights_on_lit:
  assumes "lit fnp lo hi lv xs" "lo \<le> b" "b \<le> hi"
  shows "lit fnp lo hi (EV_LightTurnOn ln b lv) xs"
proof -
  define P where "P = (\<lambda>(b, lv'). lit fnp lo hi lv' xs \<and> length (lv_sectors lv') = length (lv_sectors lv) \<and> lo \<le> b \<and> b \<le> hi)"
  have "P (fold (light_on_step ln) [0..<length (lv_sectors lv)] (b, lv))"
  proof (rule fold_invariant [where Q = "\<lambda>i. i < length (lv_sectors lv)"])
    fix i p assume i: "i < length (lv_sectors lv)" and p: "P p"
    obtain b lv1 b' lv2 where s: "p = (b, lv1)" "light_on_step ln i (b, lv1) = (b', lv2)" by (metis surj_pair)
    with p i light_on_step_lit [of fnp lo hi lv1 xs i b ln b' lv2] show "P (light_on_step ln i p)" by (simp add: P_def)
  qed (use assms in \<open>simp_all add: P_def\<close>)
  then show ?thesis by (auto simp: EV_LightTurnOn_def P_def split: prod.splits)
qed

lemma lit_appended:
  assumes "lit fnp lo hi lv xs" "appended lv lv' xs p" "light_in fnp lo hi lv' p"
  shows "lit fnp lo hi lv' (xs @ [p])"
proof (rule lit_same_map [OF assms(1)])
  show "same_map lv lv'" using assms(2) by (auto simp: same_map_def appended_def intro: nth_equalityI)
  show "level_ok lv' (xs @ [p])" using assms(2) by (simp add: appended_def)
  show "lights_ok fnp lo hi lv' (xs @ [p])" using lights_ok_appended assms unfolding lit_def by blast
qed

lemma light_reach_lit:
  assumes "light_reach fnp lo hi lv" "lo \<le> 0" "0 \<le> hi"
  shows "\<exists>xs. lit fnp lo hi lv xs"
  using assms
proof (induction rule: light_reach.induct)
  case (lr_start lv)
  then show ?case unfolding lit_def by blast
next
  case (lr_flicker lv s lv')
  then obtain xs where xs: "lit fnp lo hi lv xs" by blast
  note m = lit_min_light [OF xs lr_flicker.hyps(2)]
  from xs spawn_flicker [of lv xs fnp s] lr_flicker.hyps(5) obtain p where p: "appended lv lv' xs p"
    "th_function (lv_th lv' p) = fnp T_FireFlicker"
    "lv_body lv' p = B_flicker \<lparr>ff_sector = int s, ff_count = 4, ff_maxlight = sc_lightlevel (sector lv s),
        ff_minlight = P_FindMinSurroundingLight lv s (sc_lightlevel (sector lv s)) + 16\<rparr>"
    unfolding lit_def spawns_def by auto
  then have "light_in fnp lo hi lv' p" using m lr_flicker.hyps by (simp add: light_in_def Let_def appended_def)
  from lit_appended [OF xs p(1) this] show ?case by blast
next
  case (lr_flash lv s lv')
  then obtain xs where xs: "lit fnp lo hi lv xs" by blast
  note m = lit_min_light [OF xs lr_flash.hyps(2)]
  from xs spawn_flash [of lv xs fnp s] lr_flash.hyps(3) obtain p c where p: "appended lv lv' xs p"
    "th_function (lv_th lv' p) = fnp T_LightFlash"
    "lv_body lv' p = B_flash \<lparr>lf_sector = int s, lf_count = c, lf_maxlight = sc_lightlevel (sector lv s),
        lf_minlight = P_FindMinSurroundingLight lv s (sc_lightlevel (sector lv s)), lf_maxtime = 64, lf_mintime = 7\<rparr>"
    unfolding lit_def spawns_def by auto
  then have "light_in fnp lo hi lv' p" using m lr_flash.hyps by (simp add: light_in_def Let_def appended_def)
  from lit_appended [OF xs p(1) this] show ?case by blast
next
  case (lr_strobe lv s dark sync lv')
  then obtain xs where xs: "lit fnp lo hi lv xs" by blast
  note m = lit_min_light [OF xs lr_strobe.hyps(2)]
  from xs spawn_strobe [of lv xs fnp s dark sync] lr_strobe.hyps(3) obtain p c where p: "appended lv lv' xs p"
    "th_function (lv_th lv' p) = fnp T_StrobeFlash"
    "lv_body lv' p = B_strobe \<lparr>st_sector = int s, st_count = c,
        st_minlight = (let m = P_FindMinSurroundingLight lv s (sc_lightlevel (sector lv s))
                       in if m = sc_lightlevel (sector lv s) then 0 else m),
        st_maxlight = sc_lightlevel (sector lv s), st_darktime = dark, st_brighttime = STROBEBRIGHT\<rparr>"
    unfolding lit_def spawns_def by auto
  then have "light_in fnp lo hi lv' p"
    using m lr_strobe.hyps lr_strobe.prems by (simp add: light_in_def Let_def appended_def)
  from lit_appended [OF xs p(1) this] show ?case by blast
next
  case (lr_glow lv s lv')
  then obtain xs where xs: "lit fnp lo hi lv xs" by blast
  note m = lit_min_light [OF xs lr_glow.hyps(2)]
  from xs spawn_glow [of lv xs fnp s] lr_glow.hyps(3) obtain p where p: "appended lv lv' xs p"
    "th_function (lv_th lv' p) = fnp T_Glow"
    "lv_body lv' p = B_glow \<lparr>gl_sector = int s, gl_minlight = P_FindMinSurroundingLight lv s (sc_lightlevel (sector lv s)),
        gl_maxlight = sc_lightlevel (sector lv s), gl_direction = - 1\<rparr>"
    unfolding lit_def spawns_def by auto
  then have "light_in fnp lo hi lv' p" using m lr_glow.hyps by (simp add: light_in_def Let_def appended_def)
  from lit_appended [OF xs p(1) this] show ?case by blast
next
  case (lr_off lv ln)
  then show ?case using lights_off_lit by blast
next
  case (lr_on lv bright ln)
  then show ?case using lights_on_lit by blast
next
  case (lr_tic lv lv')
  then obtain xs where xs: "lit fnp lo hi lv xs" by blast
  then have ok: "level_ok lv xs" "lights_ok fnp lo hi lv xs" by (simp_all add: lit_def)
  obtain ys where ys: "tic (light_thinker fnp) [] xs lv lv' ys" "level_ok lv' ys" "lights_ok fnp lo hi lv' ys"
    using lights.run_thinkers [OF ok] lr_tic.hyps(2) by auto
  with light_tic [OF ys(1)] ok have "same_map lv lv'" by simp
  from lit_same_map [OF xs this ys(2,3)] show ?case by blast
qed

text \<open>
  C17. However the lights of a level were made and the events and tics that came after, the
  thinker list is intact, its members are blocks of a well-formed zone, no light level has
  left the bounds \<open>lo\<close> and \<open>hi\<close>, and the next tic returns without an error.
\<close>

theorem light_reach_sound:
  assumes "light_reach fnp lo hi lv" "lo \<le> 0" "0 \<le> hi"
  shows "\<exists>xs lv'. level_ok lv xs \<and>
    (\<forall>s<length (lv_sectors lv). lo \<le> sc_lightlevel (sector lv s) \<and> sc_lightlevel (sector lv s) \<le> hi) \<and>
    P_RunThinkers (light_thinker fnp) lv = Some (Inr lv')"
proof -
  obtain xs where xs: "lit fnp lo hi lv xs" using light_reach_lit [OF assms] by blast
  then have ok: "level_ok lv xs" "lights_ok fnp lo hi lv xs" by (simp_all add: lit_def)
  then show ?thesis using lights.run_thinkers [OF ok] lights_okD(4) [OF ok(2)] by blast
qed

text \<open>
  C19. \<open>EV_StartLightStrobing\<close> always returns. Unless the zone is exhausted it appends one
  slow strobe for each sector that has the line's tag and no other mover or light, in the order of the
  sectors, and leaves the thinkers that were there alone.
\<close>

theorem EV_StartLightStrobing_correct:
  assumes "level_ok lv xs"
  shows "EV_StartLightStrobing fnp ln lv = Some (Inl alloc_failed) \<or>
    (\<exists>lv' ps. EV_StartLightStrobing fnp ln lv = Some (Inr lv') \<and> level_ok lv' (xs @ ps) \<and>
       map (\<lambda>p. strobe_sector (lv_body lv' p)) ps =
         filter (\<lambda>i. sc_tag (sector lv i) = ln_tag ln \<and> sc_specialdata (sector lv i) = 0) [0..<length (lv_sectors lv)] \<and>
       (\<forall>p\<in>set ps. th_function (lv_th lv' p) = fnp T_StrobeFlash) \<and>
       (\<forall>y\<in>set xs. th_function (lv_th lv' y) = th_function (lv_th lv y) \<and> lv_body lv' y = lv_body lv y))"
  using strobing_loop [OF assms, of "- 1" fnp ln] by (simp add: EV_StartLightStrobing_def conj_commute)

text \<open>
  C18. A tic of a level whose thinkers are lights: \<open>P_RunThinkers\<close> returns, without an error
  whatever lights there are and in whatever state; exactly the thinkers marked for removal are
  unlinked, and the order of the others is kept; the zone's heap afterwards is the heap before less
  exactly the blocks of the marked thinkers; and no light level
  leaves the bounds the lights were made with.
\<close>

theorem lights_tic:
  assumes "level_ok lv xs" "lights_ok fnp lo hi lv xs"
  shows "\<exists>lv' ys. P_RunThinkers (light_thinker fnp) lv = Some (Inr lv') \<and>
    ys = filter (\<lambda>x. th_function (lv_th lv x) \<noteq> removed_mark (larch lv)) xs \<and>
    level_ok lv' ys \<and> lights_ok fnp lo hi lv' ys \<and> length (lv_sectors lv') = length (lv_sectors lv) \<and>
    heap (lv_zone lv') = heap (lv_zone lv) |` (- {x \<in> set xs. th_function (lv_th lv x) = removed_mark (larch lv)}) \<and>
    (\<forall>s<length (lv_sectors lv'). lo \<le> sc_lightlevel (sector lv' s) \<and> sc_lightlevel (sector lv' s) \<le> hi)"
proof -
  obtain lv' ys where r: "P_RunThinkers (light_thinker fnp) lv = Some (Inr lv')" "tic (light_thinker fnp) [] xs lv lv' ys"
    "level_ok lv' ys" "lights_ok fnp lo hi lv' ys" using lights.run_thinkers [OF assms] by blast
  have "ys = filter (\<lambda>x. th_function (lv_th lv x) \<noteq> removed_mark (larch lv)) xs"
    "length (lv_sectors lv') = length (lv_sectors lv)"
    "heap (lv_zone lv') = heap (lv_zone lv) |` (- {x \<in> set xs. th_function (lv_th lv x) = removed_mark (larch lv)})"
    using light_tic [OF r(2)] assms by simp_all
  with r lights_okD(4) [OF r(4)] show ?thesis by blast
qed

section \<open>Witnesses\<close>

text \<open>A linker's addresses, and a strobe in the middle one of three rooms.\<close>

fun demo_symbols :: symbols where
  "demo_symbols P_MobjThinker = 4096"
| "demo_symbols T_MoveCeiling = 4128"
| "demo_symbols T_VerticalDoor = 4160"
| "demo_symbols T_MoveFloor = 4192"
| "demo_symbols T_PlatRaise = 4224"
| "demo_symbols T_LightFlash = 4256"
| "demo_symbols T_StrobeFlash = 4288"
| "demo_symbols T_Glow = 4320"
| "demo_symbols T_FireFlicker = 4352"

lemma inj_demo: "inj demo_symbols"
proof (rule injI)
  fix a b assume "demo_symbols a = demo_symbols b"
  then show "a = b" by (cases a; cases b) simp_all
qed

lemma three_rooms_ok: "level_ok three_rooms []" "lights_ok demo_symbols 0 255 three_rooms []"
    "\<forall>s<length (lv_sectors three_rooms). neighbours three_rooms s \<subseteq> {..<length (lv_sectors three_rooms)}"
proof -
  show "level_ok three_rooms []"
    using small_zone_ok(1)
    by (simp add: level_ok_def thinkers_def cap_outside_def three_rooms_def) (simp add: small_zone_def Z_Init_def Let_def)
  show "lights_ok demo_symbols 0 255 three_rooms []"
    by (auto simp: lights_ok_def inj_demo three_rooms_def room_def less_Suc_eq)
  show "\<forall>s<length (lv_sectors three_rooms). neighbours three_rooms s \<subseteq> {..<length (lv_sectors three_rooms)}"
    by (auto simp: neighbours_def three_rooms_def room_def two_sided_line_def getNextSector_def ML_TWOSIDED_def
        less_Suc_eq split: if_splits)
qed

lemma three_rooms_strobe:
  obtains lv p where "P_SpawnStrobeFlash demo_symbols 1 SLOWDARK False three_rooms = Some (Inr lv)"
    "lit demo_symbols 0 255 lv [p]" "light_reach demo_symbols 0 255 lv" "th_function (lv_th lv p) = 4288" "larch lv = LP64"
proof -
  note ok = three_rooms_ok
  have l: "lit demo_symbols 0 255 three_rooms []" using ok by (simp add: lit_def)
  have zn: "lv_zone three_rooms = small_zone" by (simp add: three_rooms_def)
  have "alloc_size LP64 56 \<le> 944" by (simp add: alloc_size_def i32_def signed_take_bit_int_eq_self)
  then have nf: "\<not> (\<forall>n\<in>free_sizes small_zone. n < alloc_size (zarch small_zone) 56)"
    using small_zone_free by force
  obtain p z where "Z_Malloc 56 PU_LEVSPEC None small_zone = Some (Inr (p, z))"
    using Z_Malloc_refines [OF small_zone_ok(1), of 56 PU_LEVSPEC None] nf by (auto simp: PU_defs INT_MAX_def)
  then have "level_alloc (sizeof_strobe (larch three_rooms)) PU_LEVSPEC three_rooms \<noteq> Some (Inl alloc_failed)"
    by (simp add: level_alloc_def zn small_zone_free(2))
  then have "P_SpawnStrobeFlash demo_symbols 1 SLOWDARK False three_rooms \<noteq> Some (Inl alloc_failed)"
    using level_alloc_cases [OF ok(1) sizes_ok(5,6) levspec_tag, of "larch three_rooms"]
    by (auto simp: P_SpawnStrobeFlash_def Let_def strobe_count_def split: prod.splits)
  then obtain p lv c where p: "P_SpawnStrobeFlash demo_symbols 1 SLOWDARK False three_rooms = Some (Inr lv)"
    "appended three_rooms lv [] p" "th_function (lv_th lv p) = demo_symbols T_StrobeFlash"
    "lv_body lv p = B_strobe \<lparr>st_sector = int 1, st_count = c,
        st_minlight = (let m = P_FindMinSurroundingLight three_rooms 1 (sc_lightlevel (sector three_rooms 1))
                       in if m = sc_lightlevel (sector three_rooms 1) then 0 else m),
        st_maxlight = sc_lightlevel (sector three_rooms 1), st_darktime = SLOWDARK, st_brighttime = STROBEBRIGHT\<rparr>"
    using spawn_strobe [OF ok(1), of demo_symbols 1 SLOWDARK False] unfolding spawns_def by auto
  have s: "1 < length (lv_sectors three_rooms)" by (simp add: three_rooms_def)
  have "light_in demo_symbols 0 255 lv p"
    using p lit_min_light [OF l s] s by (simp add: light_in_def Let_def appended_def)
  from lit_appended [OF l p(2) this] have "lit demo_symbols 0 255 lv [p]" by simp
  moreover have "light_reach demo_symbols 0 255 lv" using lr_strobe [OF lr_start [OF ok] s p(1)] .
  moreover have "larch lv = LP64" using p(2) zn small_zone_free(2) by (simp add: appended_def)
  ultimately show thesis using that p(1,3) by simp
qed

text \<open>The strobe is kept by one tic, and freed by a tic after it was removed.\<close>

lemma removed_lit:
  assumes "lit fnp lo hi lv [p]"
  shows "level_ok (P_RemoveThinker p lv) [p]" "lights_ok fnp lo hi (P_RemoveThinker p lv) [p]"
    "th_function (lv_th (P_RemoveThinker p lv) p) = removed_mark (larch (P_RemoveThinker p lv))"
    "lv_zone (P_RemoveThinker p lv) = lv_zone lv"
proof -
  have ok: "level_ok lv [p]" "lights_ok fnp lo hi lv [p]" using assms by (simp_all add: lit_def)
  then show "level_ok (P_RemoveThinker p lv) [p]"
    by (auto simp: level_ok_def thinkers_def cap_outside_def P_RemoveThinker_def)
  have "light_in fnp lo hi (P_RemoveThinker p lv) p"
    using lights_okD(5) [OF ok(2)] by (auto simp: light_in_def Let_def P_RemoveThinker_def split: body.splits)
  with ok(2) show "lights_ok fnp lo hi (P_RemoveThinker p lv) [p]"
    by (simp add: lights_ok_def P_RemoveThinker_def)
qed (simp_all add: P_RemoveThinker_def)

theorem lights_tic_witness:
  "\<exists>lv lv' lv'' p. P_SpawnStrobeFlash demo_symbols 1 SLOWDARK False three_rooms = Some (Inr lv) \<and>
     P_RunThinkers (light_thinker demo_symbols) lv = Some (Inr lv') \<and> level_ok lv' [p] \<and>
     heap (lv_zone lv') = heap (lv_zone lv) \<and> heap (lv_zone lv) p \<noteq> None \<and>
     P_RunThinkers (light_thinker demo_symbols) (P_RemoveThinker p lv) = Some (Inr lv'') \<and> level_ok lv'' [] \<and>
     heap (lv_zone lv'') = (heap (lv_zone lv))(p := None)"
proof -
  obtain lv p where lv: "P_SpawnStrobeFlash demo_symbols 1 SLOWDARK False three_rooms = Some (Inr lv)"
    "lit demo_symbols 0 255 lv [p]" "th_function (lv_th lv p) = 4288" "larch lv = LP64" by (rule three_rooms_strobe)
  then have ok: "level_ok lv [p]" "lights_ok demo_symbols 0 255 lv [p]" by (simp_all add: lit_def)
  have "\<exists>lv'. P_RunThinkers (light_thinker demo_symbols) lv = Some (Inr lv') \<and> level_ok lv' [p] \<and>
      heap (lv_zone lv') = heap (lv_zone lv)"
    using lights_tic [OF ok] lv by (auto simp: removed_mark_def restrict_map_def fun_eq_iff)
  moreover note rm = removed_lit [OF lv(2)]
  have "\<exists>lv''. P_RunThinkers (light_thinker demo_symbols) (P_RemoveThinker p lv) = Some (Inr lv'') \<and> level_ok lv'' [] \<and>
      heap (lv_zone lv'') = (heap (lv_zone lv))(p := None)"
    using lights_tic [OF rm(1,2)] rm(3,4) by (auto simp: restrict_map_def fun_eq_iff)
  moreover have "heap (lv_zone lv) p \<noteq> None" using ok(1) by (auto simp: level_ok_def kept_def)
  ultimately show ?thesis using lv(1) by blast
qed

theorem light_reach_sound_witness:
  "\<exists>lv lv'. light_reach demo_symbols 0 255 lv \<and> P_SpawnStrobeFlash demo_symbols 1 SLOWDARK False three_rooms = Some (Inr lv) \<and>
     P_RunThinkers (light_thinker demo_symbols) lv = Some (Inr lv')"
proof -
  obtain lv p where lv: "P_SpawnStrobeFlash demo_symbols 1 SLOWDARK False three_rooms = Some (Inr lv)"
    "light_reach demo_symbols 0 255 lv" by (rule three_rooms_strobe)
  from light_reach_sound [OF lv(2)] lv show ?thesis by auto
qed

theorem EV_StartLightStrobing_correct_witness:
  "EV_StartLightStrobing demo_symbols (two_sided_line 0 1) three_rooms \<noteq> None"
  using EV_StartLightStrobing_correct [OF three_rooms_ok(1), of demo_symbols "two_sided_line 0 1"] by auto

end
