(* ===== verification/Active.thy ===== *)
theory Active
  imports Lights
begin

text \<open>
  The lists of active ceilings and platforms (\<^verbatim>\<open>p_ceilng.c\<close>, \<^verbatim>\<open>p_plats.c\<close>): arrays of
  pointers, 0 for \<open>NULL\<close>, through which line events stop and restart movers by their tag.
\<close>

section \<open>Operations\<close>

definition the_ceiling :: "level \<Rightarrow> int \<Rightarrow> ceiling_t result" where
  "the_ceiling lv p = (case lv_body lv p of B_ceiling c \<Rightarrow> Inr c | _ \<Rightarrow> Inl Bad_Access)"

definition the_plat :: "level \<Rightarrow> int \<Rightarrow> plat_t result" where
  "the_plat lv p = (case lv_body lv p of B_plat c \<Rightarrow> Inr c | _ \<Rightarrow> Inl Bad_Access)"

text \<open>The first cell that is \<open>NULL\<close> takes the pointer.\<close>

primrec add_active :: "int \<Rightarrow> int list \<Rightarrow> int list option" where
  "add_active c [] = None"
| "add_active c (x # xs) = (if x = 0 then Some (c # xs) else map_option ((#) x) (add_active c xs))"

primrec drop_active :: "int \<Rightarrow> int list \<Rightarrow> int list option" where
  "drop_active c [] = None"
| "drop_active c (x # xs) = (if x = c then Some (0 # xs) else map_option ((#) x) (drop_active c xs))"

definition set_special :: "int \<Rightarrow> int \<Rightarrow> level \<Rightarrow> level result" where
  "set_special s p lv =
     (if 0 \<le> s \<and> s < int (length (lv_sectors lv))
      then Inr (upd_sector (nat s) (\<lambda>sc. sc\<lparr>sc_specialdata := p\<rparr>) lv) else Inl Bad_Access)"

definition P_AddActiveCeiling :: "int \<Rightarrow> level \<Rightarrow> level" where
  "P_AddActiveCeiling c lv =
     (case add_active c (lv_ceilings lv) of Some cs \<Rightarrow> lv\<lparr>lv_ceilings := cs\<rparr> | None \<Rightarrow> lv)"

definition P_RemoveActiveCeiling :: "int \<Rightarrow> level \<Rightarrow> level result" where
  "P_RemoveActiveCeiling c lv =
     (case drop_active c (lv_ceilings lv) of
        None \<Rightarrow> Inr lv
      | Some cs \<Rightarrow>
          bindE (the_ceiling lv c) (\<lambda>ceil.
          bindE (set_special (cl_sector ceil) 0 lv) (\<lambda>lv.
          Inr ((P_RemoveThinker c lv)\<lparr>lv_ceilings := cs\<rparr>))))"

definition activate_ceiling :: "symbols \<Rightarrow> line_t \<Rightarrow> int \<Rightarrow> level \<Rightarrow> level result" where
  "activate_ceiling fnp ln p lv =
     (if p = 0 then Inr lv
      else bindE (the_ceiling lv p) (\<lambda>c.
        if cl_tag c = ln_tag ln \<and> cl_direction c = 0
        then Inr (set_function p (fnp T_MoveCeiling) (set_body p (B_ceiling (c\<lparr>cl_direction := cl_olddirection c\<rparr>)) lv))
        else Inr lv))"

definition stop_ceiling :: "line_t \<Rightarrow> int \<Rightarrow> bool \<times> level \<Rightarrow> (bool \<times> level) result" where
  "stop_ceiling ln p = (\<lambda>(rtn, lv).
     if p = 0 then Inr (rtn, lv)
     else bindE (the_ceiling lv p) (\<lambda>c.
       if cl_tag c = ln_tag ln \<and> cl_direction c \<noteq> 0
       then Inr (True, set_body p (B_ceiling (c\<lparr>cl_olddirection := cl_direction c, cl_direction := 0\<rparr>)) (set_function p 0 lv))
       else Inr (rtn, lv)))"

definition P_ActivateInStasisCeiling :: "symbols \<Rightarrow> line_t \<Rightarrow> level \<Rightarrow> level result" where
  "P_ActivateInStasisCeiling fnp ln lv = foldE (activate_ceiling fnp ln) (lv_ceilings lv) lv"

definition EV_CeilingCrushStop :: "line_t \<Rightarrow> level \<Rightarrow> (bool \<times> level) result" where
  "EV_CeilingCrushStop ln lv = foldE (stop_ceiling ln) (lv_ceilings lv) (False, lv)"

text \<open>\<open>plat_e\<close>: \<open>up\<close>, \<open>down\<close>, \<open>waiting\<close>, \<open>in_stasis\<close>.\<close>

definition in_stasis :: int where "in_stasis = 3"

definition P_AddActivePlat :: "int \<Rightarrow> level \<Rightarrow> level result" where
  "P_AddActivePlat p lv =
     (case add_active p (lv_plats lv) of
        Some ps \<Rightarrow> Inr (lv\<lparr>lv_plats := ps\<rparr>)
      | None \<Rightarrow> Inl (I_Error ''P_AddActivePlat: no more plats!''))"

definition P_RemoveActivePlat :: "int \<Rightarrow> level \<Rightarrow> level result" where
  "P_RemoveActivePlat p lv =
     (case drop_active p (lv_plats lv) of
        None \<Rightarrow> Inl (I_Error ''P_RemoveActivePlat: can't find plat!'')
      | Some ps \<Rightarrow>
          bindE (the_plat lv p) (\<lambda>plat.
          bindE (set_special (pl_sector plat) 0 lv) (\<lambda>lv.
          Inr ((P_RemoveThinker p lv)\<lparr>lv_plats := ps\<rparr>))))"

definition activate_plat :: "symbols \<Rightarrow> int \<Rightarrow> int \<Rightarrow> level \<Rightarrow> level result" where
  "activate_plat fnp tag p lv =
     (if p = 0 then Inr lv
      else bindE (the_plat lv p) (\<lambda>c.
        if pl_tag c = tag \<and> pl_status c = in_stasis
        then Inr (set_function p (fnp T_PlatRaise) (set_body p (B_plat (c\<lparr>pl_status := pl_oldstatus c\<rparr>)) lv))
        else Inr lv))"

definition stop_plat :: "line_t \<Rightarrow> int \<Rightarrow> level \<Rightarrow> level result" where
  "stop_plat ln p lv =
     (if p = 0 then Inr lv
      else bindE (the_plat lv p) (\<lambda>c.
        if pl_status c \<noteq> in_stasis \<and> pl_tag c = ln_tag ln
        then Inr (set_function p 0 (set_body p (B_plat (c\<lparr>pl_oldstatus := pl_status c, pl_status := in_stasis\<rparr>)) lv))
        else Inr lv))"

definition P_ActivateInStasis :: "symbols \<Rightarrow> int \<Rightarrow> level \<Rightarrow> level result" where
  "P_ActivateInStasis fnp tag lv = foldE (activate_plat fnp tag) (lv_plats lv) lv"

definition EV_StopPlat :: "line_t \<Rightarrow> level \<Rightarrow> level result" where
  "EV_StopPlat ln lv = foldE (stop_plat ln) (lv_plats lv) lv"

section \<open>The arrays\<close>

lemma add_active_None: "add_active c xs = None \<longleftrightarrow> 0 \<notin> set xs"
  by (induction xs) auto

lemma add_active_Some:
  "add_active c xs = Some ys \<Longrightarrow> length ys = length xs \<and> filter (\<lambda>x. x \<noteq> 0) xs = removeAll 0 xs \<and>
     c \<in> set ys \<and> set ys \<subseteq> insert c (set xs) \<and> set xs - {0} \<subseteq> set ys"
  by (induction xs arbitrary: ys) (auto split: if_splits simp: removeAll_filter_not_eq)

lemma drop_active_add:
  "add_active c xs = Some ys \<Longrightarrow> c \<notin> set xs \<Longrightarrow> drop_active c ys = Some xs"
  by (induction xs arbitrary: ys) (auto split: if_splits)

section \<open>Events that go through an array\<close>

text \<open>
  An event looks at each active mover and changes its body and its function only. The
  locale takes such a step \<open>f\<close> on a state that holds a level and what it does to
  the mover's cell, \<open>g\<close>; the loop then does it to every mover of the array.
\<close>

definition cell :: "level \<Rightarrow> int \<Rightarrow> body \<times> int" where
  "cell lv p = (lv_body lv p, th_function (lv_th lv p))"

definition put_cell :: "int \<Rightarrow> body \<times> int \<Rightarrow> level \<Rightarrow> level" where
  "put_cell p c lv = set_function p (snd c) (set_body p (fst c) lv)"

lemma cell_put [simp]: "cell (put_cell p c lv) q = (if q = p then c else cell lv q)"
  by (cases c) (simp add: cell_def put_cell_def set_function_def upd_th_def set_body_def)

lemma put_cell_same [simp]: "put_cell p (cell lv p) lv = lv"
  by (simp add: cell_def put_cell_def set_function_def upd_th_def set_body_def)

definition same_frame :: "level \<Rightarrow> level \<Rightarrow> bool" where
  "same_frame lv lv' \<longleftrightarrow> lv_zone lv' = lv_zone lv \<and> lv_cap lv' = lv_cap lv \<and> lv_sectors lv' = lv_sectors lv \<and>
     lv_lines lv' = lv_lines lv \<and> lv_sides lv' = lv_sides lv \<and> lv_ceilings lv' = lv_ceilings lv \<and>
     lv_plats lv' = lv_plats lv \<and> lv_rng lv' = lv_rng lv \<and>
     (\<forall>p. th_prev (lv_th lv' p) = th_prev (lv_th lv p) \<and> th_next (lv_th lv' p) = th_next (lv_th lv p))"

lemma same_frame_put [simp]: "same_frame lv (put_cell p c lv)"
  by (simp add: same_frame_def put_cell_def set_function_def upd_th_def set_body_def)

lemma same_frame_trans: "same_frame lv1 lv2 \<Longrightarrow> same_frame lv2 lv3 \<Longrightarrow> same_frame lv1 lv3"
  by (simp add: same_frame_def)

locale mover_event =
  fixes f :: "int \<Rightarrow> 's \<Rightarrow> 's result" and lev :: "'s \<Rightarrow> level"
    and g :: "body \<times> int \<Rightarrow> body \<times> int" and ok :: "body \<times> int \<Rightarrow> bool"
  assumes skip: "f 0 s = Inr s"
    and step: "p \<noteq> 0 \<Longrightarrow> ok (cell (lev s) p) \<Longrightarrow>
      \<exists>s'. f p s = Inr s' \<and> lev s' = put_cell p (g (cell (lev s) p)) (lev s)"
begin

lemma loop:
  assumes "distinct (removeAll 0 ps)" "\<forall>p\<in>set ps. p \<noteq> 0 \<longrightarrow> ok (cell (lev s) p)"
  shows "\<exists>s'. foldE f ps s = Inr s' \<and> same_frame (lev s) (lev s') \<and>
    (\<forall>p. cell (lev s') p = (if p \<in> set ps \<and> p \<noteq> 0 then g (cell (lev s) p) else cell (lev s) p))"
  using assms
proof (induction ps arbitrary: s)
  case Nil
  then show ?case by (simp add: same_frame_def)
next
  case (Cons p ps)
  show ?case
  proof (cases "p = 0")
    case True
    then show ?thesis using Cons.IH [of s] Cons.prems skip by auto
  next
    case False
    then obtain s1 where s1: "f p s = Inr s1" "lev s1 = put_cell p (g (cell (lev s) p)) (lev s)"
      using step [of p s] Cons.prems(2) by auto
    have p: "p \<notin> set ps" using Cons.prems(1) False by simp
    have d: "distinct (removeAll 0 ps)" using Cons.prems(1) False by simp
    have "\<forall>q\<in>set ps. q \<noteq> 0 \<longrightarrow> ok (cell (lev s1) q)" using Cons.prems(2) s1(2) p by auto
    from Cons.IH [OF d this] obtain s' where s': "foldE f ps s1 = Inr s'" "same_frame (lev s1) (lev s')"
      "\<forall>q. cell (lev s') q = (if q \<in> set ps \<and> q \<noteq> 0 then g (cell (lev s1) q) else cell (lev s1) q)" by blast
    have "cell (lev s') q = (if q \<in> set (p # ps) \<and> q \<noteq> 0 then g (cell (lev s) q) else cell (lev s) q)" for q
      using s'(3) s1(2) p False by (cases "q = p") auto
    moreover have "same_frame (lev s) (lev s')" using same_frame_trans s'(2) s1(2) same_frame_put by metis
    ultimately show ?thesis using s1(1) s'(1) by auto
  qed
qed

end

definition is_ceiling :: "body \<times> int \<Rightarrow> bool" where
  "is_ceiling c \<longleftrightarrow> (case fst c of B_ceiling _ \<Rightarrow> True | _ \<Rightarrow> False)"

definition is_plat :: "body \<times> int \<Rightarrow> bool" where
  "is_plat c \<longleftrightarrow> (case fst c of B_plat _ \<Rightarrow> True | _ \<Rightarrow> False)"

fun stopped_ceiling :: "int \<Rightarrow> body \<times> int \<Rightarrow> body \<times> int" where
  "stopped_ceiling tag (B_ceiling c, f) =
     (if cl_tag c = tag \<and> cl_direction c \<noteq> 0
      then (B_ceiling (c\<lparr>cl_olddirection := cl_direction c, cl_direction := 0\<rparr>), 0) else (B_ceiling c, f))"
| "stopped_ceiling tag c = c"

fun started_ceiling :: "symbols \<Rightarrow> int \<Rightarrow> body \<times> int \<Rightarrow> body \<times> int" where
  "started_ceiling fnp tag (B_ceiling c, f) =
     (if cl_tag c = tag \<and> cl_direction c = 0
      then (B_ceiling (c\<lparr>cl_direction := cl_olddirection c\<rparr>), fnp T_MoveCeiling) else (B_ceiling c, f))"
| "started_ceiling fnp tag c = c"

fun stopped_plat :: "int \<Rightarrow> body \<times> int \<Rightarrow> body \<times> int" where
  "stopped_plat tag (B_plat c, f) =
     (if pl_status c \<noteq> in_stasis \<and> pl_tag c = tag
      then (B_plat (c\<lparr>pl_oldstatus := pl_status c, pl_status := in_stasis\<rparr>), 0) else (B_plat c, f))"
| "stopped_plat tag c = c"

fun started_plat :: "symbols \<Rightarrow> int \<Rightarrow> body \<times> int \<Rightarrow> body \<times> int" where
  "started_plat fnp tag (B_plat c, f) =
     (if pl_tag c = tag \<and> pl_status c = in_stasis
      then (B_plat (c\<lparr>pl_status := pl_oldstatus c\<rparr>), fnp T_PlatRaise) else (B_plat c, f))"
| "started_plat fnp tag c = c"

lemma put_cell_eq:
  "put_cell p (b, f) lv = set_function p f (set_body p b lv)"
  "lv_body lv p = b \<Longrightarrow> set_function p (th_function (lv_th lv p)) (set_body p b lv) = lv"
  "set_body p b (set_function p f lv) = set_function p f (set_body p b lv)"
  using put_cell_same [of p lv] by (auto simp: cell_def put_cell_def set_function_def upd_th_def set_body_def)

interpretation act_ceiling: mover_event "activate_ceiling fnp ln" "\<lambda>lv. lv" "started_ceiling fnp (ln_tag ln)" is_ceiling for fnp ln
  by unfold_locales
    (auto simp: activate_ceiling_def the_ceiling_def is_ceiling_def cell_def put_cell_eq split: body.splits)

interpretation stop_ceiling: mover_event "stop_ceiling ln" snd "stopped_ceiling (ln_tag ln)" is_ceiling for ln
  by unfold_locales
    (auto simp: stop_ceiling_def the_ceiling_def is_ceiling_def cell_def put_cell_eq split: body.splits)

interpretation act_plat: mover_event "activate_plat fnp tag" "\<lambda>lv. lv" "started_plat fnp tag" is_plat for fnp tag
  by unfold_locales
    (auto simp: activate_plat_def the_plat_def is_plat_def cell_def put_cell_eq split: body.splits)

interpretation stop_plat: mover_event "stop_plat ln" "\<lambda>lv. lv" "stopped_plat (ln_tag ln)" is_plat for ln
  by unfold_locales
    (auto simp: stop_plat_def the_plat_def is_plat_def cell_def put_cell_eq split: body.splits)

section \<open>Stop and restart\<close>

text \<open>The arrays hold different movers of the right kind.\<close>

definition active_ok :: "level \<Rightarrow> bool" where
  "active_ok lv \<longleftrightarrow>
     distinct (removeAll 0 (lv_ceilings lv)) \<and> (\<forall>p\<in>set (lv_ceilings lv). p \<noteq> 0 \<longrightarrow> is_ceiling (cell lv p)) \<and>
     distinct (removeAll 0 (lv_plats lv)) \<and> (\<forall>p\<in>set (lv_plats lv). p \<noteq> 0 \<longrightarrow> is_plat (cell lv p))"

lemma keeps_kind:
  "is_ceiling c \<Longrightarrow> is_ceiling (stopped_ceiling tag c)" "is_ceiling c \<Longrightarrow> is_ceiling (started_ceiling fnp tag c)"
  "is_plat c \<Longrightarrow> is_plat (stopped_plat tag c)" "is_plat c \<Longrightarrow> is_plat (started_plat fnp tag c)"
  by (cases c; cases "fst c"; auto simp: is_ceiling_def is_plat_def)+

text \<open>A mover of the tag after a stop and a restart.\<close>

fun restarted :: "symbols \<Rightarrow> int \<Rightarrow> body \<times> int \<Rightarrow> body \<times> int" where
  "restarted fnp tag (B_ceiling c, f) =
     (if cl_tag c \<noteq> tag then (B_ceiling c, f)
      else if cl_direction c \<noteq> 0 then (B_ceiling (c\<lparr>cl_olddirection := cl_direction c\<rparr>), fnp T_MoveCeiling)
      else (B_ceiling (c\<lparr>cl_direction := cl_olddirection c\<rparr>), fnp T_MoveCeiling))"
| "restarted fnp tag (B_plat c, f) =
     (if pl_tag c \<noteq> tag then (B_plat c, f)
      else if pl_status c \<noteq> in_stasis then (B_plat (c\<lparr>pl_oldstatus := pl_status c\<rparr>), fnp T_PlatRaise)
      else (B_plat (c\<lparr>pl_status := pl_oldstatus c\<rparr>), fnp T_PlatRaise))"
| "restarted fnp tag c = c"

lemma restart_cell:
  "is_ceiling c \<Longrightarrow> started_ceiling fnp tag (stopped_ceiling tag c) = restarted fnp tag c"
  "is_plat c \<Longrightarrow> started_plat fnp tag (stopped_plat tag c) = restarted fnp tag c"
  by (cases c; cases "fst c"; auto simp: is_ceiling_def is_plat_def)+

lemma ceilings_restart:
  assumes "active_ok lv"
  shows "\<exists>rtn lv1 lv2. EV_CeilingCrushStop ln lv = Inr (rtn, lv1) \<and> P_ActivateInStasisCeiling fnp ln lv1 = Inr lv2 \<and>
    same_frame lv lv2 \<and>
    (\<forall>p. cell lv2 p = (if p \<in> set (lv_ceilings lv) \<and> p \<noteq> 0 then restarted fnp (ln_tag ln) (cell lv p) else cell lv p))"
proof -
  have d: "distinct (removeAll 0 (lv_ceilings lv))" "\<forall>p\<in>set (lv_ceilings lv). p \<noteq> 0 \<longrightarrow> is_ceiling (cell lv p)"
    using assms unfolding active_ok_def by blast+
  obtain rtn lv1 where s: "EV_CeilingCrushStop ln lv = Inr (rtn, lv1)" "same_frame lv lv1"
    "\<forall>p. cell lv1 p = (if p \<in> set (lv_ceilings lv) \<and> p \<noteq> 0 then stopped_ceiling (ln_tag ln) (cell lv p) else cell lv p)"
    using stop_ceiling.loop [OF d(1), of "(False, lv)" ln] d(2) by (auto simp: EV_CeilingCrushStop_def)
  have c1: "lv_ceilings lv1 = lv_ceilings lv" using s(2) by (simp add: same_frame_def)
  have "\<forall>p\<in>set (lv_ceilings lv1). p \<noteq> 0 \<longrightarrow> is_ceiling (cell lv1 p)" using s(3) d(2) c1 keeps_kind(1) by simp
  then obtain lv2 where a: "P_ActivateInStasisCeiling fnp ln lv1 = Inr lv2" "same_frame lv1 lv2"
    "\<forall>p. cell lv2 p = (if p \<in> set (lv_ceilings lv) \<and> p \<noteq> 0 then started_ceiling fnp (ln_tag ln) (cell lv1 p) else cell lv1 p)"
    using act_ceiling.loop [of "lv_ceilings lv1" lv1 fnp ln] d(1) c1 by (auto simp: P_ActivateInStasisCeiling_def)
  then have "\<forall>p. cell lv2 p = (if p \<in> set (lv_ceilings lv) \<and> p \<noteq> 0 then restarted fnp (ln_tag ln) (cell lv p) else cell lv p)"
    using s(3) d(2) restart_cell(1) by simp
  then show ?thesis using s(1) a(1) same_frame_trans [OF s(2) a(2)] by blast
qed

lemma plats_restart:
  assumes "active_ok lv"
  shows "\<exists>lv1 lv2. EV_StopPlat ln lv = Inr lv1 \<and> P_ActivateInStasis fnp (ln_tag ln) lv1 = Inr lv2 \<and> same_frame lv lv2 \<and>
    (\<forall>p. cell lv2 p = (if p \<in> set (lv_plats lv) \<and> p \<noteq> 0 then restarted fnp (ln_tag ln) (cell lv p) else cell lv p))"
proof -
  have d: "distinct (removeAll 0 (lv_plats lv))" "\<forall>p\<in>set (lv_plats lv). p \<noteq> 0 \<longrightarrow> is_plat (cell lv p)"
    using assms unfolding active_ok_def by blast+
  obtain lv1 where s: "EV_StopPlat ln lv = Inr lv1" "same_frame lv lv1"
    "\<forall>p. cell lv1 p = (if p \<in> set (lv_plats lv) \<and> p \<noteq> 0 then stopped_plat (ln_tag ln) (cell lv p) else cell lv p)"
    using stop_plat.loop [OF d, of ln] by (auto simp: EV_StopPlat_def)
  have c1: "lv_plats lv1 = lv_plats lv" using s(2) by (simp add: same_frame_def)
  have "\<forall>p\<in>set (lv_plats lv1). p \<noteq> 0 \<longrightarrow> is_plat (cell lv1 p)" using s(3) d(2) c1 keeps_kind(3) by simp
  then obtain lv2 where a: "P_ActivateInStasis fnp (ln_tag ln) lv1 = Inr lv2" "same_frame lv1 lv2"
    "\<forall>p. cell lv2 p = (if p \<in> set (lv_plats lv) \<and> p \<noteq> 0 then started_plat fnp (ln_tag ln) (cell lv1 p) else cell lv1 p)"
    using act_plat.loop [of "lv_plats lv1" lv1 fnp "ln_tag ln"] d(1) c1 by (auto simp: P_ActivateInStasis_def)
  then have "\<forall>p. cell lv2 p = (if p \<in> set (lv_plats lv) \<and> p \<noteq> 0 then restarted fnp (ln_tag ln) (cell lv p) else cell lv p)"
    using s(3) d(2) restart_cell(2) by simp
  then show ?thesis using s(1) a(1) same_frame_trans [OF s(2) a(2)] by blast
qed

text \<open>
  C21. Stopping the crushers of a tag and starting them again puts every ceiling that was
  moving back in motion in its old direction, wakes the ones of the tag that were already
  stopped, and leaves all other thinkers, the lists and the map as they were; it cannot
  fail. The same holds of the platforms.
\<close>

theorem movers_stop_restart:
  assumes "active_ok lv"
  shows "(\<exists>rtn lv1 lv2. EV_CeilingCrushStop ln lv = Inr (rtn, lv1) \<and> P_ActivateInStasisCeiling fnp ln lv1 = Inr lv2 \<and>
      same_frame lv lv2 \<and>
      (\<forall>p. cell lv2 p = (if p \<in> set (lv_ceilings lv) \<and> p \<noteq> 0 then restarted fnp (ln_tag ln) (cell lv p) else cell lv p))) \<and>
    (\<exists>lv1 lv2. EV_StopPlat ln lv = Inr lv1 \<and> P_ActivateInStasis fnp (ln_tag ln) lv1 = Inr lv2 \<and> same_frame lv lv2 \<and>
      (\<forall>p. cell lv2 p = (if p \<in> set (lv_plats lv) \<and> p \<noteq> 0 then restarted fnp (ln_tag ln) (cell lv p) else cell lv p)))"
  using ceilings_restart [OF assms] plats_restart [OF assms] by blast

text \<open>One crusher that moves down, one platform that has been stopped.\<close>

definition crusher_level :: level where
  "crusher_level = three_rooms\<lparr>lv_ceilings := [0, 100], lv_plats := [200],
     lv_body := (\<lambda>_. No_Body)(100 := B_ceiling \<lparr>cl_type = 3, cl_sector = 0, cl_bottomheight = 8, cl_topheight = 128,
         cl_speed = 1, cl_crush = 1, cl_direction = - 1, cl_tag = 0, cl_olddirection = 1\<rparr>,
       200 := B_plat \<lparr>pl_sector = 1, pl_speed = 1, pl_low = 0, pl_high = 64, pl_wait = 105, pl_count = 0, pl_status = 3,
         pl_oldstatus = 1, pl_crush = 0, pl_tag = 0, pl_type = 0\<rparr>)\<rparr>"

theorem movers_stop_restart_witness:
  "\<exists>rtn lv1 lv2. EV_CeilingCrushStop (two_sided_line 0 1) crusher_level = Inr (rtn, lv1) \<and>
     P_ActivateInStasisCeiling demo_symbols (two_sided_line 0 1) lv1 = Inr lv2 \<and> snd (cell lv2 100) = 4128"
proof -
  have ok: "active_ok crusher_level"
    by (simp add: active_ok_def crusher_level_def cell_def is_ceiling_def is_plat_def)
  have c: "cell crusher_level 100 = (lv_body crusher_level 100, snd (cell crusher_level 100))" "100 \<in> set (lv_ceilings crusher_level)"
    by (simp_all add: cell_def crusher_level_def)
  have "snd (restarted demo_symbols (ln_tag (two_sided_line 0 1)) (cell crusher_level 100)) = 4128"
    by (subst c(1)) (simp add: crusher_level_def two_sided_line_def)
  then show ?thesis
    using movers_stop_restart [OF ok, of "two_sided_line 0 1" demo_symbols] c(2) by (metis zero_neq_numeral)
qed

end
