(* ===== verification/Saveg.thy ===== *)
theory Saveg
  imports Saveg_Structs Active
begin

text \<open>
  Saving and loading a game: the archive functions of \<^verbatim>\<open>p_saveg.c\<close> on the state of the game,
  which extends the stream with the variables of \<^verbatim>\<open>doomstat.h\<close> they save, and the proofs that
  what is loaded is what was saved.
\<close>

section \<open>The state of the game\<close>

datatype GameVersion_t =
    exe_doom_1_2 | exe_doom_1_666 | exe_doom_1_7 | exe_doom_1_8 | exe_doom_1_9 | exe_hacx | exe_ultimate
  | exe_final | exe_final2 | exe_chex | exe_heretic_1_3 | exe_hexen_1_1 | exe_strife_1_2 | exe_strife_1_31

record game = saveg +
  gm_version :: GameVersion_t
  gm_skill :: int
  gm_episode :: int
  gm_map :: int
  gm_playeringame :: "int list"
  gm_leveltime :: int
  gm_players :: "player_t list"
  gm_level :: level

definition exec :: "('s, 'a) state \<Rightarrow> 's \<Rightarrow> 's" where
  "exec m s = snd (run_state m s)"

definition SAVEGAME_EOF :: int where "SAVEGAME_EOF = 29"
definition VERSIONSIZE :: nat where "VERSIONSIZE = 16"
definition SAVESTRINGSIZE :: nat where "SAVESTRINGSIZE = 24"

section \<open>Header and end\<close>

fun G_VanillaVersionCode :: "GameVersion_t \<Rightarrow> nat result" where
  "G_VanillaVersionCode exe_doom_1_2 = Inl (I_Error ''Doom 1.2 does not have a version code!'')"
| "G_VanillaVersionCode exe_doom_1_666 = Inr 106"
| "G_VanillaVersionCode exe_doom_1_7 = Inr 107"
| "G_VanillaVersionCode exe_doom_1_8 = Inr 108"
| "G_VanillaVersionCode _ = Inr 109"

fun decimal :: "nat \<Rightarrow> int list" where
  "decimal n = (if n < 10 then [48 + int n] else decimal (n div 10) @ [48 + int (n mod 10)])"

declare decimal.simps [simp del]

text \<open>\<open>M_snprintf (name, sizeof(name), "version %i", code)\<close> into a buffer that was cleared.\<close>

definition version_name :: "nat \<Rightarrow> int list" where
  "version_name code =
     (let s = take (VERSIONSIZE - 1) (map of_char ''version '' @ decimal code)
      in s @ replicate (VERSIONSIZE - length s) 0)"

text \<open>\<open>strcmp\<close> compares up to the terminator.\<close>

definition c_string :: "int list \<Rightarrow> int list" where
  "c_string = takeWhile (\<lambda>c. c \<noteq> 0)"

definition write_description :: "int list \<Rightarrow> (game, unit) state" where
  "write_description description = do {
     for_each saveg_write8 description;
     for_each saveg_write8 (replicate (SAVESTRINGSIZE - length description) 0) }"

definition write_header_rest :: "nat \<Rightarrow> (game, unit) state" where
  "write_header_rest code = do {
     g \<leftarrow> State_Monad.get;
     for_each saveg_write8 (version_name code);
     saveg_write8 (gm_skill g);
     saveg_write8 (gm_episode g);
     saveg_write8 (gm_map g);
     for_each saveg_write8 (gm_playeringame g);
     saveg_write8 (drop_bit 16 (gm_leveltime g) AND 255);
     saveg_write8 (drop_bit 8 (gm_leveltime g) AND 255);
     saveg_write8 (gm_leveltime g AND 255) }"

definition P_WriteSaveGameHeader :: "int list \<Rightarrow> game \<Rightarrow> game result" where
  "P_WriteSaveGameHeader description g =
     (let g = exec (write_description description) g
      in bindE (G_VanillaVersionCode (gm_version g)) (\<lambda>code. Inr (exec (write_header_rest code) g)))"

definition read_header_rest :: "(game, unit) state" where
  "read_header_rest = do {
     skill \<leftarrow> saveg_read8;
     episode \<leftarrow> saveg_read8;
     map \<leftarrow> saveg_read8;
     ingame \<leftarrow> read_array MAXPLAYERS saveg_read8;
     a \<leftarrow> saveg_read8;
     b \<leftarrow> saveg_read8;
     c \<leftarrow> saveg_read8;
     State_Monad.update (\<lambda>g. g\<lparr>gm_skill := skill, gm_episode := episode, gm_map := map, gm_playeringame := ingame,
       gm_leveltime := push_bit 16 a + push_bit 8 b + c\<rparr>) }"

definition P_ReadSaveGameHeader :: "game \<Rightarrow> (bool \<times> game) result" where
  "P_ReadSaveGameHeader g =
     (let g = exec (read_array SAVESTRINGSIZE saveg_read8) g;
          (read_vcheck, g) = run_state (read_array VERSIONSIZE saveg_read8) g
      in bindE (G_VanillaVersionCode (gm_version g)) (\<lambda>code.
           if c_string read_vcheck \<noteq> c_string (version_name code) then Inr (False, g)
           else Inr (True, exec read_header_rest g)))"

definition P_ReadSaveGameEOF :: "(game, bool) state" where
  "P_ReadSaveGameEOF = do { value \<leftarrow> saveg_read8; State_Monad.return (value = SAVEGAME_EOF) }"

definition P_WriteSaveGameEOF :: "(game, unit) state" where
  "P_WriteSaveGameEOF = saveg_write8 SAVEGAME_EOF"

section \<open>Players\<close>

definition P_ArchivePlayers :: "(game, unit) state" where
  "P_ArchivePlayers = do {
     g \<leftarrow> State_Monad.get;
     for_each (\<lambda>i. if gm_playeringame g ! i = 0 then State_Monad.return ()
                   else do { saveg_write_pad; saveg_write_player_t (gm_players g ! i) })
       [0..<MAXPLAYERS] }"

definition unarchive_player :: "nat \<Rightarrow> (game, unit) state" where
  "unarchive_player i = do {
     g \<leftarrow> State_Monad.get;
     if gm_playeringame g ! i = 0 then State_Monad.return ()
     else do {
       saveg_read_pad;
       p \<leftarrow> saveg_read_player_t (sg_arch g) (gm_players g ! i);
       State_Monad.update (\<lambda>g. g\<lparr>gm_players := (gm_players g)
         [i := p\<lparr>pr_mo := 0, pr_message := 0, pr_attacker := 0\<rparr>]\<rparr>) } }"

definition P_UnArchivePlayers :: "(game, unit) state" where
  "P_UnArchivePlayers = for_each unarchive_player [0..<MAXPLAYERS]"

section \<open>Map objects\<close>

text \<open>
  The reader fills in the object at \<open>str\<close>, and makes the player it belongs to, if any, point to it:
  \<open>players[pl - 1]\<close> is not checked, and past the array the assignment is out of bounds.
\<close>

definition link_player :: "int \<Rightarrow> int \<Rightarrow> (game, int option result) state" where
  "link_player str pl = do {
     g \<leftarrow> State_Monad.get;
     if pl > 0 then
       if nat (pl - 1) < length (gm_players g) then do {
         State_Monad.update (\<lambda>g. g\<lparr>gm_players := (gm_players g)
           [nat (pl - 1) := (gm_players g ! nat (pl - 1))\<lparr>pr_mo := str\<rparr>]\<rparr>);
         State_Monad.return (Inr (Some (pl - 1))) }
       else State_Monad.return (Inl Bad_Access)
     else State_Monad.return (Inr None) }"

definition saveg_read_mobj_t :: "arch \<Rightarrow> int \<Rightarrow> (game, (thinker_t \<times> mobj_t) result) state" where
  "saveg_read_mobj_t arch str = do {
     th \<leftarrow> saveg_read_thinker_t arch;
     x \<leftarrow> saveg_read32;
     y \<leftarrow> saveg_read32;
     z \<leftarrow> saveg_read32;
     snext \<leftarrow> saveg_readp arch;
     sprev \<leftarrow> saveg_readp arch;
     angle \<leftarrow> saveg_read32;
     sprite \<leftarrow> saveg_read32;
     frame \<leftarrow> saveg_read32;
     bnext \<leftarrow> saveg_readp arch;
     bprev \<leftarrow> saveg_readp arch;
     subsector \<leftarrow> saveg_readp arch;
     floorz \<leftarrow> saveg_read32;
     ceilingz \<leftarrow> saveg_read32;
     radius \<leftarrow> saveg_read32;
     height \<leftarrow> saveg_read32;
     momx \<leftarrow> saveg_read32;
     momy \<leftarrow> saveg_read32;
     momz \<leftarrow> saveg_read32;
     validcount \<leftarrow> saveg_read32;
     type \<leftarrow> saveg_read32;
     info \<leftarrow> saveg_readp arch;
     tics \<leftarrow> saveg_read32;
     state \<leftarrow> saveg_read32;
     flags \<leftarrow> saveg_read32;
     health \<leftarrow> saveg_read32;
     movedir \<leftarrow> saveg_read32;
     movecount \<leftarrow> saveg_read32;
     target \<leftarrow> saveg_readp arch;
     reactiontime \<leftarrow> saveg_read32;
     threshold \<leftarrow> saveg_read32;
     pl \<leftarrow> saveg_read32;
     r \<leftarrow> link_player str pl;
     case r of Inl e \<Rightarrow> State_Monad.return (Inl e)
     | Inr player \<Rightarrow> do {
         lastlook \<leftarrow> saveg_read32;
         spawnpoint \<leftarrow> saveg_read_mapthing_t;
         tracer \<leftarrow> saveg_readp arch;
         State_Monad.return (Inr (th,
       \<lparr>mo_x = x, mo_y = y, mo_z = z, mo_snext = snext, mo_sprev = sprev, mo_angle = u32 angle,
       mo_sprite = sprite, mo_frame = frame, mo_bnext = bnext, mo_bprev = bprev, mo_subsector = subsector,
       mo_floorz = floorz, mo_ceilingz = ceilingz, mo_radius = radius, mo_height = height, mo_momx = momx,
       mo_momy = momy, mo_momz = momz, mo_validcount = validcount, mo_type = type, mo_info = info,
       mo_tics = tics, mo_state = state, mo_flags = flags, mo_health = health, mo_movedir = movedir,
       mo_movecount = movecount, mo_target = target, mo_reactiontime = reactiontime,
       mo_threshold = threshold, mo_player = player,
       mo_lastlook = lastlook, mo_spawnpoint = spawnpoint, mo_tracer = tracer\<rparr>)) } }"

section \<open>The map\<close>

text \<open>Heights and offsets are saved without their fraction.\<close>

definition write_sector :: "sector_t \<Rightarrow> (game, unit) state" where
  "write_sector sec = do {
     saveg_write16 (drop_bit 16 (sc_floorheight sec));
     saveg_write16 (drop_bit 16 (sc_ceilingheight sec));
     saveg_write16 (sc_floorpic sec);
     saveg_write16 (sc_ceilingpic sec);
     saveg_write16 (sc_lightlevel sec);
     saveg_write16 (sc_special sec);
     saveg_write16 (sc_tag sec) }"

definition write_side :: "side_t list \<Rightarrow> int \<Rightarrow> (game, unit) state" where
  "write_side sides num =
     (if num = - 1 then State_Monad.return ()
      else let si = sides ! nat num in do {
        saveg_write16 (drop_bit 16 (sd_textureoffset si));
        saveg_write16 (drop_bit 16 (sd_rowoffset si));
        saveg_write16 (sd_toptexture si);
        saveg_write16 (sd_bottomtexture si);
        saveg_write16 (sd_midtexture si) })"

definition write_line :: "side_t list \<Rightarrow> line_t \<Rightarrow> (game, unit) state" where
  "write_line sides li = do {
     saveg_write16 (ln_flags li);
     saveg_write16 (ln_special li);
     saveg_write16 (ln_tag li);
     write_side sides (fst (ln_sidenum li));
     write_side sides (snd (ln_sidenum li)) }"

text \<open>A side number that is neither -1 nor an index of \<open>sides\<close> leads outside the array.\<close>

definition sidenums_ok :: "level \<Rightarrow> bool" where
  "sidenums_ok lv \<longleftrightarrow>
     (\<forall>li\<in>set (lv_lines lv). \<forall>n\<in>{fst (ln_sidenum li), snd (ln_sidenum li)}.
        n = - 1 \<or> 0 \<le> n \<and> n < int (length (lv_sides lv)))"

definition P_ArchiveWorld :: "game \<Rightarrow> game result" where
  "P_ArchiveWorld g =
     (let lv = gm_level g
      in if sidenums_ok lv
         then Inr (exec (do { for_each write_sector (lv_sectors lv); for_each (write_line (lv_sides lv)) (lv_lines lv) }) g)
         else Inl Bad_Access)"

definition read_sector :: "sector_t \<Rightarrow> (game, sector_t) state" where
  "read_sector sec = do {
     floorheight \<leftarrow> saveg_read16;
     ceilingheight \<leftarrow> saveg_read16;
     floorpic \<leftarrow> saveg_read16;
     ceilingpic \<leftarrow> saveg_read16;
     lightlevel \<leftarrow> saveg_read16;
     special \<leftarrow> saveg_read16;
     tag \<leftarrow> saveg_read16;
     State_Monad.return (sec\<lparr>sc_floorheight := i32 (push_bit 16 floorheight),
       sc_ceilingheight := i32 (push_bit 16 ceilingheight), sc_floorpic := floorpic, sc_ceilingpic := ceilingpic,
       sc_lightlevel := lightlevel, sc_special := special, sc_tag := tag, sc_specialdata := 0, sc_soundtarget := 0\<rparr>) }"

definition read_side :: "int \<Rightarrow> side_t list \<Rightarrow> (game, side_t list) state" where
  "read_side num sides =
     (if num = - 1 then State_Monad.return sides
      else do {
        textureoffset \<leftarrow> saveg_read16;
        rowoffset \<leftarrow> saveg_read16;
        toptexture \<leftarrow> saveg_read16;
        bottomtexture \<leftarrow> saveg_read16;
        midtexture \<leftarrow> saveg_read16;
        State_Monad.return (sides[nat num := (sides ! nat num)\<lparr>sd_textureoffset := i32 (push_bit 16 textureoffset),
          sd_rowoffset := i32 (push_bit 16 rowoffset), sd_toptexture := toptexture,
          sd_bottomtexture := bottomtexture, sd_midtexture := midtexture\<rparr>]) })"

definition read_line :: "line_t \<Rightarrow> side_t list \<Rightarrow> (game, line_t \<times> side_t list) state" where
  "read_line li sides = do {
     flags \<leftarrow> saveg_read16;
     special \<leftarrow> saveg_read16;
     tag \<leftarrow> saveg_read16;
     sides \<leftarrow> read_side (fst (ln_sidenum li)) sides;
     sides \<leftarrow> read_side (snd (ln_sidenum li)) sides;
     State_Monad.return (li\<lparr>ln_flags := flags, ln_special := special, ln_tag := tag\<rparr>, sides) }"

primrec read_sectors :: "sector_t list \<Rightarrow> (game, sector_t list) state" where
  "read_sectors [] = State_Monad.return []"
| "read_sectors (sec # secs) = do {
     sec \<leftarrow> read_sector sec;
     secs \<leftarrow> read_sectors secs;
     State_Monad.return (sec # secs) }"

primrec read_lines :: "line_t list \<Rightarrow> side_t list \<Rightarrow> (game, line_t list \<times> side_t list) state" where
  "read_lines [] sides = State_Monad.return ([], sides)"
| "read_lines (li # lis) sides = do {
     (li, sides) \<leftarrow> read_line li sides;
     (lis, sides) \<leftarrow> read_lines lis sides;
     State_Monad.return (li # lis, sides) }"

definition P_UnArchiveWorld :: "game \<Rightarrow> game result" where
  "P_UnArchiveWorld g =
     (let lv = gm_level g
      in if sidenums_ok lv
         then Inr (exec (do {
           secs \<leftarrow> read_sectors (lv_sectors lv);
           (lis, sides) \<leftarrow> read_lines (lv_lines lv) (lv_sides lv);
           State_Monad.update (\<lambda>g. g\<lparr>gm_level := (gm_level g)\<lparr>lv_sectors := secs, lv_lines := lis, lv_sides := sides\<rparr>\<rparr>) }) g)
         else Inl Bad_Access)"

section \<open>What the sections of the file hold\<close>

lemma run_get [simp]: "run_state (State_Monad.get \<bind> k) s = run_state (k s) s"
  by simp

lemma exec_emits:
  "emits (f_pos (sg_file s)) m bs \<Longrightarrow> at_end (sg_file s) (length bs) \<Longrightarrow>
     exec m s = s\<lparr>sg_file := put_bytes bs (sg_file s)\<rparr>"
  by (simp add: exec_def emitsD)

lemma run_takes:
  "takes (f_pos (sg_file s)) m bs v \<Longrightarrow> unread (sg_file s) (bs @ cs) \<Longrightarrow>
     run_state m s = (v, s\<lparr>sg_file := skip_bytes (length bs) (sg_file s)\<rparr>)"
  by (simp add: takesD)

lemma emits_bytes: "emits p (for_each saveg_write8 bs) (map u8 bs)"
proof -
  have "emits p (for_each saveg_write8 bs) (concat (map (\<lambda>x. [u8 x]) bs))" by (rule emits_array) (rule emits8)
  moreover have "concat (map (\<lambda>x. [u8 x]) bs) = map u8 bs" by (induction bs) simp_all
  ultimately show ?thesis by simp
qed

lemma takes_bytes: "takes p (read_array (length bs) saveg_read8) bs bs"
proof -
  have "takes p (read_array (length bs) saveg_read8) (concat (map (\<lambda>x. [x]) bs)) (map (\<lambda>x. x) bs)"
    by (rule takes_array) (simp_all add: takes8)
  moreover have "concat (map (\<lambda>x. [x]) bs) = bs" by (induction bs) simp_all
  ultimately show ?thesis by simp
qed

definition byte_list :: "int list \<Rightarrow> bool" where
  "byte_list bs \<longleftrightarrow> (\<forall>b\<in>set bs. 0 \<le> b \<and> b < 256)"

lemma map_u8 [simp]: "byte_list bs \<Longrightarrow> map u8 bs = bs"
  by (induction bs) (simp_all add: byte_list_def u8_id)

subsection \<open>Header\<close>

definition header_ok :: "game \<Rightarrow> bool" where
  "header_ok g \<longleftrightarrow> byte_list [gm_skill g, gm_episode g, gm_map g] \<and> byte_list (gm_playeringame g) \<and>
     length (gm_playeringame g) = MAXPLAYERS \<and> 0 \<le> gm_leveltime g \<and> gm_leveltime g < 2 ^ 24"

definition header_bytes :: "int list \<Rightarrow> nat \<Rightarrow> game \<Rightarrow> int list" where
  "header_bytes description code g = concat [description, replicate (SAVESTRINGSIZE - length description) 0,
     version_name code, [gm_skill g, gm_episode g, gm_map g], gm_playeringame g,
     [drop_bit 16 (gm_leveltime g), drop_bit 8 (gm_leveltime g) AND 255, gm_leveltime g AND 255]]"

lemma decimal_bytes: "byte_list (decimal n)"
proof (induction n rule: decimal.induct)
  case (1 n)
  then show ?case by (cases "n < 10") (simp_all add: byte_list_def decimal.simps [of n])
qed

lemma version_name_bytes: "byte_list (version_name code)" "length (version_name code) = VERSIONSIZE"
proof -
  let ?v = "map of_char ''version '' :: int list"
  have "byte_list ?v" by (simp add: byte_list_def of_char_def)
  then have "byte_list (take (VERSIONSIZE - 1) (?v @ decimal code))"
    using decimal_bytes [of code] by (auto simp: byte_list_def dest!: in_set_takeD)
  then show "byte_list (version_name code)" by (auto simp: version_name_def Let_def byte_list_def)
  show "length (version_name code) = VERSIONSIZE" by (simp add: version_name_def Let_def VERSIONSIZE_def)
qed

lemma header_write:
  assumes ok: "header_ok g" "byte_list d" and v: "G_VanillaVersionCode (gm_version g) = Inr code"
    and s: "at_end (sg_file g) (length (header_bytes d code g))"
  shows "P_WriteSaveGameHeader d g = Inr (g\<lparr>sg_file := put_bytes (header_bytes d code g) (sg_file g)\<rparr>)"
proof -
  let ?d = "concat [d, replicate (SAVESTRINGSIZE - length d) 0]"
  let ?r = "concat [version_name code, [gm_skill g, gm_episode g, gm_map g], gm_playeringame g,
     [drop_bit 16 (gm_leveltime g), drop_bit 8 (gm_leveltime g) AND 255, gm_leveltime g AND 255]]"
  have hb: "header_bytes d code g = ?d @ ?r" by (simp add: header_bytes_def)
  have "emits p (write_description d) (concat [map u8 d, map u8 (replicate (SAVESTRINGSIZE - length d) 0)])" for p
    unfolding write_description_def by (rule emits_bind emits_bytes emits_last)+
  then have e1: "emits p (write_description d) ?d" for p using ok(2) by (simp add: u8_def)
  let ?g = "g\<lparr>sg_file := put_bytes ?d (sg_file g)\<rparr>"
  have "at_end (sg_file g) (length ?d)" by (rule at_end_mono [OF s]) (simp add: hb)
  from exec_emits [OF e1 this] have g1: "exec (write_description d) g = ?g" .
  have "0 \<le> gm_leveltime g div 65536" "gm_leveltime g div 65536 < 256"
    using ok(1) zdiv_mono1 [of "gm_leveltime g" 16777215 65536]
    by (simp_all add: header_ok_def pos_imp_zdiv_nonneg_iff)
  then have lt: "drop_bit 16 (gm_leveltime g) AND 255 = drop_bit 16 (gm_leveltime g)"
      "u8 (drop_bit 16 (gm_leveltime g)) = drop_bit 16 (gm_leveltime g)"
    by (simp_all add: and_255_take_bit take_bit_int_eq_self drop_bit_eq_div u8_id)
  have u: "u8 (x AND 255) = x AND 255" for x by (simp add: u8_def and_255_take_bit)
  have b: "u8 (gm_skill g) = gm_skill g" "u8 (gm_episode g) = gm_episode g" "u8 (gm_map g) = gm_map g"
    "map u8 (gm_playeringame g) = gm_playeringame g" "map u8 (version_name code) = version_name code"
    using ok(1) version_name_bytes(1) by (simp_all add: header_ok_def byte_list_def u8_id)
  define k where "k = do {
     for_each saveg_write8 (version_name code);
     saveg_write8 (gm_skill g);
     saveg_write8 (gm_episode g);
     saveg_write8 (gm_map g);
     for_each saveg_write8 (gm_playeringame g);
     saveg_write8 (drop_bit 16 (gm_leveltime g) AND 255);
     saveg_write8 (drop_bit 8 (gm_leveltime g) AND 255);
     (saveg_write8 (gm_leveltime g AND 255) :: (game, unit) state) }"
  have "emits p k (concat [map u8 (version_name code), [u8 (gm_skill g)], [u8 (gm_episode g)], [u8 (gm_map g)],
      map u8 (gm_playeringame g), [u8 (drop_bit 16 (gm_leveltime g) AND 255)],
      [u8 (drop_bit 8 (gm_leveltime g) AND 255)], [u8 (gm_leveltime g AND 255)]])" for p
    unfolding k_def by (rule emits_bind emits_bytes emits8 emits_last)+
  then have e2: "emits p k ?r" for p using b by (simp add: lt u del: u8_and)
  have "at_end (put_bytes ?d (sg_file g)) (length ?r)" by (rule at_end_put) (use s in \<open>simp only: hb length_append\<close>)
  then have "at_end (sg_file ?g) (length ?r)" by simp
  moreover have "run_state (write_header_rest code) ?g = run_state k ?g" by (simp add: write_header_rest_def k_def)
  ultimately have "exec (write_header_rest code) ?g = ?g\<lparr>sg_file := put_bytes ?r (sg_file ?g)\<rparr>"
    using exec_emits [OF e2, of ?g] by (simp add: exec_def)
  then show ?thesis using g1 v by (simp add: P_WriteSaveGameHeader_def Let_def hb)
qed

lemma leveltime_join: "0 \<le> t \<Longrightarrow> push_bit 16 (drop_bit 16 t) + push_bit 8 (drop_bit 8 t AND 255) + (t AND 255) = (t::int)"
proof -
  have "t AND 255 = t mod 256" "drop_bit 8 t AND 255 = t div 256 mod 256"
    by (simp_all add: and_255_take_bit take_bit_eq_mod drop_bit_eq_div)
  moreover have "t div 65536 = t div 256 div 256" by (simp add: zdiv_zmult2_eq [symmetric])
  moreover have "256 * (t div 256) + t mod 256 = t" "256 * (t div 256 div 256) + t div 256 mod 256 = t div 256"
    by (rule mult_div_mod_eq)+
  moreover have "push_bit 16 (drop_bit 16 t) = 65536 * (t div 65536)" "push_bit 8 (drop_bit 8 t AND 255) = 256 * (drop_bit 8 t AND 255)"
    by (simp_all add: push_bit_eq_mult drop_bit_eq_div)
  ultimately show ?thesis by linarith
qed

lemma header_read:
  assumes ok: "header_ok g" "byte_list d" "length d \<le> SAVESTRINGSIZE"
    and v: "G_VanillaVersionCode (gm_version h) = Inr code" and h: "unread (sg_file h) (header_bytes d code g @ cs)"
  shows "P_ReadSaveGameHeader h = Inr (True, h\<lparr>sg_file := skip_bytes 50 (sg_file h), gm_skill := gm_skill g,
     gm_episode := gm_episode g, gm_map := gm_map g, gm_playeringame := gm_playeringame g, gm_leveltime := gm_leveltime g\<rparr>)"
proof -
  let ?d = "concat [d, replicate (SAVESTRINGSIZE - length d) 0]"
  let ?r = "concat [[gm_skill g], [gm_episode g], [gm_map g], gm_playeringame g,
     [drop_bit 16 (gm_leveltime g)], [drop_bit 8 (gm_leveltime g) AND 255], [gm_leveltime g AND 255]]"
  have n: "length ?d = SAVESTRINGSIZE" "length ?r = 10" "length (version_name code) = VERSIONSIZE"
    using ok version_name_bytes(2) by (simp_all add: header_ok_def MAXPLAYERS_def)
  have a1: "unread (sg_file h) (?d @ (version_name code @ ?r @ cs))" using h by (simp add: header_bytes_def)
  let ?h1 = "h\<lparr>sg_file := skip_bytes SAVESTRINGSIZE (sg_file h)\<rparr>"
  have h1: "exec (read_array SAVESTRINGSIZE saveg_read8) h = ?h1"
    using run_takes [OF takes_bytes a1] unfolding n(1) by (simp add: exec_def)
  have a2: "unread (sg_file ?h1) (version_name code @ (?r @ cs))" using unread_skip [OF a1] n(1) by simp
  let ?h2 = "h\<lparr>sg_file := skip_bytes (SAVESTRINGSIZE + VERSIONSIZE) (sg_file h)\<rparr>"
  have h2: "run_state (read_array VERSIONSIZE saveg_read8) ?h1 = (version_name code, ?h2)"
    using run_takes [OF takes_bytes a2] unfolding n(3) by simp
  have a3: "unread (sg_file ?h2) (?r @ cs)" using unread_skip [OF a2] n(3) by simp
  define k where "k = do {
     skill \<leftarrow> saveg_read8;
     episode \<leftarrow> saveg_read8;
     map \<leftarrow> saveg_read8;
     ingame \<leftarrow> read_array MAXPLAYERS saveg_read8;
     a \<leftarrow> saveg_read8;
     b \<leftarrow> saveg_read8;
     c \<leftarrow> saveg_read8;
     (State_Monad.return (skill, episode, map, ingame, a, b, c) :: (game, _) state) }"
  have ing: "takes p (read_array MAXPLAYERS saveg_read8) (gm_playeringame g) (gm_playeringame g)" for p
    using takes_bytes [of p "gm_playeringame g"] ok(1) by (simp add: header_ok_def)
  have "takes p k ?r (gm_skill g, gm_episode g, gm_map g, gm_playeringame g, drop_bit 16 (gm_leveltime g),
      drop_bit 8 (gm_leveltime g) AND 255, gm_leveltime g AND 255)" for p
    unfolding k_def by ((rule takes_bind, (rule takes8 | rule ing))+, rule takes_return, simp)
  from run_takes [OF this a3] have k: "run_state k ?h2 = ((gm_skill g, gm_episode g, gm_map g, gm_playeringame g, drop_bit 16 (gm_leveltime g),
      drop_bit 8 (gm_leveltime g) AND 255, gm_leveltime g AND 255), h\<lparr>sg_file := skip_bytes 50 (sg_file h)\<rparr>)"
    unfolding n(2) by (simp add: SAVESTRINGSIZE_def VERSIONSIZE_def)
  have lt: "push_bit 16 (drop_bit 16 (gm_leveltime g)) + push_bit 8 (drop_bit 8 (gm_leveltime g) AND 255) +
      (gm_leveltime g AND 255) = gm_leveltime g" by (rule leveltime_join) (use ok(1) in \<open>simp add: header_ok_def\<close>)
  have rest: "read_header_rest = k \<bind> (\<lambda>(skill, episode, map, ingame, a, b, c).
      State_Monad.update (\<lambda>g. g\<lparr>gm_skill := skill, gm_episode := episode, gm_map := map, gm_playeringame := ingame,
       gm_leveltime := push_bit 16 a + push_bit 8 b + c\<rparr>))"
    unfolding read_header_rest_def k_def by (rule state_ext) (simp add: case_prod_unfold)
  have "exec read_header_rest ?h2 = h\<lparr>sg_file := skip_bytes 50 (sg_file h), gm_skill := gm_skill g,
     gm_episode := gm_episode g, gm_map := gm_map g, gm_playeringame := gm_playeringame g, gm_leveltime := gm_leveltime g\<rparr>"
    unfolding rest exec_def run_state_bind k prod.case lt by (simp add: State_Monad.update_def)
  then show ?thesis using h1 h2 v by (simp add: P_ReadSaveGameHeader_def Let_def)
qed

subsection \<open>Players\<close>

primrec players_bytes :: "nat \<Rightarrow> game \<Rightarrow> nat list \<Rightarrow> int list" where
  "players_bytes p g [] = []"
| "players_bytes p g (i # is) =
     (if gm_playeringame g ! i = 0 then players_bytes p g is
      else let b = replicate (padding p) 0 @ player_bytes (gm_players g ! i)
           in b @ players_bytes (p + length b) g is)"

definition players_ok :: "game \<Rightarrow> bool" where
  "players_ok g \<longleftrightarrow> length (gm_players g) = MAXPLAYERS \<and>
     (\<forall>i<MAXPLAYERS. gm_playeringame g ! i \<noteq> 0 \<longrightarrow> player_ok (gm_players g ! i))"

text \<open>What becomes of a saved player; \<open>old\<close> is the player before loading.\<close>

definition loaded_player :: "player_t \<Rightarrow> player_t \<Rightarrow> player_t" where
  "loaded_player old str = str\<lparr>pr_cmd := saved_ticcmd (pr_cmd old) (pr_cmd str), pr_mo := 0, pr_message := 0, pr_attacker := 0\<rparr>"

definition load_player :: "game \<Rightarrow> nat \<Rightarrow> player_t list \<Rightarrow> player_t list" where
  "load_player g i ps = (if gm_playeringame g ! i = 0 then ps else ps[i := loaded_player (ps ! i) (gm_players g ! i)])"

lemma emits_pad_player:
  assumes "player_ok x"
  shows "emits p (do { saveg_write_pad; saveg_write_player_t x }) (replicate (padding p) 0 @ player_bytes x)"
proof -
  have "emits p (do { saveg_write_pad; saveg_write_player_t x }) (concat (replicate (padding p) 0 # [player_bytes x]))"
    by (rule emits_bind [OF emits_pad]) (simp add: c_player.wr [OF assms])
  then show ?thesis by simp
qed

lemma emits_players:
  assumes "\<forall>i\<in>set is. gm_playeringame g ! i \<noteq> 0 \<longrightarrow> player_ok (gm_players g ! i)"
  shows "emits p (for_each (\<lambda>i. if gm_playeringame g ! i = 0 then State_Monad.return ()
       else do { saveg_write_pad; saveg_write_player_t (gm_players g ! i) }) is :: (game, unit) state) (players_bytes p g is)"
  using assms
proof (induction "is" arbitrary: p)
  case Nil
  then show ?case using emits_return by simp
next
  case (Cons i "is")
  let ?f = "\<lambda>i. (if gm_playeringame g ! i = 0 then State_Monad.return ()
       else do { saveg_write_pad; saveg_write_player_t (gm_players g ! i) }) :: (game, unit) state"
  have IH: "emits q (for_each ?f is) (concat [players_bytes q g is])" for q using Cons by simp
  show ?case
  proof (cases "gm_playeringame g ! i = 0")
    case True
    have "emits p (State_Monad.return () \<bind> (\<lambda>_. for_each ?f is)) (concat ([] # [players_bytes p g is]))"
      by (rule emits_bind) (use emits_return IH in simp_all)
    then show ?thesis using True by simp
  next
    case False
    let ?b = "replicate (padding p) 0 @ player_bytes (gm_players g ! i)"
    have "emits p (do { saveg_write_pad; saveg_write_player_t (gm_players g ! i) } \<bind> (\<lambda>_. for_each ?f is))
        (concat (?b # [players_bytes (p + length ?b) g is]))"
      by (rule emits_bind [OF emits_pad_player IH]) (use Cons.prems False in simp)
    then show ?thesis using False by (simp add: Let_def)
  qed
qed

lemma players_write:
  assumes "players_ok g" "at_end (sg_file g) (length (players_bytes (f_pos (sg_file g)) g [0..<MAXPLAYERS]))"
  shows "exec P_ArchivePlayers g =
    g\<lparr>sg_file := put_bytes (players_bytes (f_pos (sg_file g)) g [0..<MAXPLAYERS]) (sg_file g)\<rparr>"
proof -
  have "\<forall>i\<in>set [0..<MAXPLAYERS]. gm_playeringame g ! i \<noteq> 0 \<longrightarrow> player_ok (gm_players g ! i)"
    using assms(1) by (simp add: players_ok_def)
  from exec_emits [OF emits_players [OF this] assms(2)] show ?thesis
    by (simp add: P_ArchivePlayers_def exec_def)
qed

lemma unarchive_player_run:
  assumes u: "unread (sg_file h) (replicate (padding (f_pos (sg_file h))) 0 @ player_bytes x @ cs)"
    and x: "player_ok x" "gm_playeringame h ! i \<noteq> 0"
  shows "run_state (unarchive_player i) h = ((), h\<lparr>sg_file := skip_bytes (padding (f_pos (sg_file h)) + 280) (sg_file h),
     gm_players := (gm_players h)[i := loaded_player (gm_players h ! i) x]\<rparr>)"
proof -
  let ?n = "padding (f_pos (sg_file h))" and ?old = "gm_players h ! i"
  let ?h1 = "h\<lparr>sg_file := skip_bytes ?n (sg_file h)\<rparr>"
  have r1: "run_state saveg_read_pad h = ((), ?h1)" using run_takes [OF takes_pad u] by simp
  have u1: "unread (sg_file ?h1) (player_bytes x @ cs)" using unread_skip [OF u] by simp
  have r2: "run_state (saveg_read_player_t (sg_arch h) ?old) ?h1 =
      (saved_player (sg_arch h) ?old x, h\<lparr>sg_file := skip_bytes (?n + 280) (sg_file h)\<rparr>)"
    using run_takes [OF c_player.rd [OF x(1)] u1] c_player.width [OF x(1)] by simp
  show ?thesis
    using x(2) r1 r2
    by (simp add: unarchive_player_def State_Monad.update_def saved_player_def loaded_player_def)
qed

lemma players_read:
  assumes "unread (sg_file h) (players_bytes p g is @ cs)" "f_pos (sg_file h) mod 4 = p mod 4"
    "gm_playeringame h = gm_playeringame g" "\<forall>i\<in>set is. gm_playeringame g ! i \<noteq> 0 \<longrightarrow> player_ok (gm_players g ! i)"
  shows "run_state (for_each unarchive_player is) h =
    ((), h\<lparr>sg_file := skip_bytes (length (players_bytes p g is)) (sg_file h), gm_players := fold (load_player g) is (gm_players h)\<rparr>)"
  using assms
proof (induction "is" arbitrary: p h)
  case (Cons i "is")
  show ?case
  proof (cases "gm_playeringame g ! i = 0")
    case True
    have "run_state (unarchive_player i) h = ((), h)" using True Cons.prems(3) by (simp add: unarchive_player_def)
    moreover have "run_state (for_each unarchive_player is) h =
      ((), h\<lparr>sg_file := skip_bytes (length (players_bytes p g is)) (sg_file h), gm_players := fold (load_player g) is (gm_players h)\<rparr>)"
      by (rule Cons.IH) (use Cons.prems True in simp_all)
    ultimately show ?thesis using True by (simp add: load_player_def [of g i])
  next
    case False
    let ?x = "gm_players g ! i" and ?n = "padding (f_pos (sg_file h))"
    have n: "?n = padding p" using Cons.prems(2) by (rule padding_cong)
    have x: "player_ok ?x" using Cons.prems(4) False by simp
    let ?b = "replicate (padding p) 0 @ player_bytes ?x"
    have u: "unread (sg_file h) (?b @ (players_bytes (p + length ?b) g is @ cs))"
      using Cons.prems(1) False by (simp add: Let_def)
    let ?h = "h\<lparr>sg_file := skip_bytes (?n + 280) (sg_file h), gm_players := load_player g i (gm_players h)\<rparr>"
    have r: "run_state (unarchive_player i) h = ((), ?h)"
      using unarchive_player_run [of h ?x, OF _ x] u n False Cons.prems(3) by (simp add: load_player_def [of g i])
    have l: "length ?b = ?n + 280" using c_player.width [OF x] n by simp
    have "run_state (for_each unarchive_player is) ?h =
      ((), ?h\<lparr>sg_file := skip_bytes (length (players_bytes (p + length ?b) g is)) (sg_file ?h),
          gm_players := fold (load_player g) is (gm_players ?h)\<rparr>)"
    proof (rule Cons.IH)
      show "unread (sg_file ?h) (players_bytes (p + length ?b) g is @ cs)" using unread_skip [OF u] l by simp
      have "(f_pos (sg_file h) + (?n + 280)) mod 4 = (p + (?n + 280)) mod 4" using Cons.prems(2) by (rule mod_add_cong) simp
      then show "f_pos (sg_file ?h) mod 4 = (p + length ?b) mod 4" unfolding l by simp
      show "gm_playeringame ?h = gm_playeringame g" using Cons.prems(3) by simp
      show "\<forall>i\<in>set is. gm_playeringame g ! i \<noteq> 0 \<longrightarrow> player_ok (gm_players g ! i)" using Cons.prems(4) by simp
    qed
    moreover have "players_bytes p g (i # is) = ?b @ players_bytes (p + length ?b) g is" using False by (simp add: Let_def)
    ultimately show ?thesis unfolding for_each.simps using r n c_player.width [OF x] by (simp add: add.assoc)
  qed
qed simp

lemma fold_load_player:
  assumes "distinct is" "\<forall>i\<in>set is. i < length ps"
  shows "length (fold (load_player g) is ps) = length ps \<and> (\<forall>i<length ps. fold (load_player g) is ps ! i =
    (if i \<in> set is \<and> gm_playeringame g ! i \<noteq> 0 then loaded_player (ps ! i) (gm_players g ! i) else ps ! i))"
  using assms
proof (induction "is" arbitrary: ps)
  case (Cons i "is")
  have "length (load_player g i ps) = length ps" by (simp add: load_player_def)
  with Cons.IH [of "load_player g i ps"] Cons.prems show ?case by (auto simp: load_player_def nth_list_update)
qed simp

subsection \<open>The map\<close>

definition sector_bytes :: "sector_t \<Rightarrow> int list" where
  "sector_bytes sec = concat [le16 (drop_bit 16 (sc_floorheight sec)), le16 (drop_bit 16 (sc_ceilingheight sec)),
     le16 (sc_floorpic sec), le16 (sc_ceilingpic sec), le16 (sc_lightlevel sec), le16 (sc_special sec), le16 (sc_tag sec)]"

definition side_bytes :: "side_t list \<Rightarrow> int \<Rightarrow> int list" where
  "side_bytes sides num = (if num = - 1 then [] else let si = sides ! nat num in
     concat [le16 (drop_bit 16 (sd_textureoffset si)), le16 (drop_bit 16 (sd_rowoffset si)), le16 (sd_toptexture si),
       le16 (sd_bottomtexture si), le16 (sd_midtexture si)])"

definition line_bytes :: "side_t list \<Rightarrow> line_t \<Rightarrow> int list" where
  "line_bytes sides li = concat [le16 (ln_flags li), le16 (ln_special li), le16 (ln_tag li),
     side_bytes sides (fst (ln_sidenum li)), side_bytes sides (snd (ln_sidenum li))]"

definition world_bytes :: "level \<Rightarrow> int list" where
  "world_bytes lv = concat [concat (map sector_bytes (lv_sectors lv)), concat (map (line_bytes (lv_sides lv)) (lv_lines lv))]"

text \<open>The map's numbers have their C types.\<close>

definition world_typed :: "level \<Rightarrow> bool" where
  "world_typed lv \<longleftrightarrow>
     (\<forall>sec\<in>set (lv_sectors lv). is_i32 (sc_floorheight sec) \<and> is_i32 (sc_ceilingheight sec) \<and> is_i16 (sc_floorpic sec) \<and>
        is_i16 (sc_ceilingpic sec) \<and> is_i16 (sc_lightlevel sec) \<and> is_i16 (sc_special sec) \<and> is_i16 (sc_tag sec)) \<and>
     (\<forall>li\<in>set (lv_lines lv). is_i16 (ln_flags li) \<and> is_i16 (ln_special li) \<and> is_i16 (ln_tag li)) \<and>
     (\<forall>si\<in>set (lv_sides lv). is_i32 (sd_textureoffset si) \<and> is_i32 (sd_rowoffset si) \<and> is_i16 (sd_toptexture si) \<and>
        is_i16 (sd_bottomtexture si) \<and> is_i16 (sd_midtexture si))"

text \<open>A fixed-point number without its fraction.\<close>

definition whole :: "int \<Rightarrow> int" where
  "whole x = push_bit 16 (drop_bit 16 x)"

definition loaded_sector :: "sector_t \<Rightarrow> sector_t \<Rightarrow> sector_t" where
  "loaded_sector old sec = old\<lparr>sc_floorheight := whole (sc_floorheight sec), sc_ceilingheight := whole (sc_ceilingheight sec),
     sc_floorpic := sc_floorpic sec, sc_ceilingpic := sc_ceilingpic sec, sc_lightlevel := sc_lightlevel sec,
     sc_special := sc_special sec, sc_tag := sc_tag sec, sc_specialdata := 0, sc_soundtarget := 0\<rparr>"

definition loaded_side :: "side_t \<Rightarrow> side_t \<Rightarrow> side_t" where
  "loaded_side old si = old\<lparr>sd_textureoffset := whole (sd_textureoffset si), sd_rowoffset := whole (sd_rowoffset si),
     sd_toptexture := sd_toptexture si, sd_bottomtexture := sd_bottomtexture si, sd_midtexture := sd_midtexture si\<rparr>"

definition loaded_line :: "line_t \<Rightarrow> line_t \<Rightarrow> line_t" where
  "loaded_line old li = old\<lparr>ln_flags := ln_flags li, ln_special := ln_special li, ln_tag := ln_tag li\<rparr>"

definition load_side :: "side_t list \<Rightarrow> int \<Rightarrow> side_t list \<Rightarrow> side_t list" where
  "load_side saved num sides =
     (if num = - 1 then sides else sides[nat num := loaded_side (sides ! nat num) (saved ! nat num)])"

lemma whole_bounds:
  assumes "is_i32 x"
  shows "is_i16 (drop_bit 16 x)" "i32 (whole x) = whole x"
proof -
  have b: "- 2147483648 \<le> x" "x \<le> 2147483647" using assms by (simp_all add: is_i32_iff)
  have d: "- 32768 \<le> x div 65536" "x div 65536 \<le> 32767"
    using zdiv_mono1 [of "- 2147483648" x 65536] zdiv_mono1 [of x 2147483647 65536] b by simp_all
  then show "is_i16 (drop_bit 16 x)" by (simp add: is_i16_def drop_bit_eq_div)
  have "whole x = x div 65536 * 65536" by (simp add: whole_def push_bit_eq_mult drop_bit_eq_div)
  then show "i32 (whole x) = whole x" using d by (intro i32_id) (simp add: is_i32_iff)
qed

lemma emits_sector: "emits p (write_sector sec) (sector_bytes sec)"
  unfolding write_sector_def sector_bytes_def by (rule emits_bind emits16 emits_last)+

lemma emits_side: "emits p (write_side sides num) (side_bytes sides num)"
proof (cases "num = - 1")
  case True
  then show ?thesis using emits_return [of p] by (simp add: write_side_def side_bytes_def)
next
  case False
  have "emits p (let si = sides ! nat num in do {
        saveg_write16 (drop_bit 16 (sd_textureoffset si));
        saveg_write16 (drop_bit 16 (sd_rowoffset si));
        saveg_write16 (sd_toptexture si);
        saveg_write16 (sd_bottomtexture si);
        (saveg_write16 (sd_midtexture si) :: (game, unit) state) }) (side_bytes sides num)"
    unfolding side_bytes_def Let_def if_not_P [OF False] by (rule emits_bind emits16 emits_last)+
  then show ?thesis using False by (simp add: write_side_def)
qed

lemma emits_line: "emits p (write_line sides li) (line_bytes sides li)"
  unfolding write_line_def line_bytes_def by (rule emits_bind emits16 emits_side emits_last)+

lemma world_write:
  assumes "sidenums_ok (gm_level g)" "at_end (sg_file g) (length (world_bytes (gm_level g)))"
  shows "P_ArchiveWorld g = Inr (g\<lparr>sg_file := put_bytes (world_bytes (gm_level g)) (sg_file g)\<rparr>)"
proof -
  let ?lv = "gm_level g"
  have "emits p (do { for_each write_sector (lv_sectors ?lv); for_each (write_line (lv_sides ?lv)) (lv_lines ?lv) }) (world_bytes ?lv)" for p
    unfolding world_bytes_def by (rule emits_bind emits_array emits_sector emits_line emits_last)+
  from exec_emits [OF this assms(2)] show ?thesis using assms(1) by (simp add: P_ArchiveWorld_def Let_def)
qed

lemma takes_sector:
  assumes "is_i32 (sc_floorheight sec) \<and> is_i32 (sc_ceilingheight sec) \<and> is_i16 (sc_floorpic sec) \<and>
        is_i16 (sc_ceilingpic sec) \<and> is_i16 (sc_lightlevel sec) \<and> is_i16 (sc_special sec) \<and> is_i16 (sc_tag sec)"
  shows "takes p (read_sector old) (sector_bytes sec) (loaded_sector old sec)"
proof -
  note w = whole_bounds [of "sc_floorheight sec"] whole_bounds [of "sc_ceilingheight sec"]
  show ?thesis
    unfolding read_sector_def sector_bytes_def
    by ((rule takes_bind, rule takes16, use assms w in blast)+, rule takes_return,
      use assms w in \<open>simp add: loaded_sector_def whole_def\<close>)
qed

lemma takes_sectors:
  assumes "length olds = length secs" "\<forall>sec\<in>set secs. is_i32 (sc_floorheight sec) \<and> is_i32 (sc_ceilingheight sec) \<and>
        is_i16 (sc_floorpic sec) \<and> is_i16 (sc_ceilingpic sec) \<and> is_i16 (sc_lightlevel sec) \<and> is_i16 (sc_special sec) \<and> is_i16 (sc_tag sec)"
  shows "takes p (read_sectors olds) (concat (map sector_bytes secs)) (map2 loaded_sector olds secs)"
  using assms
proof (induction olds secs arbitrary: p rule: list_induct2)
  case Nil
  then show ?case using takes_return [of "[]" "[]" p] by simp
next
  case (Cons old olds sec secs)
  let ?r = "map2 loaded_sector olds secs"
  have r: "takes q (read_sectors olds \<bind> (\<lambda>secs. State_Monad.return (loaded_sector old sec # secs)))
      (concat [concat (map sector_bytes secs)]) (loaded_sector old sec # ?r)" for q
    by (subst concat.simps, subst concat.simps, subst append_Nil2, rule takes_map) (use Cons in simp_all)
  have "takes p (read_sectors (old # olds)) (concat (sector_bytes sec # [concat (map sector_bytes secs)])) (loaded_sector old sec # ?r)"
    unfolding read_sectors.simps by (rule takes_bind, rule takes_sector) (use Cons.prems r in simp_all)
  then show ?case by simp
qed

definition sides_typed :: "side_t list \<Rightarrow> bool" where
  "sides_typed sides \<longleftrightarrow> (\<forall>si\<in>set sides. is_i32 (sd_textureoffset si) \<and> is_i32 (sd_rowoffset si) \<and> is_i16 (sd_toptexture si) \<and>
        is_i16 (sd_bottomtexture si) \<and> is_i16 (sd_midtexture si))"

lemma takes_side:
  assumes "sides_typed saved" "num = - 1 \<or> 0 \<le> num \<and> num < int (length saved)"
  shows "takes p (read_side num sides) (side_bytes saved num) (load_side saved num sides)"
proof (cases "num = - 1")
  case True
  then show ?thesis using takes_return [of sides sides p] by (simp add: read_side_def side_bytes_def load_side_def)
next
  case False
  define si where "si = saved ! nat num"
  have ok: "is_i32 (sd_textureoffset si) \<and> is_i32 (sd_rowoffset si) \<and> is_i16 (sd_toptexture si) \<and>
        is_i16 (sd_bottomtexture si) \<and> is_i16 (sd_midtexture si)"
    using assms False by (auto simp: sides_typed_def si_def)
  note w = whole_bounds [of "sd_textureoffset si"] whole_bounds [of "sd_rowoffset si"]
  show ?thesis
    unfolding read_side_def side_bytes_def load_side_def Let_def if_not_P [OF False] si_def [symmetric]
    by ((rule takes_bind, rule takes16, use ok w in blast)+, rule takes_return,
      use ok w in \<open>simp add: loaded_side_def whole_def\<close>)
qed

definition line_nums :: "line_t \<Rightarrow> int list" where
  "line_nums li = [fst (ln_sidenum li), snd (ln_sidenum li)]"

lemma takes_line:
  assumes "sides_typed saved" "\<forall>n\<in>set (line_nums li). n = - 1 \<or> 0 \<le> n \<and> n < int (length saved)"
    "is_i16 (ln_flags li) \<and> is_i16 (ln_special li) \<and> is_i16 (ln_tag li)" "ln_sidenum old = ln_sidenum li"
  shows "takes p (read_line old sides) (line_bytes saved li) (loaded_line old li, fold (load_side saved) (line_nums li) sides)"
  unfolding read_line_def line_bytes_def
  by (rule takes_bind, rule takes16, use assms(3) in blast, rule takes_bind, rule takes16, use assms(3) in blast,
      rule takes_bind, rule takes16, use assms(3) in blast,
      rule takes_bind, subst assms(4), rule takes_side [OF assms(1)], use assms(2) in \<open>simp add: line_nums_def\<close>,
      rule takes_bind, subst assms(4), rule takes_side [OF assms(1)], use assms(2) in \<open>simp add: line_nums_def\<close>,
      rule takes_return, simp add: loaded_line_def line_nums_def)

lemma takes_lines:
  assumes "length olds = length lis" "sides_typed saved"
    "\<forall>li\<in>set lis. (\<forall>n\<in>set (line_nums li). n = - 1 \<or> 0 \<le> n \<and> n < int (length saved)) \<and>
       is_i16 (ln_flags li) \<and> is_i16 (ln_special li) \<and> is_i16 (ln_tag li)" "map ln_sidenum olds = map ln_sidenum lis"
  shows "takes p (read_lines olds sides) (concat (map (line_bytes saved) lis))
    (map2 loaded_line olds lis, fold (load_side saved) (concat (map line_nums lis)) sides)"
  using assms
proof (induction olds lis arbitrary: p sides rule: list_induct2)
  case Nil
  then show ?case using takes_return [of "([], sides)" "([], sides)" p] by simp
next
  case (Cons old olds li lis)
  define s1 where "s1 = fold (load_side saved) (line_nums li) sides"
  let ?s = "fold (load_side saved) (concat (map line_nums lis)) s1" and ?r = "map2 loaded_line olds lis"
  have IH: "takes q (read_lines olds s1) (concat (map (line_bytes saved) lis)) (?r, ?s)" for q
    by (rule Cons.IH) (use Cons.prems in simp_all)
  have r: "takes q (read_lines olds s1 \<bind> (\<lambda>(lis, sides). State_Monad.return (loaded_line old li # lis, sides)))
      (concat [concat (map (line_bytes saved) lis)]) (loaded_line old li # ?r, ?s)" for q
    using takes_map [OF IH, of "\<lambda>(lis, sides). (loaded_line old li # lis, sides)" "(loaded_line old li # ?r, ?s)" q]
    by (simp add: case_prod_unfold)
  have l: "takes p (read_line old sides) (line_bytes saved li) (loaded_line old li, s1)"
    unfolding s1_def by (rule takes_line) (use Cons.prems in simp_all)
  have "takes p (read_lines (old # olds) sides) (concat (line_bytes saved li # [concat (map (line_bytes saved) lis)]))
      (loaded_line old li # ?r, ?s)"
    unfolding read_lines.simps by (rule takes_bind [OF l]) (use r in simp)
  then show ?case by (simp add: s1_def)
qed

lemma loaded_side_twice [simp]: "loaded_side (loaded_side old si) si = loaded_side old si"
  by (simp add: loaded_side_def)

lemma fold_load_side:
  assumes "\<forall>n\<in>set nums. n = - 1 \<or> 0 \<le> n \<and> n < int (length sides)"
  shows "length (fold (load_side saved) nums sides) = length sides \<and>
    (\<forall>k<length sides. fold (load_side saved) nums sides ! k =
      (if int k \<in> set nums then loaded_side (sides ! k) (saved ! k) else sides ! k))"
  using assms
proof (induction nums arbitrary: sides)
  case (Cons n nums)
  have "length (load_side saved n sides) = length sides" by (simp add: load_side_def)
  moreover have "load_side saved n sides ! k = (if int k = n then loaded_side (sides ! k) (saved ! k) else sides ! k)"
    if "k < length sides" for k
    using Cons.prems that by (auto simp: load_side_def nth_list_update)
  ultimately show ?case using Cons.IH [of "load_side saved n sides"] Cons.prems by auto
qed simp

text \<open>What loading the map of \<open>g\<close> makes of a level with the same lines.\<close>

definition loaded_world :: "level \<Rightarrow> level \<Rightarrow> level" where
  "loaded_world lv old = old\<lparr>lv_sectors := map2 loaded_sector (lv_sectors old) (lv_sectors lv),
     lv_lines := map2 loaded_line (lv_lines old) (lv_lines lv),
     lv_sides := fold (load_side (lv_sides lv)) (concat (map line_nums (lv_lines lv))) (lv_sides old)\<rparr>"

definition same_shape :: "level \<Rightarrow> level \<Rightarrow> bool" where
  "same_shape lv lv' \<longleftrightarrow> length (lv_sectors lv') = length (lv_sectors lv) \<and> length (lv_sides lv') = length (lv_sides lv) \<and>
     map ln_sidenum (lv_lines lv') = map ln_sidenum (lv_lines lv)"

lemma sidenums_shape: "same_shape lv lv' \<Longrightarrow> sidenums_ok lv' = sidenums_ok lv"
proof -
  assume s: "same_shape lv lv'"
  have "sidenums_ok l \<longleftrightarrow> (\<forall>sn\<in>set (map ln_sidenum (lv_lines l)). \<forall>n\<in>{fst sn, snd sn}. n = - 1 \<or> 0 \<le> n \<and> n < int (length (lv_sides l)))" for l
    by (simp add: sidenums_ok_def)
  then show ?thesis using s by (simp only: same_shape_def)
qed

lemma world_read:
  assumes ok: "world_typed lv" "sidenums_ok lv" "same_shape lv (gm_level h)"
    and u: "unread (sg_file h) (world_bytes lv @ cs)"
  shows "P_UnArchiveWorld h = Inr (h\<lparr>sg_file := skip_bytes (length (world_bytes lv)) (sg_file h),
    gm_level := loaded_world lv (gm_level h)\<rparr>)"
proof -
  let ?o = "gm_level h"
  let ?secs = "map2 loaded_sector (lv_sectors ?o) (lv_sectors lv)" and ?lis = "map2 loaded_line (lv_lines ?o) (lv_lines lv)"
  let ?sides = "fold (load_side (lv_sides lv)) (concat (map line_nums (lv_lines lv))) (lv_sides ?o)"
  let ?b1 = "concat (map sector_bytes (lv_sectors lv))" and ?b2 = "concat (map (line_bytes (lv_sides lv)) (lv_lines lv))"
  have u1: "unread (sg_file h) (?b1 @ (?b2 @ cs))" using u by (simp add: world_bytes_def)
  have ll: "length (lv_lines ?o) = length (lv_lines lv)" using ok(3) map_eq_imp_length_eq unfolding same_shape_def by blast
  have t1: "takes p (read_sectors (lv_sectors ?o)) ?b1 ?secs" for p
    by (rule takes_sectors) (use ok in \<open>simp_all add: same_shape_def world_typed_def\<close>)
  have t2: "takes p (read_lines (lv_lines ?o) (lv_sides ?o)) ?b2 (?lis, ?sides)" for p
    by (rule takes_lines [OF ll]) (use ok in \<open>auto simp: same_shape_def world_typed_def sides_typed_def sidenums_ok_def line_nums_def\<close>)
  let ?h1 = "h\<lparr>sg_file := skip_bytes (length ?b1) (sg_file h)\<rparr>"
  have r1: "run_state (read_sectors (lv_sectors ?o)) h = (?secs, ?h1)" by (rule run_takes [OF t1 u1])
  have u2: "unread (sg_file ?h1) (?b2 @ cs)" using unread_skip [OF u1] by simp
  have r2: "run_state (read_lines (lv_lines ?o) (lv_sides ?o)) ?h1 =
      ((?lis, ?sides), h\<lparr>sg_file := skip_bytes (length (world_bytes lv)) (sg_file h)\<rparr>)"
    using run_takes [OF t2 u2] by (simp add: world_bytes_def)
  show ?thesis
    using r1 r2 ok(2) sidenums_shape [OF ok(3)]
    by (simp add: P_UnArchiveWorld_def exec_def State_Monad.update_def loaded_world_def Let_def)
qed

text \<open>
  Reading a map object changes a player as well: \<open>reads_to\<close> says how the outcome relates to
  the state with the bytes skipped.
\<close>

definition reads_to :: "nat \<Rightarrow> (game, 'a) state \<Rightarrow> int list \<Rightarrow> (game \<Rightarrow> 'a \<times> game \<Rightarrow> bool) \<Rightarrow> bool" where
  "reads_to p m bs R \<longleftrightarrow> (\<forall>g cs. unread (sg_file g) (bs @ cs) \<longrightarrow> f_pos (sg_file g) mod 4 = p mod 4 \<longrightarrow>
     R (g\<lparr>sg_file := skip_bytes (length bs) (sg_file g)\<rparr>) (run_state m g))"

lemma reads_to_bind:
  assumes "takes p m b v" "reads_to (p + length b) (k v) (concat bs) R"
  shows "reads_to p (m \<bind> k) (concat (b # bs)) R"
  unfolding reads_to_def
proof (intro allI impI)
  fix g :: game and cs
  assume g: "unread (sg_file g) (concat (b # bs) @ cs)" "f_pos (sg_file g) mod 4 = p mod 4"
  let ?g = "g\<lparr>sg_file := skip_bytes (length b) (sg_file g)\<rparr>"
  have a: "unread (sg_file g) (b @ (concat bs @ cs))" using g(1) by simp
  then have "run_state m g = (v, ?g)" using takesD [OF assms(1)] g(2) by blast
  moreover have "unread (sg_file ?g) (concat bs @ cs)" using unread_skip [OF a] by simp
  moreover have "f_pos (sg_file ?g) mod 4 = (p + length b) mod 4" using g(2) by (simp, metis mod_add_left_eq)
  moreover have "unread (sg_file ?g) (concat bs @ cs) \<longrightarrow> f_pos (sg_file ?g) mod 4 = (p + length b) mod 4 \<longrightarrow>
      R (?g\<lparr>sg_file := skip_bytes (length (concat bs)) (sg_file ?g)\<rparr>) (run_state (k v) ?g)"
    using assms(2) unfolding reads_to_def by blast
  ultimately show "R (g\<lparr>sg_file := skip_bytes (length (concat (b # bs))) (sg_file g)\<rparr>) (run_state (m \<bind> k) g)"
    by simp
qed

definition linked :: "int \<Rightarrow> mobj_t \<Rightarrow> player_t list \<Rightarrow> player_t list" where
  "linked str m ps = (case mo_player m of None \<Rightarrow> ps | Some i \<Rightarrow> ps[nat i := (ps ! nat i)\<lparr>pr_mo := str\<rparr>])"

definition owner_in :: "mobj_t \<Rightarrow> player_t list \<Rightarrow> bool" where
  "owner_in m ps \<longleftrightarrow> (case mo_player m of None \<Rightarrow> True | Some i \<Rightarrow> nat i < length ps)"

definition mobj_read :: "int \<Rightarrow> mobj_t \<Rightarrow> 'a \<Rightarrow> game \<Rightarrow> 'a result \<times> game \<Rightarrow> bool" where
  "mobj_read str m v h r \<longleftrightarrow>
     (if owner_in m (gm_players h) then r = (Inr v, h\<lparr>gm_players := linked str m (gm_players h)\<rparr>)
      else fst r = Inl Bad_Access)"

lemma reads_to_link:
  assumes "takes p (k (mo_player m)) bs (Inr v)" "\<forall>i. mo_player m = Some i \<longrightarrow> 0 \<le> i"
  shows "reads_to p (link_player str (player_number m) \<bind>
    (\<lambda>r. case r of Inl e \<Rightarrow> State_Monad.return (Inl e) | Inr player \<Rightarrow> k player)) bs (mobj_read str m v)"
  unfolding reads_to_def
proof (intro allI impI)
  fix g :: game and cs
  assume g: "unread (sg_file g) (bs @ cs)" "f_pos (sg_file g) mod 4 = p mod 4"
  let ?g = "g\<lparr>gm_players := linked str m (gm_players g)\<rparr>"
  have "run_state (k (mo_player m)) ?g = (Inr v, ?g\<lparr>sg_file := skip_bytes (length bs) (sg_file ?g)\<rparr>)"
    by (rule takesD [OF assms(1)]) (use g in simp_all)
  then show "mobj_read str m v (g\<lparr>sg_file := skip_bytes (length bs) (sg_file g)\<rparr>)
      (run_state (link_player str (player_number m) \<bind>
        (\<lambda>r. case r of Inl e \<Rightarrow> State_Monad.return (Inl e) | Inr player \<Rightarrow> k player)) g)"
    using assms(2) by (cases "mo_player m")
      (simp_all add: link_player_def player_number_def mobj_read_def owner_in_def linked_def State_Monad.update_def State_Monad.set_def)
qed

lemma mobj_reads:
  assumes "mobj_ok (th, m)"
  shows "reads_to p (saveg_read_mobj_t arch str) (mobj_bytes (th, m))
    (mobj_read str m (saved_thinker arch th, saved_mobj arch m))"
proof -
  have a: "u32 (i32 (mo_angle m)) = mo_angle m" and i: "\<forall>i. mo_player m = Some i \<longrightarrow> 0 \<le> i"
    using assms by (simp_all add: mobj_ok_def u32_i32)
  show ?thesis
    using assms unfolding saveg_read_mobj_t_def mobj_bytes_def mobj_ok_def prod.case
    by - ((rule reads_to_bind, (rule takes_thinker | rule takesp | (rule takes32, simp only: simp_thms) | rule takes32_trunc))+,
      rule reads_to_link [OF _ i],
      (rule takes_bind, (rule takesp | (rule takes_mapthing takes32, simp only: simp_thms) | rule takes32_trunc))+,
      rule takes_return, simp add: saved_mobj_def a)
qed

section \<open>Round trips\<close>

lemma header_length:
  "header_ok g \<Longrightarrow> length d \<le> SAVESTRINGSIZE \<Longrightarrow> length (header_bytes d code g) = 50"
  using version_name_bytes(2) [of code]
  by (simp add: header_bytes_def header_ok_def MAXPLAYERS_def SAVESTRINGSIZE_def VERSIONSIZE_def)

text \<open>
  C22. The header of a saved game: with a description of at most 24 characters it is 50
  bytes long, and a game of the same version reads back the skill, the episode, the map, the
  players that are in the game and the time.
\<close>

theorem header_roundtrip:
  assumes "header_ok g" "byte_list d" "length d \<le> SAVESTRINGSIZE" "G_VanillaVersionCode (gm_version g) = Inr code"
    "at_end (sg_file g) 50"
  shows "\<exists>bs. length bs = 50 \<and> P_WriteSaveGameHeader d g = Inr (g\<lparr>sg_file := put_bytes bs (sg_file g)\<rparr>) \<and>
    (\<forall>h cs. gm_version h = gm_version g \<longrightarrow> unread (sg_file h) (bs @ cs) \<longrightarrow>
       P_ReadSaveGameHeader h = Inr (True, h\<lparr>sg_file := skip_bytes 50 (sg_file h), gm_skill := gm_skill g,
         gm_episode := gm_episode g, gm_map := gm_map g, gm_playeringame := gm_playeringame g, gm_leveltime := gm_leveltime g\<rparr>))"
  using header_length [OF assms(1,3)] header_write [OF assms(1,2,4)] header_read [OF assms(1-3)] assms(4,5)
  by (intro exI [of _ "header_bytes d code g"]) simp

text \<open>
  C23. The map in a saved game: in a level with the same sectors, lines and sides the load
  gives every sector, line and side the saved values. Heights and texture offsets lose
  their fraction; what a sector's mover and last noise were is forgotten. Sides that no line
  uses are left alone.
\<close>

theorem world_roundtrip:
  assumes "world_typed (gm_level g)" "sidenums_ok (gm_level g)" "at_end (sg_file g) (length (world_bytes (gm_level g)))"
    "same_shape (gm_level g) (gm_level h)"
    "unread (sg_file h) (world_bytes (gm_level g) @ cs)"
  shows "P_ArchiveWorld g = Inr (g\<lparr>sg_file := put_bytes (world_bytes (gm_level g)) (sg_file g)\<rparr>) \<and>
    (\<exists>lv. P_UnArchiveWorld h = Inr (h\<lparr>sg_file := skip_bytes (length (world_bytes (gm_level g))) (sg_file h), gm_level := lv\<rparr>) \<and>
      (\<forall>i<length (lv_sectors (gm_level g)). lv_sectors lv ! i = loaded_sector (lv_sectors (gm_level h) ! i) (lv_sectors (gm_level g) ! i)) \<and>
      (\<forall>i<length (lv_lines (gm_level g)). lv_lines lv ! i = loaded_line (lv_lines (gm_level h) ! i) (lv_lines (gm_level g) ! i)) \<and>
      (\<forall>k<length (lv_sides (gm_level g)). lv_sides lv ! k =
         (if \<exists>li\<in>set (lv_lines (gm_level g)). int k \<in> {fst (ln_sidenum li), snd (ln_sidenum li)}
          then loaded_side (lv_sides (gm_level h) ! k) (lv_sides (gm_level g) ! k) else lv_sides (gm_level h) ! k)))"
proof -
  let ?lv = "gm_level g" and ?o = "gm_level h"
  have ls: "length (lv_sectors ?o) = length (lv_sectors ?lv)" "length (lv_sides ?o) = length (lv_sides ?lv)"
    "length (lv_lines ?o) = length (lv_lines ?lv)"
    using assms(4) map_eq_imp_length_eq unfolding same_shape_def by blast+
  have "\<forall>n\<in>set (concat (map line_nums (lv_lines ?lv))). n = - 1 \<or> 0 \<le> n \<and> n < int (length (lv_sides ?o))"
    using assms(2) ls(2) by (auto simp: sidenums_ok_def line_nums_def)
  note f = fold_load_side [OF this, of "lv_sides ?lv"]
  have m: "int k \<in> set (concat (map line_nums lis)) \<longleftrightarrow> (\<exists>li\<in>set lis. int k \<in> {fst (ln_sidenum li), snd (ln_sidenum li)})" for k lis
    by (auto simp: line_nums_def)
  show ?thesis
    using world_write [OF assms(2,3)] world_read [OF assms(1,2,4,5)] f [unfolded m] ls
    by (intro conjI exI [of _ "loaded_world ?lv ?o"]) (simp_all add: loaded_world_def)
qed

text \<open>
  C24. The players in a saved game: the load restores every player that is in the game except
  for the pointers to objects, which it clears, and the command fields of other games; it
  leaves the others alone.
\<close>

theorem players_roundtrip:
  assumes "players_ok g" "at_end (sg_file g) (length (players_bytes (f_pos (sg_file g)) g [0..<MAXPLAYERS]))"
    "gm_playeringame h = gm_playeringame g" "length (gm_players h) = MAXPLAYERS"
    "f_pos (sg_file h) mod 4 = f_pos (sg_file g) mod 4"
    "unread (sg_file h) (players_bytes (f_pos (sg_file g)) g [0..<MAXPLAYERS] @ cs)"
  shows "exec P_ArchivePlayers g =
      g\<lparr>sg_file := put_bytes (players_bytes (f_pos (sg_file g)) g [0..<MAXPLAYERS]) (sg_file g)\<rparr> \<and>
    (\<exists>ps. exec P_UnArchivePlayers h =
        h\<lparr>sg_file := skip_bytes (length (players_bytes (f_pos (sg_file g)) g [0..<MAXPLAYERS])) (sg_file h), gm_players := ps\<rparr> \<and>
      (\<forall>i<MAXPLAYERS. ps ! i = (if gm_playeringame g ! i \<noteq> 0 then loaded_player (gm_players h ! i) (gm_players g ! i)
         else gm_players h ! i)))"
proof -
  have ok: "\<forall>i\<in>set [0..<MAXPLAYERS]. gm_playeringame g ! i \<noteq> 0 \<longrightarrow> player_ok (gm_players g ! i)"
    using assms(1) by (simp add: players_ok_def)
  have "\<forall>i\<in>set [0..<MAXPLAYERS]. i < length (gm_players h)" using assms(4) by simp
  note f = fold_load_player [OF _ this, of g]
  show ?thesis
    using players_write [OF assms(1,2)] players_read [OF assms(6,5,3) ok] f assms(4)
    by (intro conjI exI [of _ "fold (load_player g) [0..<MAXPLAYERS] (gm_players h)"])
      (simp_all add: exec_def P_UnArchivePlayers_def)
qed

section \<open>Witnesses\<close>

definition demo_player :: player_t where
  "demo_player = \<lparr>pr_mo = 4660, pr_playerstate = 0,
     pr_cmd = \<lparr>cmd_forwardmove = - 25, cmd_sidemove = 24, cmd_angleturn = - 640, cmd_chatchar = 0, cmd_buttons = 1,
       cmd_consistancy = 77, cmd_buttons2 = 0, cmd_inventory = 0, cmd_lookfly = 0, cmd_arti = 0\<rparr>,
     pr_viewz = 2686976, pr_viewheight = 2686976, pr_deltaviewheight = 0, pr_bob = 0, pr_health = 100, pr_armorpoints = 0,
     pr_armortype = 0, pr_powers = replicate 6 0, pr_cards = replicate 6 0, pr_backpack = 0, pr_frags = replicate 4 0,
     pr_readyweapon = 1, pr_pendingweapon = 10, pr_weaponowned = [1, 1, 0, 0, 0, 0, 0, 0, 0], pr_ammo = [50, 0, 0, 0],
     pr_maxammo = [200, 50, 300, 50], pr_attackdown = 0, pr_usedown = 0, pr_cheats = 0, pr_refire = 0, pr_killcount = 3,
     pr_itemcount = 0, pr_secretcount = 0, pr_message = 0, pr_damagecount = 0, pr_bonuscount = 0, pr_attacker = 0,
     pr_extralight = 0, pr_fixedcolormap = 0, pr_colormap = 0,
     pr_psprites = [\<lparr>psp_state = Some 10, psp_tics = 1, psp_sx = 65536, psp_sy = 2097152\<rparr>,
       \<lparr>psp_state = None, psp_tics = 0, psp_sx = 0, psp_sy = 0\<rparr>], pr_didsecret = 0\<rparr>"

definition demo_side :: side_t where
  "demo_side = \<lparr>sd_textureoffset = 65536, sd_rowoffset = 0, sd_toptexture = 1, sd_bottomtexture = 2, sd_midtexture = 0, sd_sector = 0\<rparr>"

definition save_file :: FILE where
  "save_file = \<lparr>f_drv = memory_driver 100000, f_data = [], f_pos = 0, f_size = 0, f_flags = 1\<rparr>"

definition load_file :: "int list \<Rightarrow> FILE" where
  "load_file bs = \<lparr>f_drv = memory_driver 100000, f_data = bs, f_pos = 0, f_size = int (length bs), f_flags = 0\<rparr>"

definition demo_game :: game where
  "demo_game = \<lparr>sg_file = save_file, sg_error = False, sg_junk = 0, sg_arch = LP64, gm_version = exe_ultimate, gm_skill = 2,
     gm_episode = 1, gm_map = 3, gm_playeringame = [1, 0, 0, 0], gm_leveltime = 3500, gm_players = replicate 4 demo_player,
     gm_level = three_rooms\<lparr>lv_sides := [demo_side, demo_side]\<rparr>\<rparr>"

lemma unread_load_file: "unread (load_file bs) bs"
  by (simp add: unread_def file_readable_def load_file_def file_consts memory_driver_ok)

lemma at_end_save_file: "n \<le> 100000 \<Longrightarrow> at_end save_file n"
  using memory_driver_ok [of 100000] by (auto simp: at_end_def save_file_def file_consts)

theorem header_roundtrip_witness:
  "\<exists>bs. length bs = 50 \<and> P_WriteSaveGameHeader [72, 69, 76, 76] demo_game = Inr (demo_game\<lparr>sg_file := put_bytes bs save_file\<rparr>)"
proof -
  have g: "header_ok demo_game" "sg_file demo_game = save_file" "G_VanillaVersionCode (gm_version demo_game) = Inr 109"
    by (simp_all add: header_ok_def demo_game_def byte_list_def MAXPLAYERS_def)
  have d: "byte_list [72, 69, 76, 76]" "length [72, 69, 76, 76 :: int] \<le> SAVESTRINGSIZE" by (simp_all add: byte_list_def SAVESTRINGSIZE_def)
  have "at_end (sg_file demo_game) 50" unfolding g(2) by (rule at_end_save_file) simp
  from header_roundtrip [OF g(1) d g(3) this] show ?thesis unfolding g(2) by blast
qed

theorem world_roundtrip_witness:
  "\<exists>lv. P_UnArchiveWorld (demo_game\<lparr>sg_file := load_file (world_bytes (gm_level demo_game))\<rparr>) =
     Inr (demo_game\<lparr>sg_file := skip_bytes 94 (load_file (world_bytes (gm_level demo_game))), gm_level := lv\<rparr>)"
proof -
  let ?lv = "gm_level demo_game"
  let ?h = "demo_game\<lparr>sg_file := load_file (world_bytes ?lv)\<rparr>"
  have lv: "?lv = three_rooms\<lparr>lv_sides := [demo_side, demo_side]\<rparr>" by (simp add: demo_game_def)
  have ok: "world_typed ?lv" "sidenums_ok ?lv"
    by (simp_all add: lv world_typed_def sidenums_ok_def three_rooms_def room_def two_sided_line_def demo_side_def
        is_i32_iff is_i16_def FRACUNIT_def FRACBITS_def)
  have l: "length (world_bytes ?lv) = 94"
    by (simp add: lv world_bytes_def sector_bytes_def line_bytes_def side_bytes_def three_rooms_def two_sided_line_def)
  have a: "at_end (sg_file demo_game) (length (world_bytes ?lv))"
    unfolding l using at_end_save_file by (simp add: demo_game_def)
  have s: "same_shape ?lv (gm_level ?h)" "unread (sg_file ?h) (world_bytes ?lv @ [])"
    by (simp_all add: same_shape_def unread_load_file)
  from world_roundtrip [OF ok a s] show ?thesis by (simp add: l) blast
qed

theorem players_roundtrip_witness:
  "\<exists>ps. exec P_UnArchivePlayers (demo_game\<lparr>sg_file := load_file (players_bytes 0 demo_game [0..<MAXPLAYERS])\<rparr>) =
     demo_game\<lparr>sg_file := skip_bytes (length (players_bytes 0 demo_game [0..<MAXPLAYERS])) (load_file (players_bytes 0 demo_game [0..<MAXPLAYERS])),
       gm_players := ps\<rparr> \<and> pr_killcount (ps ! 0) = 3"
proof -
  let ?bs = "players_bytes 0 demo_game [0..<MAXPLAYERS]"
  let ?h = "demo_game\<lparr>sg_file := load_file ?bs\<rparr>"
  have p: "player_ok demo_player"
    by (simp add: player_ok_def player_shape_def demo_player_def player_consts ticcmd_ok_def pspdef_ok_def is_i32_iff is_i16_def)
  have i: "[0..<MAXPLAYERS] = [0, 1, 2, 3]" by (simp add: MAXPLAYERS_def upt_rec)
  have pos: "f_pos (sg_file demo_game) = 0" "gm_playeringame demo_game ! 0 \<noteq> 0" by (simp_all add: demo_game_def save_file_def)
  have ok: "players_ok demo_game" using p by (auto simp: players_ok_def demo_game_def MAXPLAYERS_def)
  have "length ?bs = 280"
    unfolding i using c_player.width [OF p] by (simp add: demo_game_def padding_def Let_def)
  then have a: "at_end (sg_file demo_game) (length (players_bytes (f_pos (sg_file demo_game)) demo_game [0..<MAXPLAYERS]))"
    unfolding pos using at_end_save_file by (simp add: demo_game_def)
  have h: "gm_playeringame ?h = gm_playeringame demo_game" "length (gm_players ?h) = MAXPLAYERS"
    "f_pos (sg_file ?h) mod 4 = f_pos (sg_file demo_game) mod 4"
    "unread (sg_file ?h) (players_bytes (f_pos (sg_file demo_game)) demo_game [0..<MAXPLAYERS] @ [])"
    using unread_load_file by (simp_all add: demo_game_def MAXPLAYERS_def save_file_def load_file_def)
  obtain ps where ps: "exec P_UnArchivePlayers ?h = ?h\<lparr>sg_file := skip_bytes (length ?bs) (sg_file ?h), gm_players := ps\<rparr>"
    "\<forall>i<MAXPLAYERS. ps ! i = (if gm_playeringame demo_game ! i \<noteq> 0 then loaded_player (gm_players ?h ! i) (gm_players demo_game ! i)
         else gm_players ?h ! i)"
    using players_roundtrip [OF ok a h] unfolding pos by blast
  have "ps ! 0 = loaded_player (gm_players ?h ! 0) (gm_players demo_game ! 0)" using ps(2) pos(2) by (simp add: MAXPLAYERS_def)
  then have "pr_killcount (ps ! 0) = 3" by (simp add: loaded_player_def demo_game_def demo_player_def)
  with ps(1) show ?thesis by (intro exI [of _ ps]) simp
qed

end
