(* ===== verification/Saveg_Specials.thy ===== *)
theory Saveg_Specials
  imports Saveg
begin

text \<open>
  The thinkers in a saved game: \<open>P_ArchiveThinkers\<close>, \<open>P_ArchiveSpecials\<close> and
  \<open>P_UnArchiveSpecials\<close>, which rebuilds the movers and lights in the zone, links them into the
  thinker list and registers ceilings and platforms as active.
\<close>

section \<open>Saving\<close>

definition tc_end :: int where "tc_end = 0"
definition tc_mobj :: int where "tc_mobj = 1"

definition tc_ceiling :: int where "tc_ceiling = 0"
definition tc_door :: int where "tc_door = 1"
definition tc_floor :: int where "tc_floor = 2"
definition tc_plat :: int where "tc_plat = 3"
definition tc_flash :: int where "tc_flash = 4"
definition tc_strobe :: int where "tc_strobe = 5"
definition tc_glow :: int where "tc_glow = 6"
definition tc_endspecials :: int where "tc_endspecials = 7"

lemmas tc_defs = tc_ceiling_def tc_door_def tc_floor_def tc_plat_def tc_flash_def tc_strobe_def tc_glow_def tc_endspecials_def

definition write_class :: "int \<Rightarrow> (game, unit) state \<Rightarrow> game \<Rightarrow> game" where
  "write_class tclass wr = exec (do { saveg_write8 tclass; saveg_write_pad; wr })"

definition archive_thinker :: "symbols \<Rightarrow> int \<Rightarrow> game \<Rightarrow> game result" where
  "archive_thinker fnp th g =
     (let lv = gm_level g; t = lv_th lv th
      in if th_function t = fnp P_MobjThinker
         then (case lv_body lv th of
                 B_mobj m \<Rightarrow> Inr (write_class tc_mobj (saveg_write_mobj_t (t, m)) g)
               | _ \<Rightarrow> Inl Bad_Access)
         else Inr g)"

text \<open>
  The loop over the list; \<open>f\<close> is its body. Reading a structure as another one than was
  stored is \<open>Bad_Access\<close>.
\<close>

partial_function (option) archive_loop :: "(int \<Rightarrow> game \<Rightarrow> game result) \<Rightarrow> int \<Rightarrow> game \<Rightarrow> game result option" where
  "archive_loop f th g =
     (if th = lv_cap (gm_level g) then Some (Inr g)
      else case f th g of
             Inl e \<Rightarrow> Some (Inl e)
           | Inr g \<Rightarrow> archive_loop f (th_next (lv_th (gm_level g) th)) g)"

definition P_ArchiveThinkers :: "symbols \<Rightarrow> game \<Rightarrow> game result option" where
  "P_ArchiveThinkers fnp g =
     bindO (archive_loop (archive_thinker fnp) (th_next (lv_th (gm_level g) (lv_cap (gm_level g)))) g)
       (\<lambda>g. Some (Inr (exec (saveg_write8 tc_end) g)))"

definition archive_ceiling :: "int \<Rightarrow> game \<Rightarrow> game result" where
  "archive_ceiling th g =
     (case lv_body (gm_level g) th of
        B_ceiling c \<Rightarrow> Inr (write_class tc_ceiling (saveg_write_ceiling_t (lv_th (gm_level g) th, c)) g)
      | _ \<Rightarrow> Inl Bad_Access)"

definition archive_special :: "symbols \<Rightarrow> int \<Rightarrow> game \<Rightarrow> game result" where
  "archive_special fnp th g =
     (let lv = gm_level g; t = lv_th lv th; f = th_function t
      in if f = 0 then (if th \<in> set (take MAXCEILINGS (lv_ceilings lv)) then archive_ceiling th g else Inr g)
         else if f = fnp T_MoveCeiling then archive_ceiling th g
         else if f = fnp T_VerticalDoor
         then (case lv_body lv th of B_door c \<Rightarrow> Inr (write_class tc_door (saveg_write_vldoor_t (t, c)) g) | _ \<Rightarrow> Inl Bad_Access)
         else if f = fnp T_MoveFloor
         then (case lv_body lv th of B_floor c \<Rightarrow> Inr (write_class tc_floor (saveg_write_floormove_t (t, c)) g) | _ \<Rightarrow> Inl Bad_Access)
         else if f = fnp T_PlatRaise
         then (case lv_body lv th of B_plat c \<Rightarrow> Inr (write_class tc_plat (saveg_write_plat_t (t, c)) g) | _ \<Rightarrow> Inl Bad_Access)
         else if f = fnp T_LightFlash
         then (case lv_body lv th of B_flash c \<Rightarrow> Inr (write_class tc_flash (saveg_write_lightflash_t (t, c)) g) | _ \<Rightarrow> Inl Bad_Access)
         else if f = fnp T_StrobeFlash
         then (case lv_body lv th of B_strobe c \<Rightarrow> Inr (write_class tc_strobe (saveg_write_strobe_t (t, c)) g) | _ \<Rightarrow> Inl Bad_Access)
         else if f = fnp T_Glow
         then (case lv_body lv th of B_glow c \<Rightarrow> Inr (write_class tc_glow (saveg_write_glow_t (t, c)) g) | _ \<Rightarrow> Inl Bad_Access)
         else Inr g)"

definition P_ArchiveSpecials :: "symbols \<Rightarrow> game \<Rightarrow> game result option" where
  "P_ArchiveSpecials fnp g =
     bindO (archive_loop (archive_special fnp) (th_next (lv_th (gm_level g) (lv_cap (gm_level g)))) g)
       (\<lambda>g. Some (Inr (exec (saveg_write8 tc_endspecials) g)))"

section \<open>Loading\<close>

fun sizeof_ceiling :: "arch \<Rightarrow> int" where
  "sizeof_ceiling ILP32 = 48"
| "sizeof_ceiling LP64 = 72"

fun sizeof_vldoor :: "arch \<Rightarrow> int" where
  "sizeof_vldoor ILP32 = 40"
| "sizeof_vldoor LP64 = 64"

fun sizeof_floormove :: "arch \<Rightarrow> int" where
  "sizeof_floormove ILP32 = 44"
| "sizeof_floormove LP64 = 64"

fun sizeof_plat :: "arch \<Rightarrow> int" where
  "sizeof_plat ILP32 = 56"
| "sizeof_plat LP64 = 72"

definition put_thinker :: "int \<Rightarrow> thinker_t \<Rightarrow> body \<Rightarrow> level \<Rightarrow> level" where
  "put_thinker p th b lv = set_body p b (lv\<lparr>lv_th := (lv_th lv)(p := th)\<rparr>)"

text \<open>Padding, \<open>Z_Malloc\<close> and the structure.\<close>

definition read_special ::
  "int \<Rightarrow> (game, thinker_t \<times> 'a) state \<Rightarrow> ('a \<Rightarrow> body) \<Rightarrow> game \<Rightarrow> (int \<times> thinker_t \<times> 'a \<times> game) result option" where
  "read_special sz rd mk g =
     (let g = exec saveg_read_pad g
      in bindO (level_alloc sz PU_LEVEL (gm_level g)) (\<lambda>(p, lv).
           let ((th, x), g) = run_state rd (g\<lparr>gm_level := lv\<rparr>)
           in Some (Inr (p, th, x, g\<lparr>gm_level := put_thinker p th (mk x) (gm_level g)\<rparr>))))"

definition unarchive_ceiling :: "symbols \<Rightarrow> game \<Rightarrow> game result option" where
  "unarchive_ceiling fnp g =
     bindO (read_special (sizeof_ceiling (sg_arch g)) (saveg_read_ceiling_t (sg_arch g)) B_ceiling g) (\<lambda>(p, th, ceiling, g).
       Some (bindE (set_special (cl_sector ceiling) p (gm_level g)) (\<lambda>lv.
         let lv = (if th_function th \<noteq> 0 then set_function p (fnp T_MoveCeiling) lv else lv)
         in Inr (g\<lparr>gm_level := P_AddActiveCeiling p (P_AddThinker p lv)\<rparr>))))"

definition unarchive_door :: "symbols \<Rightarrow> game \<Rightarrow> game result option" where
  "unarchive_door fnp g =
     bindO (read_special (sizeof_vldoor (sg_arch g)) (saveg_read_vldoor_t (sg_arch g)) B_door g) (\<lambda>(p, th, door, g).
       Some (bindE (set_special (vd_sector door) p (gm_level g)) (\<lambda>lv.
         Inr (g\<lparr>gm_level := P_AddThinker p (set_function p (fnp T_VerticalDoor) lv)\<rparr>))))"

definition unarchive_floor :: "symbols \<Rightarrow> game \<Rightarrow> game result option" where
  "unarchive_floor fnp g =
     bindO (read_special (sizeof_floormove (sg_arch g)) (saveg_read_floormove_t (sg_arch g)) B_floor g) (\<lambda>(p, th, floor, g).
       Some (bindE (set_special (fm_sector floor) p (gm_level g)) (\<lambda>lv.
         Inr (g\<lparr>gm_level := P_AddThinker p (set_function p (fnp T_MoveFloor) lv)\<rparr>))))"

definition unarchive_plat :: "symbols \<Rightarrow> game \<Rightarrow> game result option" where
  "unarchive_plat fnp g =
     bindO (read_special (sizeof_plat (sg_arch g)) (saveg_read_plat_t (sg_arch g)) B_plat g) (\<lambda>(p, th, plat, g).
       Some (bindE (set_special (pl_sector plat) p (gm_level g)) (\<lambda>lv.
         let lv = (if th_function th \<noteq> 0 then set_function p (fnp T_PlatRaise) lv else lv)
         in bindE (P_AddActivePlat p (P_AddThinker p lv)) (\<lambda>lv. Inr (g\<lparr>gm_level := lv\<rparr>)))))"

definition unarchive_light ::
  "int \<Rightarrow> (game, thinker_t \<times> 'a) state \<Rightarrow> ('a \<Rightarrow> body) \<Rightarrow> int \<Rightarrow> game \<Rightarrow> game result option" where
  "unarchive_light sz rd mk function g =
     bindO (read_special sz rd mk g) (\<lambda>(p, th, light, g).
       Some (Inr (g\<lparr>gm_level := P_AddThinker p (set_function p function (gm_level g))\<rparr>)))"

definition unarchive_special :: "symbols \<Rightarrow> int \<Rightarrow> game \<Rightarrow> game result option" where
  "unarchive_special fnp tclass g =
     (let a = sg_arch g
      in if tclass = tc_ceiling then unarchive_ceiling fnp g
         else if tclass = tc_door then unarchive_door fnp g
         else if tclass = tc_floor then unarchive_floor fnp g
         else if tclass = tc_plat then unarchive_plat fnp g
         else if tclass = tc_flash
         then unarchive_light (sizeof_lightflash a) (saveg_read_lightflash_t a) B_flash (fnp T_LightFlash) g
         else if tclass = tc_strobe
         then unarchive_light (sizeof_strobe a) (saveg_read_strobe_t a) B_strobe (fnp T_StrobeFlash) g
         else if tclass = tc_glow
         then unarchive_light (sizeof_glow a) (saveg_read_glow_t a) B_glow (fnp T_Glow) g
         else Some (Inl (I_Error ''P_UnarchiveSpecials:Unknown tclass in savegame'')))"

partial_function (option) P_UnArchiveSpecials :: "symbols \<Rightarrow> game \<Rightarrow> game result option" where
  "P_UnArchiveSpecials fnp g =
     (case run_state saveg_read8 g of
        (tclass, g) \<Rightarrow>
          if tclass = tc_endspecials then Some (Inr g)
          else case unarchive_special fnp tclass g of
                 None \<Rightarrow> None
               | Some (Inl e) \<Rightarrow> Some (Inl e)
               | Some (Inr g) \<Rightarrow> P_UnArchiveSpecials fnp g)"

section \<open>The format\<close>

fun body_class :: "body \<Rightarrow> int" where
  "body_class (B_ceiling _) = tc_ceiling"
| "body_class (B_door _) = tc_door"
| "body_class (B_floor _) = tc_floor"
| "body_class (B_plat _) = tc_plat"
| "body_class (B_flash _) = tc_flash"
| "body_class (B_strobe _) = tc_strobe"
| "body_class (B_glow _) = tc_glow"
| "body_class _ = tc_endspecials"

fun body_bytes :: "thinker_t \<Rightarrow> body \<Rightarrow> int list" where
  "body_bytes th (B_ceiling c) = ceiling_bytes (th, c)"
| "body_bytes th (B_door c) = vldoor_bytes (th, c)"
| "body_bytes th (B_floor c) = floormove_bytes (th, c)"
| "body_bytes th (B_plat c) = plat_bytes (th, c)"
| "body_bytes th (B_flash c) = lightflash_bytes (th, c)"
| "body_bytes th (B_strobe c) = strobe_bytes (th, c)"
| "body_bytes th (B_glow c) = glow_bytes (th, c)"
| "body_bytes th _ = []"

text \<open>The numbers of a mover or a light have their C types.\<close>

fun body_ok :: "thinker_t \<Rightarrow> body \<Rightarrow> bool" where
  "body_ok th (B_ceiling c) = ceiling_ok (th, c)"
| "body_ok th (B_door c) = vldoor_ok (th, c)"
| "body_ok th (B_floor c) = floormove_ok (th, c)"
| "body_ok th (B_plat c) = plat_ok (th, c)"
| "body_ok th (B_flash c) = lightflash_ok (th, c)"
| "body_ok th (B_strobe c) = strobe_ok (th, c)"
| "body_ok th (B_glow c) = glow_ok (th, c)"
| "body_ok th _ = False"

definition item_bytes :: "nat \<Rightarrow> int \<Rightarrow> int list \<Rightarrow> int list" where
  "item_bytes p tclass bs = tclass # replicate (padding (p + 1)) 0 @ bs"

primrec stream_bytes :: "(nat \<Rightarrow> 'a \<Rightarrow> int list) \<Rightarrow> nat \<Rightarrow> 'a list \<Rightarrow> int list" where
  "stream_bytes b p [] = []"
| "stream_bytes b p (x # xs) = b p x @ stream_bytes b (p + length (b p x)) xs"

definition special_bytes :: "nat \<Rightarrow> thinker_t \<times> body \<Rightarrow> int list" where
  "special_bytes p = (\<lambda>(th, b). item_bytes p (body_class b) (body_bytes th b))"

definition mobj_item_bytes :: "nat \<Rightarrow> thinker_t \<times> mobj_t \<Rightarrow> int list" where
  "mobj_item_bytes p x = item_bytes p tc_mobj (mobj_bytes x)"

lemma write_class_run:
  assumes wr: "\<And>p. emits p wr bs" and t: "0 \<le> tclass" "tclass < 256"
    and s: "at_end (sg_file g) (length (item_bytes (f_pos (sg_file g)) tclass bs))"
  shows "write_class tclass wr g = g\<lparr>sg_file := put_bytes (item_bytes (f_pos (sg_file g)) tclass bs) (sg_file g)\<rparr>"
proof -
  let ?p = "f_pos (sg_file g)"
  have "emits ?p (do { saveg_write8 tclass; saveg_write_pad; wr }) (concat ([u8 tclass] # replicate (padding (?p + length [u8 tclass])) 0 # [bs]))"
    by (rule emits_bind [OF emits8], rule emits_bind [OF emits_pad]) (simp add: wr)
  then have "emits ?p (do { saveg_write8 tclass; saveg_write_pad; wr }) (item_bytes ?p tclass bs)"
    using t by (simp add: item_bytes_def u8_id)
  from exec_emits [OF this s] show ?thesis by (simp add: write_class_def)
qed

lemma archive_loop_list:
  assumes "thinkers (gm_level g) (ys @ xs)"
    "at_end (sg_file g) (length (stream_bytes b (f_pos (sg_file g)) xs))"
    "\<And>x g'. x \<in> set xs \<Longrightarrow> gm_level g' = gm_level g \<Longrightarrow> at_end (sg_file g') (length (b (f_pos (sg_file g')) x)) \<Longrightarrow>
       f x g' = Inr (g'\<lparr>sg_file := put_bytes (b (f_pos (sg_file g')) x) (sg_file g')\<rparr>)"
  shows "archive_loop f (hd (xs @ [lv_cap (gm_level g)])) g =
    Some (Inr (g\<lparr>sg_file := put_bytes (stream_bytes b (f_pos (sg_file g)) xs) (sg_file g)\<rparr>))"
  using assms
proof (induction xs arbitrary: ys g)
  case Nil
  show ?case by (subst archive_loop.simps) simp
next
  case (Cons x xs)
  let ?b = "b (f_pos (sg_file g)) x" and ?lv = "gm_level g"
  let ?g = "g\<lparr>sg_file := put_bytes ?b (sg_file g)\<rparr>"
  have x: "x \<noteq> lv_cap ?lv" using Cons.prems(1) by (auto simp: thinkers_def)
  have a: "at_end (sg_file g) (length ?b + length (stream_bytes b (f_pos (sg_file g) + length ?b) xs))"
    using Cons.prems(2) by simp
  have fx: "f x g = Inr ?g" by (rule Cons.prems(3)) (use at_end_less [OF a] in simp_all)
  have "archive_loop f (hd (xs @ [lv_cap (gm_level ?g)])) ?g =
      Some (Inr (?g\<lparr>sg_file := put_bytes (stream_bytes b (f_pos (sg_file ?g)) xs) (sg_file ?g)\<rparr>))"
  proof (rule Cons.IH)
    show "thinkers (gm_level ?g) ((ys @ [x]) @ xs)" using Cons.prems(1) by simp
    show "at_end (sg_file ?g) (length (stream_bytes b (f_pos (sg_file ?g)) xs))" using at_end_put [OF a] by simp
  qed (use Cons.prems(3) in simp)
  moreover have "th_next (lv_th ?lv x) = hd (xs @ [lv_cap ?lv])" using thinkers_next(1) [OF Cons.prems(1)] .
  ultimately show ?case by (subst archive_loop.simps) (simp add: x fx)
qed

section \<open>What is saved\<close>

fun body_action :: "body \<Rightarrow> action option" where
  "body_action (B_ceiling _) = Some T_MoveCeiling"
| "body_action (B_door _) = Some T_VerticalDoor"
| "body_action (B_floor _) = Some T_MoveFloor"
| "body_action (B_plat _) = Some T_PlatRaise"
| "body_action (B_flash _) = Some T_LightFlash"
| "body_action (B_strobe _) = Some T_StrobeFlash"
| "body_action (B_glow _) = Some T_Glow"
| "body_action _ = None"

definition is_saved :: "symbols \<Rightarrow> level \<Rightarrow> int \<Rightarrow> bool" where
  "is_saved fnp lv x \<longleftrightarrow>
     (let f = th_function (lv_th lv x)
      in if f = 0 then x \<in> set (take MAXCEILINGS (lv_ceilings lv))
         else f \<in> fnp ` {T_MoveCeiling, T_VerticalDoor, T_MoveFloor, T_PlatRaise, T_LightFlash, T_StrobeFlash, T_Glow})"

definition saved_items :: "symbols \<Rightarrow> level \<Rightarrow> int list \<Rightarrow> (thinker_t \<times> body) list" where
  "saved_items fnp lv xs = map (\<lambda>x. (lv_th lv x, lv_body lv x)) (filter (is_saved fnp lv) xs)"

text \<open>The function of a thinker fits its body; a thinker without one that is saved is a ceiling.\<close>

definition specials_ok :: "symbols \<Rightarrow> level \<Rightarrow> int list \<Rightarrow> bool" where
  "specials_ok fnp lv xs \<longleftrightarrow> inj fnp \<and> (\<forall>a. fnp a \<noteq> 0) \<and>
     (\<forall>x\<in>set xs. is_saved fnp lv x \<longrightarrow> body_ok (lv_th lv x) (lv_body lv x) \<and>
        (if th_function (lv_th lv x) = 0 then body_action (lv_body lv x) = Some T_MoveCeiling
         else \<exists>a. body_action (lv_body lv x) = Some a \<and> th_function (lv_th lv x) = fnp a))"

lemma tc_range: "0 \<le> body_class b" "body_class b < 256"
  by (cases b; simp add: tc_defs)+

lemma body_emits:
  "ceiling_ok (th, c1) \<Longrightarrow> emits p (saveg_write_ceiling_t (th, c1)) (ceiling_bytes (th, c1))"
  "vldoor_ok (th, c2) \<Longrightarrow> emits p (saveg_write_vldoor_t (th, c2)) (vldoor_bytes (th, c2))"
  "floormove_ok (th, c3) \<Longrightarrow> emits p (saveg_write_floormove_t (th, c3)) (floormove_bytes (th, c3))"
  "plat_ok (th, c4) \<Longrightarrow> emits p (saveg_write_plat_t (th, c4)) (plat_bytes (th, c4))"
  "lightflash_ok (th, c5) \<Longrightarrow> emits p (saveg_write_lightflash_t (th, c5)) (lightflash_bytes (th, c5))"
  "strobe_ok (th, c6) \<Longrightarrow> emits p (saveg_write_strobe_t (th, c6)) (strobe_bytes (th, c6))"
  "glow_ok (th, c7) \<Longrightarrow> emits p (saveg_write_glow_t (th, c7)) (glow_bytes (th, c7))"
  by (rule c_ceiling.wr c_vldoor.wr c_floormove.wr c_plat.wr c_lightflash.wr c_strobe.wr c_glow.wr, assumption)+

lemma archive_ceiling_run:
  assumes "lv_body (gm_level g) x = B_ceiling c" "ceiling_ok (lv_th (gm_level g) x, c)"
    "at_end (sg_file g) (length (special_bytes (f_pos (sg_file g)) (lv_th (gm_level g) x, lv_body (gm_level g) x)))"
  shows "archive_ceiling x g =
    Inr (g\<lparr>sg_file := put_bytes (special_bytes (f_pos (sg_file g)) (lv_th (gm_level g) x, lv_body (gm_level g) x)) (sg_file g)\<rparr>)"
  using assms write_class_run [OF body_emits(1) [OF assms(2)], of tc_ceiling g]
  by (simp add: archive_ceiling_def special_bytes_def tc_ceiling_def)

lemma archive_special_run:
  assumes ok: "specials_ok fnp lv xs" "x \<in> set xs" and g: "gm_level g = lv"
    and s: "is_saved fnp lv x \<Longrightarrow> at_end (sg_file g) (length (special_bytes (f_pos (sg_file g)) (lv_th lv x, lv_body lv x)))"
  shows "archive_special fnp x g =
    Inr (g\<lparr>sg_file := put_bytes (if is_saved fnp lv x then special_bytes (f_pos (sg_file g)) (lv_th lv x, lv_body lv x) else []) (sg_file g)\<rparr>)"
proof (cases "is_saved fnp lv x")
  case False
  show ?thesis
  proof (cases "th_function (lv_th lv x) = 0")
    case True
    then show ?thesis using g False by (simp add: archive_special_def is_saved_def Let_def)
  next
    case nf: False
    with False have "\<forall>a\<in>{T_MoveCeiling, T_VerticalDoor, T_MoveFloor, T_PlatRaise, T_LightFlash, T_StrobeFlash, T_Glow}.
      th_function (lv_th lv x) \<noteq> fnp a" by (auto simp: is_saved_def Let_def)
    then show ?thesis using g False nf by (simp add: archive_special_def Let_def)
  qed
next
  case True
  let ?t = "lv_th lv x" and ?b = "lv_body lv x"
  have b: "body_ok ?t ?b" and i: "inj fnp" and nz: "\<forall>a. fnp a \<noteq> 0"
    and f: "if th_function ?t = 0 then body_action ?b = Some T_MoveCeiling
         else \<exists>a. body_action ?b = Some a \<and> th_function ?t = fnp a"
    using ok True by (auto simp: specials_ok_def)
  have s': "at_end (sg_file g) (length (special_bytes (f_pos (sg_file g)) (?t, ?b)))" by (rule s [OF True])
  have eq: "fnp a = fnp a' \<longleftrightarrow> a = a'" for a a' using i by (simp add: inj_eq)
  show ?thesis
  proof (cases "th_function ?t = 0")
    case z: True
    with f obtain c where c: "?b = B_ceiling c" by (cases ?b) auto
    show ?thesis
      using archive_ceiling_run [of g x c] c b g s' z True
      by (simp add: archive_special_def is_saved_def Let_def)
  next
    case nf: False
    with f obtain a where a: "body_action ?b = Some a" "th_function ?t = fnp a" by auto
    have "write_class (body_class ?b) wr g = g\<lparr>sg_file := put_bytes (special_bytes (f_pos (sg_file g)) (?t, ?b)) (sg_file g)\<rparr>"
      if "\<And>p. emits p wr (body_bytes ?t ?b)" for wr
      using write_class_run [OF that tc_range, of g ?b] s' by (simp add: special_bytes_def)
    note w = this
    have f': "th_function (lv_th (gm_level g) x) = fnp a" "fnp a \<noteq> 0" using a(2) nz g by simp_all
    show ?thesis
    proof (cases ?b)
      case (B_ceiling c)
      then show ?thesis using archive_ceiling_run [of g x c] a b g s' nz True
        by (simp add: archive_special_def Let_def)
    next
      case (B_door c)
      have "emits p (saveg_write_vldoor_t (?t, c) :: (game, unit) state) (body_bytes ?t ?b)" for p
        using b B_door by (simp add: body_emits)
      from w [OF this] show ?thesis using B_door a g f' True by (simp add: archive_special_def Let_def eq)
    next
      case (B_floor c)
      have "emits p (saveg_write_floormove_t (?t, c) :: (game, unit) state) (body_bytes ?t ?b)" for p
        using b B_floor by (simp add: body_emits)
      from w [OF this] show ?thesis using B_floor a g f' True by (simp add: archive_special_def Let_def eq)
    next
      case (B_plat c)
      have "emits p (saveg_write_plat_t (?t, c) :: (game, unit) state) (body_bytes ?t ?b)" for p
        using b B_plat by (simp add: body_emits)
      from w [OF this] show ?thesis using B_plat a g f' True by (simp add: archive_special_def Let_def eq)
    next
      case (B_flash c)
      have "emits p (saveg_write_lightflash_t (?t, c) :: (game, unit) state) (body_bytes ?t ?b)" for p
        using b B_flash by (simp add: body_emits)
      from w [OF this] show ?thesis using B_flash a g f' True by (simp add: archive_special_def Let_def eq)
    next
      case (B_strobe c)
      have "emits p (saveg_write_strobe_t (?t, c) :: (game, unit) state) (body_bytes ?t ?b)" for p
        using b B_strobe by (simp add: body_emits)
      from w [OF this] show ?thesis using B_strobe a g f' True by (simp add: archive_special_def Let_def eq)
    next
      case (B_glow c)
      have "emits p (saveg_write_glow_t (?t, c) :: (game, unit) state) (body_bytes ?t ?b)" for p
        using b B_glow by (simp add: body_emits)
      from w [OF this] show ?thesis using B_glow a g f' True by (simp add: archive_special_def Let_def eq)
    qed (use a in simp_all)
  qed
qed

lemma stream_filter:
  "stream_bytes (\<lambda>p x. if P x then b p (f x) else []) p xs = stream_bytes b p (map f (filter P xs))"
  by (induction xs arbitrary: p) simp_all

lemma specials_write:
  assumes ok: "specials_ok fnp (gm_level g) xs" "thinkers (gm_level g) xs"
    and s: "at_end (sg_file g) (Suc (length (stream_bytes special_bytes (f_pos (sg_file g)) (saved_items fnp (gm_level g) xs))))"
  shows "P_ArchiveSpecials fnp g = Some (Inr (g\<lparr>sg_file :=
    put_bytes (stream_bytes special_bytes (f_pos (sg_file g)) (saved_items fnp (gm_level g) xs) @ [tc_endspecials]) (sg_file g)\<rparr>))"
proof -
  let ?lv = "gm_level g"
  let ?bx = "\<lambda>p x. if is_saved fnp ?lv x then special_bytes p (lv_th ?lv x, lv_body ?lv x) else []"
  let ?bs = "stream_bytes special_bytes (f_pos (sg_file g)) (saved_items fnp ?lv xs)"
  have e: "stream_bytes ?bx (f_pos (sg_file g)) xs = ?bs"
    unfolding saved_items_def by (rule stream_filter)
  have n: "th_next (lv_th ?lv (lv_cap ?lv)) = hd (xs @ [lv_cap ?lv])"
    using ok(2) dll_ends by (auto simp: thinkers_def)
  have "archive_loop (archive_special fnp) (hd (xs @ [lv_cap ?lv])) g =
      Some (Inr (g\<lparr>sg_file := put_bytes (stream_bytes ?bx (f_pos (sg_file g)) xs) (sg_file g)\<rparr>))"
  proof (rule archive_loop_list [where ys = "[]"])
    show "thinkers ?lv ([] @ xs)" using ok(2) by simp
    show "at_end (sg_file g) (length (stream_bytes ?bx (f_pos (sg_file g)) xs))"
      unfolding e using at_end_less [of "sg_file g" "length ?bs" 1] s by simp
    fix x and g' :: game assume "x \<in> set xs" "gm_level g' = ?lv" "at_end (sg_file g') (length (?bx (f_pos (sg_file g')) x))"
    then show "archive_special fnp x g' = Inr (g'\<lparr>sg_file := put_bytes (?bx (f_pos (sg_file g')) x) (sg_file g')\<rparr>)"
      by (intro archive_special_run [OF ok(1)]) (simp_all split: if_splits)
  qed
  moreover have "at_end (put_bytes ?bs (sg_file g)) 1" by (rule at_end_put) (use s in simp)
  then have "exec (saveg_write8 tc_endspecials) (g\<lparr>sg_file := put_bytes ?bs (sg_file g)\<rparr>) =
      g\<lparr>sg_file := put_bytes (?bs @ [tc_endspecials]) (sg_file g)\<rparr>"
    using exec_emits [OF emits8, of "g\<lparr>sg_file := put_bytes ?bs (sg_file g)\<rparr>" tc_endspecials]
    by (simp add: tc_endspecials_def u8_def)
  ultimately show ?thesis by (simp add: P_ArchiveSpecials_def n e)
qed

text \<open>The map objects.\<close>

fun the_mobj :: "body \<Rightarrow> mobj_t" where
  "the_mobj (B_mobj m) = m"
| "the_mobj _ = undefined"

definition mobjs_ok :: "symbols \<Rightarrow> level \<Rightarrow> int list \<Rightarrow> bool" where
  "mobjs_ok fnp lv xs \<longleftrightarrow> (\<forall>x\<in>set xs. th_function (lv_th lv x) = fnp P_MobjThinker \<longrightarrow>
     (\<exists>m. lv_body lv x = B_mobj m \<and> mobj_ok (lv_th lv x, m)))"

definition saved_mobjs :: "symbols \<Rightarrow> level \<Rightarrow> int list \<Rightarrow> (thinker_t \<times> mobj_t) list" where
  "saved_mobjs fnp lv xs = map (\<lambda>x. (lv_th lv x, the_mobj (lv_body lv x)))
     (filter (\<lambda>x. th_function (lv_th lv x) = fnp P_MobjThinker) xs)"

lemma mobjs_write:
  assumes ok: "mobjs_ok fnp (gm_level g) xs" "thinkers (gm_level g) xs"
    and s: "at_end (sg_file g) (Suc (length (stream_bytes mobj_item_bytes (f_pos (sg_file g)) (saved_mobjs fnp (gm_level g) xs))))"
  shows "P_ArchiveThinkers fnp g = Some (Inr (g\<lparr>sg_file :=
    put_bytes (stream_bytes mobj_item_bytes (f_pos (sg_file g)) (saved_mobjs fnp (gm_level g) xs) @ [tc_end]) (sg_file g)\<rparr>))"
proof -
  let ?lv = "gm_level g"
  let ?bx = "\<lambda>p x. if th_function (lv_th ?lv x) = fnp P_MobjThinker then mobj_item_bytes p (lv_th ?lv x, the_mobj (lv_body ?lv x)) else []"
  let ?bs = "stream_bytes mobj_item_bytes (f_pos (sg_file g)) (saved_mobjs fnp ?lv xs)"
  have e: "stream_bytes ?bx (f_pos (sg_file g)) xs = ?bs"
    unfolding saved_mobjs_def by (rule stream_filter)
  have n: "th_next (lv_th ?lv (lv_cap ?lv)) = hd (xs @ [lv_cap ?lv])"
    using ok(2) dll_ends by (auto simp: thinkers_def)
  have "archive_loop (archive_thinker fnp) (hd (xs @ [lv_cap ?lv])) g =
      Some (Inr (g\<lparr>sg_file := put_bytes (stream_bytes ?bx (f_pos (sg_file g)) xs) (sg_file g)\<rparr>))"
  proof (rule archive_loop_list [where ys = "[]"])
    show "thinkers ?lv ([] @ xs)" using ok(2) by simp
    show "at_end (sg_file g) (length (stream_bytes ?bx (f_pos (sg_file g)) xs))"
      unfolding e using at_end_less [of "sg_file g" "length ?bs" 1] s by simp
    fix x and g' :: game
    assume x: "x \<in> set xs" "gm_level g' = ?lv" "at_end (sg_file g') (length (?bx (f_pos (sg_file g')) x))"
    show "archive_thinker fnp x g' = Inr (g'\<lparr>sg_file := put_bytes (?bx (f_pos (sg_file g')) x) (sg_file g')\<rparr>)"
    proof (cases "th_function (lv_th ?lv x) = fnp P_MobjThinker")
      case True
      then obtain m where m: "lv_body ?lv x = B_mobj m" "mobj_ok (lv_th ?lv x, m)" using ok(1) x(1) by (auto simp: mobjs_ok_def)
      have "write_class tc_mobj (saveg_write_mobj_t (lv_th ?lv x, m)) g' =
          g'\<lparr>sg_file := put_bytes (mobj_item_bytes (f_pos (sg_file g')) (lv_th ?lv x, m)) (sg_file g')\<rparr>"
        unfolding mobj_item_bytes_def
        by (rule write_class_run [OF emits_mobj [OF m(2)]]) (use x(3) True m(1) in \<open>simp_all add: tc_mobj_def mobj_item_bytes_def\<close>)
      then show ?thesis using True m x(2) by (simp add: archive_thinker_def Let_def)
    qed (use x(2) in \<open>simp add: archive_thinker_def\<close>)
  qed
  moreover have "at_end (put_bytes ?bs (sg_file g)) 1" by (rule at_end_put) (use s in simp)
  then have "exec (saveg_write8 tc_end) (g\<lparr>sg_file := put_bytes ?bs (sg_file g)\<rparr>) =
      g\<lparr>sg_file := put_bytes (?bs @ [tc_end]) (sg_file g)\<rparr>"
    using exec_emits [OF emits8, of "g\<lparr>sg_file := put_bytes ?bs (sg_file g)\<rparr>" tc_end]
    by (simp add: tc_end_def u8_def)
  ultimately show ?thesis by (simp add: P_ArchiveThinkers_def n e)
qed

section \<open>What is loaded\<close>

definition special_function :: "symbols \<Rightarrow> arch \<Rightarrow> thinker_t \<Rightarrow> body \<Rightarrow> int" where
  "special_function fnp arch th b =
     (case body_action b of
        Some a \<Rightarrow> if a \<in> {T_MoveCeiling, T_PlatRaise} \<and> saved_ptr arch (th_function th) = 0 then 0 else fnp a
      | None \<Rightarrow> 0)"

fun body_sector :: "body \<Rightarrow> int option" where
  "body_sector (B_ceiling c) = Some (cl_sector c)"
| "body_sector (B_door c) = Some (vd_sector c)"
| "body_sector (B_floor c) = Some (fm_sector c)"
| "body_sector (B_plat c) = Some (pl_sector c)"
| "body_sector _ = None"

definition item_ok :: "level \<Rightarrow> thinker_t \<times> body \<Rightarrow> bool" where
  "item_ok lv = (\<lambda>(th, b). body_ok th b \<and> (\<forall>s. body_sector b = Some s \<longrightarrow> 0 \<le> s \<and> s < int (length (lv_sectors lv))))"

definition no_more_plats :: doom_error where
  "no_more_plats = I_Error ''P_AddActivePlat: no more plats!''"

text \<open>A mover or light that has been added at the end of the list.\<close>

definition added :: "level \<Rightarrow> level \<Rightarrow> int list \<Rightarrow> int \<Rightarrow> bool" where
  "added lv lv' xs p \<longleftrightarrow>
     level_ok lv' (xs @ [p]) \<and> p \<notin> set xs \<and> larch lv' = larch lv \<and> length (lv_sectors lv') = length (lv_sectors lv) \<and>
     (\<forall>y\<in>set xs. th_function (lv_th lv' y) = th_function (lv_th lv y) \<and> lv_body lv' y = lv_body lv y)"

lemma level_ok_other:
  assumes "level_ok lv xs" "p \<notin> set (lv_cap lv # xs)" "lv_cap lv' = lv_cap lv" "lv_zone lv' = lv_zone lv"
    "\<And>y. y \<noteq> p \<Longrightarrow> lv_th lv' y = lv_th lv y"
  shows "level_ok lv' xs"
proof -
  have "x \<noteq> p" if "x \<in> set (lv_cap lv # xs)" for x using that assms(2) by auto
  then have "dll (lv_th lv') (lv_cap lv) xs (lv_cap lv) = dll (lv_th lv) (lv_cap lv) xs (lv_cap lv)"
    by (intro dll_cong) (simp_all add: assms(5))
  then show ?thesis using assms by (simp add: level_ok_def thinkers_def cap_outside_def)
qed

lemma addedI:
  assumes a: "level_ok (lv\<lparr>lv_zone := z\<rparr>) xs" "p \<notin> set (lv_cap lv # xs)" "p \<in> kept (heap z)" "zarch z = larch lv"
    and l: "lv_zone lv' = z" "lv_cap lv' = lv_cap lv" "length (lv_sectors lv') = length (lv_sectors lv)"
      "\<And>y. y \<noteq> p \<Longrightarrow> lv_th lv' y = lv_th lv y" "\<And>y. y \<noteq> p \<Longrightarrow> lv_body lv' y = lv_body lv y"
  shows "added lv (P_AddThinker p lv') xs p"
proof -
  have "level_ok lv' xs" by (rule level_ok_other [OF a(1), of p]) (use a l in simp_all)
  then have "level_ok (P_AddThinker p lv') (xs @ [p])" using add_thinker_ok a l by simp
  moreover have "y \<noteq> p" if "y \<in> set xs" for y using that a(2) by auto
  ultimately show ?thesis unfolding added_def using a l by auto
qed

lemma read_special_run:
  assumes ok: "level_ok (gm_level h) xs" and sz: "0 < sz" "sz \<le> INT_MAX - 64"
    and u: "unread (sg_file h) (replicate (padding (f_pos (sg_file h))) 0 @ (bs @ cs))"
    and rd: "\<And>p. takes p rd bs (th, x)"
  shows "read_special sz rd mk h = Some (Inl alloc_failed) \<or>
    (\<exists>p z. read_special sz rd mk h = Some (Inr (p, th, x, h\<lparr>sg_file := skip_bytes (padding (f_pos (sg_file h)) + length bs) (sg_file h),
         gm_level := put_thinker p th (mk x) ((gm_level h)\<lparr>lv_zone := z\<rparr>)\<rparr>)) \<and>
       level_ok ((gm_level h)\<lparr>lv_zone := z\<rparr>) xs \<and> p \<notin> set (lv_cap (gm_level h) # xs) \<and> p \<in> kept (heap z) \<and>
       zarch z = larch (gm_level h))"
proof -
  let ?n = "padding (f_pos (sg_file h))" and ?lv = "gm_level h"
  let ?h1 = "h\<lparr>sg_file := skip_bytes ?n (sg_file h)\<rparr>"
  have r1: "exec saveg_read_pad h = ?h1" using run_takes [OF takes_pad u] by (simp add: exec_def)
  have u1: "unread (sg_file (?h1\<lparr>gm_level := l\<rparr>)) (bs @ cs)" for l using unread_skip [OF u] by simp
  have r2: "run_state rd (?h1\<lparr>gm_level := l\<rparr>) =
      ((th, x), h\<lparr>sg_file := skip_bytes (?n + length bs) (sg_file h), gm_level := l\<rparr>)" for l
    using run_takes [OF rd u1 [of l]] by simp
  have tag: "PU_LEVEL \<noteq> PU_FREE" "PU_LEVEL < PU_PURGELEVEL" by (simp_all add: PU_defs)
  from level_alloc_cases [OF ok sz tag] show ?thesis
  proof (elim disjE exE conjE)
    fix p z
    assume "level_alloc sz PU_LEVEL ?lv = Some (Inr (p, ?lv\<lparr>lv_zone := z\<rparr>))" and a: "level_ok (?lv\<lparr>lv_zone := z\<rparr>) xs"
      "p \<notin> set (lv_cap ?lv # xs)" "p \<in> kept (heap z)" "zarch z = larch ?lv"
    then have "read_special sz rd mk h = Some (Inr (p, th, x, h\<lparr>sg_file := skip_bytes (?n + length bs) (sg_file h),
         gm_level := put_thinker p th (mk x) (?lv\<lparr>lv_zone := z\<rparr>)\<rparr>))"
      by (simp add: read_special_def Let_def r1 r2)
    with a show ?thesis by blast
  qed (simp add: read_special_def r1)
qed

lemma put_thinker_simps [simp]:
  "lv_zone (put_thinker p th b lv) = lv_zone lv" "lv_cap (put_thinker p th b lv) = lv_cap lv"
  "lv_sectors (put_thinker p th b lv) = lv_sectors lv" "lv_body (put_thinker p th b lv) = (lv_body lv)(p := b)"
  "lv_th (put_thinker p th b lv) = (lv_th lv)(p := th)" "lv_ceilings (put_thinker p th b lv) = lv_ceilings lv"
  "lv_plats (put_thinker p th b lv) = lv_plats lv"
  by (simp_all add: put_thinker_def set_body_def)

lemma set_special_run:
  "0 \<le> s \<Longrightarrow> s < int (length (lv_sectors lv)) \<Longrightarrow>
    set_special s p lv = Inr (upd_sector (nat s) (\<lambda>sc. sc\<lparr>sc_specialdata := p\<rparr>) lv)"
  by (simp add: set_special_def)

lemma set_function_other: "y \<noteq> p \<Longrightarrow> lv_th (set_function p f lv) y = lv_th lv y"
  by (simp add: set_function_def upd_th_def)

lemma active_level:
  "level_ok (P_AddActiveCeiling p lv) xs = level_ok lv xs" "added lv0 (P_AddActiveCeiling p lv) xs q = added lv0 lv xs q"
  "lv_body (P_AddActiveCeiling p lv) = lv_body lv" "lv_th (P_AddActiveCeiling p lv) = lv_th lv"
  "lv_sectors (P_AddActiveCeiling p lv) = lv_sectors lv" "lv_zone (P_AddActiveCeiling p lv) = lv_zone lv"
  by (cases "add_active p (lv_ceilings lv)";
      simp add: P_AddActiveCeiling_def level_ok_def thinkers_def cap_outside_def added_def)+

text \<open>One step of the load, for each class.\<close>

definition loads :: "symbols \<Rightarrow> thinker_t \<times> body \<Rightarrow> nat \<Rightarrow> game \<Rightarrow> int list \<Rightarrow> game result option \<Rightarrow> bool" where
  "loads fnp it n h xs r \<longleftrightarrow> r = Some (Inl alloc_failed) \<or> r = Some (Inl no_more_plats) \<or>
     (\<exists>p lv. r = Some (Inr (h\<lparr>sg_file := skip_bytes n (sg_file h), gm_level := lv\<rparr>)) \<and> added (gm_level h) lv xs p \<and>
        lv_body lv p = snd it \<and> th_function (lv_th lv p) = special_function fnp (sg_arch h) (fst it) (snd it) \<and>
        (\<forall>s. body_sector (snd it) = Some s \<longrightarrow> sc_specialdata (sector lv (nat s)) = p))"

lemma sizes_specials:
  "0 < sizeof_ceiling a" "sizeof_ceiling a \<le> INT_MAX - 64" "0 < sizeof_vldoor a" "sizeof_vldoor a \<le> INT_MAX - 64"
  "0 < sizeof_floormove a" "sizeof_floormove a \<le> INT_MAX - 64" "0 < sizeof_plat a" "sizeof_plat a \<le> INT_MAX - 64"
  by (cases a; simp add: INT_MAX_def)+

lemma loads_step:
  assumes ok: "level_ok (gm_level h) xs" and sz: "0 < sz" "sz \<le> INT_MAX - 64"
    and u: "unread (sg_file h) (replicate (padding (f_pos (sg_file h))) 0 @ (bs @ cs))"
    and rd: "\<And>p. takes p rd bs (th, x)"
    and k: "\<And>p z g. level_ok ((gm_level h)\<lparr>lv_zone := z\<rparr>) xs \<Longrightarrow> p \<notin> set (lv_cap (gm_level h) # xs) \<Longrightarrow>
      p \<in> kept (heap z) \<Longrightarrow> zarch z = larch (gm_level h) \<Longrightarrow>
      g = h\<lparr>sg_file := skip_bytes (padding (f_pos (sg_file h)) + length bs) (sg_file h),
        gm_level := put_thinker p th (mk x) ((gm_level h)\<lparr>lv_zone := z\<rparr>)\<rparr> \<Longrightarrow>
      loads fnp it (padding (f_pos (sg_file h)) + length bs) h xs (k (p, th, x, g))"
  shows "loads fnp it (padding (f_pos (sg_file h)) + length bs) h xs (bindO (read_special sz rd mk h) k)"
  using read_special_run [OF ok sz u rd, of mk]
proof (elim disjE exE conjE)
  assume "read_special sz rd mk h = Some (Inl alloc_failed)"
  then show ?thesis by (simp add: loads_def)
qed (use k in simp)

lemma loadsI:
  assumes "added (gm_level h) lv xs p" "lv_body lv p = snd it"
    "th_function (lv_th lv p) = special_function fnp (sg_arch h) (fst it) (snd it)"
    "\<forall>s. body_sector (snd it) = Some s \<longrightarrow> sc_specialdata (sector lv (nat s)) = p"
    "r = Some (Inr (h\<lparr>sg_file := skip_bytes n (sg_file h), gm_level := lv\<rparr>))"
  shows "loads fnp it n h xs r"
  unfolding loads_def using assms by blast

lemma load_ceiling:
  assumes ok: "level_ok (gm_level h) xs" "item_ok (gm_level h) (th, B_ceiling c)"
    and u: "unread (sg_file h) (replicate (padding (f_pos (sg_file h))) 0 @ (ceiling_bytes (th, c) @ cs))"
  shows "loads fnp (th, B_ceiling c) (padding (f_pos (sg_file h)) + length (ceiling_bytes (th, c))) h xs (unarchive_ceiling fnp h)"
proof -
  let ?a = "sg_arch h" and ?lv = "gm_level h"
  have c: "ceiling_ok (th, c)" "0 \<le> cl_sector c" "cl_sector c < int (length (lv_sectors ?lv))"
    using ok(2) by (simp_all add: item_ok_def)
  have rd: "takes p (saveg_read_ceiling_t ?a) (ceiling_bytes (th, c)) (saved_thinker ?a th, c)" for p
    using c_ceiling.rd [OF c(1), of p ?a] by simp
  show ?thesis
    unfolding unarchive_ceiling_def
  proof (rule loads_step [OF ok(1) sizes_specials(1,2) u rd])
    fix p z g
    let ?l0 = "put_thinker p (saved_thinker ?a th) (B_ceiling c) (?lv\<lparr>lv_zone := z\<rparr>)"
    let ?l1 = "upd_sector (nat (cl_sector c)) (\<lambda>sc. sc\<lparr>sc_specialdata := p\<rparr>) ?l0"
    let ?l2 = "(if th_function (saved_thinker ?a th) \<noteq> 0 then set_function p (fnp T_MoveCeiling) ?l1 else ?l1)"
    assume a: "level_ok (?lv\<lparr>lv_zone := z\<rparr>) xs" "p \<notin> set (lv_cap ?lv # xs)" "p \<in> kept (heap z)" "zarch z = larch ?lv"
      and g: "g = h\<lparr>sg_file := skip_bytes (padding (f_pos (sg_file h)) + length (ceiling_bytes (th, c))) (sg_file h), gm_level := ?l0\<rparr>"
    have ad: "added ?lv (P_AddThinker p ?l2) xs p" by (rule addedI [OF a]) (simp_all add: set_function_other)
    have b: "lv_body ?l2 p = B_ceiling c" "sc_specialdata (sector ?l2 (nat (cl_sector c))) = p" using c by simp_all
    have f: "th_function (lv_th ?l2 p) = special_function fnp ?a th (B_ceiling c)"
      by (simp add: special_function_def saved_thinker_def)
    show "loads fnp (th, B_ceiling c) (padding (f_pos (sg_file h)) + length (ceiling_bytes (th, c))) h xs
       ((\<lambda>(p, th, ceiling, g).
       Some (bindE (set_special (cl_sector ceiling) p (gm_level g)) (\<lambda>lv.
         let lv = (if th_function th \<noteq> 0 then set_function p (fnp T_MoveCeiling) lv else lv)
         in Inr (g\<lparr>gm_level := P_AddActiveCeiling p (P_AddThinker p lv)\<rparr>)))) (p, saved_thinker ?a th, c, g))"
      by (rule loadsI [where p = p and lv = "P_AddActiveCeiling p (P_AddThinker p ?l2)"])
        (use ad b f c g in \<open>simp_all add: set_special_run active_level Let_def\<close>)
  qed
qed

lemma load_door:
  assumes ok: "level_ok (gm_level h) xs" "item_ok (gm_level h) (th, B_door c)"
    and u: "unread (sg_file h) (replicate (padding (f_pos (sg_file h))) 0 @ (vldoor_bytes (th, c) @ cs))"
  shows "loads fnp (th, B_door c) (padding (f_pos (sg_file h)) + length (vldoor_bytes (th, c))) h xs (unarchive_door fnp h)"
proof -
  let ?a = "sg_arch h" and ?lv = "gm_level h"
  have c: "vldoor_ok (th, c)" "0 \<le> vd_sector c" "vd_sector c < int (length (lv_sectors ?lv))"
    using ok(2) by (simp_all add: item_ok_def)
  have rd: "takes p (saveg_read_vldoor_t ?a) (vldoor_bytes (th, c)) (saved_thinker ?a th, c)" for p
    using c_vldoor.rd [OF c(1), of p ?a] by simp
  show ?thesis
    unfolding unarchive_door_def
  proof (rule loads_step [OF ok(1) sizes_specials(3,4) u rd])
    fix p z g
    let ?l0 = "put_thinker p (saved_thinker ?a th) (B_door c) (?lv\<lparr>lv_zone := z\<rparr>)"
    let ?l1 = "upd_sector (nat (vd_sector c)) (\<lambda>sc. sc\<lparr>sc_specialdata := p\<rparr>) ?l0"
    let ?l2 = "set_function p (fnp T_VerticalDoor) ?l1"
    assume a: "level_ok (?lv\<lparr>lv_zone := z\<rparr>) xs" "p \<notin> set (lv_cap ?lv # xs)" "p \<in> kept (heap z)" "zarch z = larch ?lv"
      and g: "g = h\<lparr>sg_file := skip_bytes (padding (f_pos (sg_file h)) + length (vldoor_bytes (th, c))) (sg_file h), gm_level := ?l0\<rparr>"
    have ad: "added ?lv (P_AddThinker p ?l2) xs p" by (rule addedI [OF a]) (simp_all add: set_function_other)
    have b: "lv_body ?l2 p = B_door c" "sc_specialdata (sector ?l2 (nat (vd_sector c))) = p" using c by simp_all
    have f: "th_function (lv_th ?l2 p) = special_function fnp ?a th (B_door c)"
      by (simp add: special_function_def saved_thinker_def)
    show "loads fnp (th, B_door c) (padding (f_pos (sg_file h)) + length (vldoor_bytes (th, c))) h xs
       ((\<lambda>(p, th, door, g).
       Some (bindE (set_special (vd_sector door) p (gm_level g)) (\<lambda>lv.
         Inr (g\<lparr>gm_level := P_AddThinker p (set_function p (fnp T_VerticalDoor) lv)\<rparr>)))) (p, saved_thinker ?a th, c, g))"
      by (rule loadsI [where p = p and lv = "P_AddThinker p ?l2"])
        (use ad b f c g in \<open>simp_all add: set_special_run active_level Let_def\<close>)
  qed
qed

lemma load_floor:
  assumes ok: "level_ok (gm_level h) xs" "item_ok (gm_level h) (th, B_floor c)"
    and u: "unread (sg_file h) (replicate (padding (f_pos (sg_file h))) 0 @ (floormove_bytes (th, c) @ cs))"
  shows "loads fnp (th, B_floor c) (padding (f_pos (sg_file h)) + length (floormove_bytes (th, c))) h xs (unarchive_floor fnp h)"
proof -
  let ?a = "sg_arch h" and ?lv = "gm_level h"
  have c: "floormove_ok (th, c)" "0 \<le> fm_sector c" "fm_sector c < int (length (lv_sectors ?lv))"
    using ok(2) by (simp_all add: item_ok_def)
  have rd: "takes p (saveg_read_floormove_t ?a) (floormove_bytes (th, c)) (saved_thinker ?a th, c)" for p
    using c_floormove.rd [OF c(1), of p ?a] by simp
  show ?thesis
    unfolding unarchive_floor_def
  proof (rule loads_step [OF ok(1) sizes_specials(5,6) u rd])
    fix p z g
    let ?l0 = "put_thinker p (saved_thinker ?a th) (B_floor c) (?lv\<lparr>lv_zone := z\<rparr>)"
    let ?l1 = "upd_sector (nat (fm_sector c)) (\<lambda>sc. sc\<lparr>sc_specialdata := p\<rparr>) ?l0"
    let ?l2 = "set_function p (fnp T_MoveFloor) ?l1"
    assume a: "level_ok (?lv\<lparr>lv_zone := z\<rparr>) xs" "p \<notin> set (lv_cap ?lv # xs)" "p \<in> kept (heap z)" "zarch z = larch ?lv"
      and g: "g = h\<lparr>sg_file := skip_bytes (padding (f_pos (sg_file h)) + length (floormove_bytes (th, c))) (sg_file h), gm_level := ?l0\<rparr>"
    have ad: "added ?lv (P_AddThinker p ?l2) xs p" by (rule addedI [OF a]) (simp_all add: set_function_other)
    have b: "lv_body ?l2 p = B_floor c" "sc_specialdata (sector ?l2 (nat (fm_sector c))) = p" using c by simp_all
    have f: "th_function (lv_th ?l2 p) = special_function fnp ?a th (B_floor c)"
      by (simp add: special_function_def saved_thinker_def)
    show "loads fnp (th, B_floor c) (padding (f_pos (sg_file h)) + length (floormove_bytes (th, c))) h xs
       ((\<lambda>(p, th, floor, g).
       Some (bindE (set_special (fm_sector floor) p (gm_level g)) (\<lambda>lv.
         Inr (g\<lparr>gm_level := P_AddThinker p (set_function p (fnp T_MoveFloor) lv)\<rparr>)))) (p, saved_thinker ?a th, c, g))"
      by (rule loadsI [where p = p and lv = "P_AddThinker p ?l2"])
        (use ad b f c g in \<open>simp_all add: set_special_run active_level Let_def\<close>)
  qed
qed

lemma load_plat:
  assumes ok: "level_ok (gm_level h) xs" "item_ok (gm_level h) (th, B_plat c)"
    and u: "unread (sg_file h) (replicate (padding (f_pos (sg_file h))) 0 @ (plat_bytes (th, c) @ cs))"
  shows "loads fnp (th, B_plat c) (padding (f_pos (sg_file h)) + length (plat_bytes (th, c))) h xs (unarchive_plat fnp h)"
proof -
  let ?a = "sg_arch h" and ?lv = "gm_level h"
  have c: "plat_ok (th, c)" "0 \<le> pl_sector c" "pl_sector c < int (length (lv_sectors ?lv))"
    using ok(2) by (simp_all add: item_ok_def)
  have rd: "takes p (saveg_read_plat_t ?a) (plat_bytes (th, c)) (saved_thinker ?a th, c)" for p
    using c_plat.rd [OF c(1), of p ?a] by simp
  show ?thesis
    unfolding unarchive_plat_def
  proof (rule loads_step [OF ok(1) sizes_specials(7,8) u rd])
    fix p z g
    let ?l0 = "put_thinker p (saved_thinker ?a th) (B_plat c) (?lv\<lparr>lv_zone := z\<rparr>)"
    let ?l1 = "upd_sector (nat (pl_sector c)) (\<lambda>sc. sc\<lparr>sc_specialdata := p\<rparr>) ?l0"
    let ?l2 = "(if th_function (saved_thinker ?a th) \<noteq> 0 then set_function p (fnp T_PlatRaise) ?l1 else ?l1)"
    assume a: "level_ok (?lv\<lparr>lv_zone := z\<rparr>) xs" "p \<notin> set (lv_cap ?lv # xs)" "p \<in> kept (heap z)" "zarch z = larch ?lv"
      and g: "g = h\<lparr>sg_file := skip_bytes (padding (f_pos (sg_file h)) + length (plat_bytes (th, c))) (sg_file h), gm_level := ?l0\<rparr>"
    have ad: "added ?lv (P_AddThinker p ?l2) xs p" by (rule addedI [OF a]) (simp_all add: set_function_other)
    have b: "lv_body ?l2 p = B_plat c" "sc_specialdata (sector ?l2 (nat (pl_sector c))) = p" using c by simp_all
    have f: "th_function (lv_th ?l2 p) = special_function fnp ?a th (B_plat c)"
      by (simp add: special_function_def saved_thinker_def)
    show "loads fnp (th, B_plat c) (padding (f_pos (sg_file h)) + length (plat_bytes (th, c))) h xs
       ((\<lambda>(p, th, plat, g).
       Some (bindE (set_special (pl_sector plat) p (gm_level g)) (\<lambda>lv.
         let lv = (if th_function th \<noteq> 0 then set_function p (fnp T_PlatRaise) lv else lv)
         in bindE (P_AddActivePlat p (P_AddThinker p lv)) (\<lambda>lv. Inr (g\<lparr>gm_level := lv\<rparr>))))) (p, saved_thinker ?a th, c, g))"
    proof (cases "add_active p (lv_plats (P_AddThinker p ?l2))")
      case None
      then show ?thesis using c g by (simp add: loads_def set_special_run Let_def P_AddActivePlat_def no_more_plats_def)
    next
      case (Some ps)
      let ?l3 = "(P_AddThinker p ?l2)\<lparr>lv_plats := ps\<rparr>"
      have "added ?lv ?l3 xs p" using ad by (simp add: added_def level_ok_def thinkers_def cap_outside_def)
      moreover have "P_AddActivePlat p (P_AddThinker p ?l2) = Inr ?l3" using Some by (simp add: P_AddActivePlat_def)
      ultimately show ?thesis
        by (intro loadsI [where p = p and lv = ?l3]) (use b f c g in \<open>simp_all add: set_special_run Let_def\<close>)
    qed
  qed
qed

lemma load_light:
  assumes ok: "level_ok (gm_level h) xs" and sz: "0 < sz" "sz \<le> INT_MAX - 64"
    and u: "unread (sg_file h) (replicate (padding (f_pos (sg_file h))) 0 @ (bs @ cs))"
    and rd: "\<And>p. takes p rd bs (saved_thinker (sg_arch h) th, c)"
    and f: "body_sector (mk c) = None" "special_function fnp (sg_arch h) th (mk c) = f"
  shows "loads fnp (th, mk c) (padding (f_pos (sg_file h)) + length bs) h xs (unarchive_light sz rd mk f h)"
  unfolding unarchive_light_def
proof (rule loads_step [OF ok sz u rd])
  let ?a = "sg_arch h" and ?lv = "gm_level h"
  fix p z g
  let ?l0 = "put_thinker p (saved_thinker ?a th) (mk c) (?lv\<lparr>lv_zone := z\<rparr>)"
  let ?l1 = "set_function p f ?l0"
  assume a: "level_ok (?lv\<lparr>lv_zone := z\<rparr>) xs" "p \<notin> set (lv_cap ?lv # xs)" "p \<in> kept (heap z)" "zarch z = larch ?lv"
    and g: "g = h\<lparr>sg_file := skip_bytes (padding (f_pos (sg_file h)) + length bs) (sg_file h), gm_level := ?l0\<rparr>"
  have ad: "added ?lv (P_AddThinker p ?l1) xs p" by (rule addedI [OF a]) (simp_all add: set_function_other)
  show "loads fnp (th, mk c) (padding (f_pos (sg_file h)) + length bs) h xs
     ((\<lambda>(p, th, light, g). Some (Inr (g\<lparr>gm_level := P_AddThinker p (set_function p f (gm_level g))\<rparr>)))
       (p, saved_thinker ?a th, c, g))"
    by (rule loadsI [where p = p and lv = "P_AddThinker p ?l1"]) (use ad f g in simp_all)
qed

lemma load_item:
  assumes ok: "level_ok (gm_level h) xs" "item_ok (gm_level h) (th, b)"
    and u: "unread (sg_file h) (replicate (padding (f_pos (sg_file h))) 0 @ (body_bytes th b @ cs))"
  shows "loads fnp (th, b) (padding (f_pos (sg_file h)) + length (body_bytes th b)) h xs (unarchive_special fnp (body_class b) h)"
proof (cases b)
  case (B_ceiling c)
  then show ?thesis using load_ceiling [of h xs th c cs fnp] ok u by (simp add: unarchive_special_def tc_defs Let_def)
next
  case (B_door c)
  then show ?thesis using load_door [of h xs th c cs fnp] ok u by (simp add: unarchive_special_def tc_defs Let_def)
next
  case (B_floor c)
  then show ?thesis using load_floor [of h xs th c cs fnp] ok u by (simp add: unarchive_special_def tc_defs Let_def)
next
  case (B_plat c)
  then show ?thesis using load_plat [of h xs th c cs fnp] ok u by (simp add: unarchive_special_def tc_defs Let_def)
next
  case (B_flash c)
  then have c: "lightflash_ok (th, c)" using ok(2) by (simp add: item_ok_def)
  have "loads fnp (th, B_flash c) (padding (f_pos (sg_file h)) + length (lightflash_bytes (th, c))) h xs
      (unarchive_light (sizeof_lightflash (sg_arch h)) (saveg_read_lightflash_t (sg_arch h)) B_flash (fnp T_LightFlash) h)"
    by (rule load_light [OF ok(1) sizes_ok(3,4)])
      (use u B_flash c_lightflash.rd [OF c] in \<open>simp_all add: special_function_def\<close>)
  then show ?thesis using B_flash by (simp add: unarchive_special_def tc_defs Let_def)
next
  case (B_strobe c)
  then have c: "strobe_ok (th, c)" using ok(2) by (simp add: item_ok_def)
  have "loads fnp (th, B_strobe c) (padding (f_pos (sg_file h)) + length (strobe_bytes (th, c))) h xs
      (unarchive_light (sizeof_strobe (sg_arch h)) (saveg_read_strobe_t (sg_arch h)) B_strobe (fnp T_StrobeFlash) h)"
    by (rule load_light [OF ok(1) sizes_ok(5,6)])
      (use u B_strobe c_strobe.rd [OF c] in \<open>simp_all add: special_function_def\<close>)
  then show ?thesis using B_strobe by (simp add: unarchive_special_def tc_defs Let_def)
next
  case (B_glow c)
  then have c: "glow_ok (th, c)" using ok(2) by (simp add: item_ok_def)
  have "loads fnp (th, B_glow c) (padding (f_pos (sg_file h)) + length (glow_bytes (th, c))) h xs
      (unarchive_light (sizeof_glow (sg_arch h)) (saveg_read_glow_t (sg_arch h)) B_glow (fnp T_Glow) h)"
    by (rule load_light [OF ok(1) sizes_ok(7,8)])
      (use u B_glow c_glow.rd [OF c] in \<open>simp_all add: special_function_def\<close>)
  then show ?thesis using B_glow by (simp add: unarchive_special_def tc_defs Let_def)
qed (use ok(2) in \<open>simp_all add: item_ok_def\<close>)

text \<open>The outcome of the loop.\<close>

definition specials_loaded :: "symbols \<Rightarrow> (thinker_t \<times> body) list \<Rightarrow> nat \<Rightarrow> game \<Rightarrow> int list \<Rightarrow> game result option \<Rightarrow> bool" where
  "specials_loaded fnp its n h xs r \<longleftrightarrow> r = Some (Inl alloc_failed) \<or> r = Some (Inl no_more_plats) \<or>
     (\<exists>ps lv. r = Some (Inr (h\<lparr>sg_file := skip_bytes n (sg_file h), gm_level := lv\<rparr>)) \<and> level_ok lv (xs @ ps) \<and>
        map (lv_body lv) ps = map snd its \<and>
        map (\<lambda>p. th_function (lv_th lv p)) ps = map (\<lambda>(th, b). special_function fnp (sg_arch h) th b) its \<and>
        (\<forall>y\<in>set xs. th_function (lv_th lv y) = th_function (lv_th (gm_level h) y) \<and> lv_body lv y = lv_body (gm_level h) y))"

lemma body_class_end: "body_ok th b \<Longrightarrow> body_class b \<noteq> tc_endspecials"
  by (cases b) (simp_all add: tc_defs)

lemma specials_read:
  assumes "level_ok (gm_level h) xs" "\<forall>it\<in>set its. item_ok (gm_level h) it"
    "unread (sg_file h) (stream_bytes special_bytes p its @ [tc_endspecials] @ cs)" "f_pos (sg_file h) mod 4 = p mod 4"
  shows "specials_loaded fnp its (Suc (length (stream_bytes special_bytes p its))) h xs (P_UnArchiveSpecials fnp h)"
  using assms
proof (induction its arbitrary: p h xs)
  case Nil
  have "run_state saveg_read8 h = (tc_endspecials, h\<lparr>sg_file := skip_bytes 1 (sg_file h)\<rparr>)"
    using run_takes [OF takes8, of h tc_endspecials cs] Nil.prems(3) by simp
  then have "P_UnArchiveSpecials fnp h = Some (Inr (h\<lparr>sg_file := skip_bytes 1 (sg_file h)\<rparr>))"
    by (subst P_UnArchiveSpecials.simps) simp
  then show ?case
    unfolding specials_loaded_def using Nil.prems(1) by (intro disjI2 exI [of _ "[]"] exI [of _ "gm_level h"]) simp
next
  case (Cons it its)
  obtain th b where it: "it = (th, b)" by fastforce
  let ?k = "body_class b" and ?bs = "body_bytes th b"
  let ?b = "special_bytes p it"
  let ?rest = "stream_bytes special_bytes (p + length ?b) its"
  have iok: "item_ok (gm_level h) (th, b)" using Cons.prems(2) it by simp
  then have k: "?k \<noteq> tc_endspecials" using body_class_end [of th b] by (simp add: item_ok_def)
  have bb: "?b = ?k # replicate (padding (p + 1)) 0 @ ?bs" by (simp add: special_bytes_def item_bytes_def it)
  have u: "unread (sg_file h) ([?k] @ (replicate (padding (p + 1)) 0 @ (?bs @ (?rest @ [tc_endspecials] @ cs))))"
    using Cons.prems(3) by (simp add: bb)
  let ?h = "h\<lparr>sg_file := skip_bytes 1 (sg_file h)\<rparr>"
  have r: "run_state saveg_read8 h = (?k, ?h)" using run_takes [OF takes8 u] by simp
  have m1: "f_pos (sg_file ?h) mod 4 = (p + 1) mod 4" using mod_add_cong [OF Cons.prems(4), of 1 1] by simp
  then have pad: "padding (f_pos (sg_file ?h)) = padding (p + 1)" by (rule padding_cong)
  have u1: "unread (sg_file ?h) (replicate (padding (f_pos (sg_file ?h))) 0 @ (?bs @ (?rest @ [tc_endspecials] @ cs)))"
    using unread_skip [OF u] unfolding pad by simp
  let ?n = "padding (f_pos (sg_file ?h)) + length ?bs"
  have n: "length ?b = 1 + ?n" unfolding bb pad by simp
  have l: "loads fnp (th, b) ?n ?h xs (unarchive_special fnp ?k ?h)"
    by (rule load_item [OF _ _ u1]) (use Cons.prems(1) iok in simp_all)
  have step: "P_UnArchiveSpecials fnp h = bindO (unarchive_special fnp ?k ?h) (P_UnArchiveSpecials fnp)"
    by (subst P_UnArchiveSpecials.simps) (simp add: r k bindO_def)
  from l show ?case
    unfolding loads_def
  proof (elim disjE exE conjE)
    fix q lv
    assume s: "unarchive_special fnp ?k ?h = Some (Inr (?h\<lparr>sg_file := skip_bytes ?n (sg_file ?h), gm_level := lv\<rparr>))"
      and ad: "added (gm_level ?h) lv xs q" and bq: "lv_body lv q = snd (th, b)"
      and fq: "th_function (lv_th lv q) = special_function fnp (sg_arch ?h) (fst (th, b)) (snd (th, b))"
    let ?h2 = "?h\<lparr>sg_file := skip_bytes ?n (sg_file ?h), gm_level := lv\<rparr>"
    have step2: "P_UnArchiveSpecials fnp h = P_UnArchiveSpecials fnp ?h2" unfolding step s bindO_simps ..
    have f2: "sg_file ?h2 = skip_bytes (length ?b) (sg_file h)" unfolding n by simp
    have "specials_loaded fnp its (Suc (length ?rest)) ?h2 (xs @ [q]) (P_UnArchiveSpecials fnp ?h2)"
    proof (rule Cons.IH)
      show "level_ok (gm_level ?h2) (xs @ [q])" using ad by (simp add: added_def)
      show "\<forall>it\<in>set its. item_ok (gm_level ?h2) it" using Cons.prems(2) ad by (simp add: added_def item_ok_def)
      have "unread (sg_file h) (?b @ (?rest @ [tc_endspecials] @ cs))" using Cons.prems(3) by simp
      from unread_skip [OF this] show "unread (sg_file ?h2) (?rest @ [tc_endspecials] @ cs)" unfolding f2 .
      show "f_pos (sg_file ?h2) mod 4 = (p + length ?b) mod 4"
        unfolding f2 using mod_add_cong [OF Cons.prems(4) refl] by simp
    qed
    then show ?thesis
      unfolding specials_loaded_def
    proof (elim disjE exE conjE)
      fix ps lv'
      assume e: "P_UnArchiveSpecials fnp ?h2 = Some (Inr (?h2\<lparr>sg_file := skip_bytes (Suc (length ?rest)) (sg_file ?h2), gm_level := lv'\<rparr>))"
        and o: "level_ok lv' ((xs @ [q]) @ ps)" and mb: "map (lv_body lv') ps = map snd its"
        and mf: "map (\<lambda>p. th_function (lv_th lv' p)) ps = map (\<lambda>(th, b). special_function fnp (sg_arch ?h2) th b) its"
        and same: "\<forall>y\<in>set (xs @ [q]). th_function (lv_th lv' y) = th_function (lv_th (gm_level ?h2) y) \<and> lv_body lv' y = lv_body (gm_level ?h2) y"
      have res: "P_UnArchiveSpecials fnp h = Some (Inr (h\<lparr>sg_file := skip_bytes (Suc (length (stream_bytes special_bytes p (it # its)))) (sg_file h),
          gm_level := lv'\<rparr>))"
        unfolding step2 e f2 by (simp add: n)
      have "level_ok lv' (xs @ (q # ps))" using o by simp
      moreover have "map (lv_body lv') (q # ps) = map snd (it # its)" using mb same bq it by simp
      moreover have "map (\<lambda>p. th_function (lv_th lv' p)) (q # ps) = map (\<lambda>(th, b). special_function fnp (sg_arch h) th b) (it # its)"
        using mf same fq it by simp
      moreover have "\<forall>y\<in>set xs. th_function (lv_th lv' y) = th_function (lv_th (gm_level h) y) \<and> lv_body lv' y = lv_body (gm_level h) y"
        using same ad by (simp add: added_def)
      ultimately show "P_UnArchiveSpecials fnp h = Some (Inl alloc_failed) \<or> P_UnArchiveSpecials fnp h = Some (Inl no_more_plats) \<or>
        (\<exists>ps lv. P_UnArchiveSpecials fnp h = Some (Inr (h\<lparr>sg_file := skip_bytes (Suc (length (stream_bytes special_bytes p (it # its)))) (sg_file h), gm_level := lv\<rparr>)) \<and> level_ok lv (xs @ ps) \<and>
        map (lv_body lv) ps = map snd (it # its) \<and>
        map (\<lambda>p. th_function (lv_th lv p)) ps = map (\<lambda>(th, b). special_function fnp (sg_arch h) th b) (it # its) \<and>
        (\<forall>y\<in>set xs. th_function (lv_th lv y) = th_function (lv_th (gm_level h) y) \<and> lv_body lv y = lv_body (gm_level h) y))"
        using res by blast
    qed (simp_all add: step2)
  qed (simp_all add: specials_loaded_def step)
qed

section \<open>Round trips\<close>

lemma saved_ptr_0 [simp]: "saved_ptr arch 0 = 0"
  by (cases arch) (simp_all add: u32_def i32_def)

lemma special_function_saved:
  assumes "specials_ok fnp lv xs" "x \<in> set xs" "is_saved fnp lv x" "\<forall>a. saved_ptr arch (fnp a) \<noteq> 0"
  shows "special_function fnp arch (lv_th lv x) (lv_body lv x) = th_function (lv_th lv x)"
proof (cases "th_function (lv_th lv x) = 0")
  case True
  then have "body_action (lv_body lv x) = Some T_MoveCeiling" using assms unfolding specials_ok_def by auto
  then show ?thesis using True by (simp add: special_function_def)
next
  case False
  have "if th_function (lv_th lv x) = 0 then body_action (lv_body lv x) = Some T_MoveCeiling
      else \<exists>a. body_action (lv_body lv x) = Some a \<and> th_function (lv_th lv x) = fnp a"
    using assms(1-3) unfolding specials_ok_def by blast
  with False obtain a where "body_action (lv_body lv x) = Some a" "th_function (lv_th lv x) = fnp a" by auto
  then show ?thesis using assms(4) by (simp add: special_function_def)
qed

text \<open>
  C25. The movers and lights in a saved game: \<open>P_ArchiveSpecials\<close> writes the thinkers of
  the list that are movers or lights, in order, and \<open>P_UnArchiveSpecials\<close>, which always
  returns, appends to the list of the loaded level the same movers and lights with the
  same functions, unless the zone is exhausted or there are too many platforms; the thinkers
  that were there are left alone.
\<close>

theorem specials_roundtrip:
  assumes "thinkers (gm_level g) xs" "specials_ok fnp (gm_level g) xs"
    "at_end (sg_file g) (Suc (length (stream_bytes special_bytes (f_pos (sg_file g)) (saved_items fnp (gm_level g) xs))))"
    "level_ok (gm_level h) ys" "\<forall>it\<in>set (saved_items fnp (gm_level g) xs). item_ok (gm_level h) it"
    "\<forall>a. saved_ptr (sg_arch h) (fnp a) \<noteq> 0" "f_pos (sg_file h) mod 4 = f_pos (sg_file g) mod 4"
    "unread (sg_file h) ((stream_bytes special_bytes (f_pos (sg_file g)) (saved_items fnp (gm_level g) xs) @ [tc_endspecials]) @ cs)"
  shows "P_ArchiveSpecials fnp g = Some (Inr (g\<lparr>sg_file := put_bytes
      (stream_bytes special_bytes (f_pos (sg_file g)) (saved_items fnp (gm_level g) xs) @ [tc_endspecials]) (sg_file g)\<rparr>)) \<and>
    (P_UnArchiveSpecials fnp h = Some (Inl alloc_failed) \<or> P_UnArchiveSpecials fnp h = Some (Inl no_more_plats) \<or>
     (\<exists>ps h'. P_UnArchiveSpecials fnp h = Some (Inr h') \<and> level_ok (gm_level h') (ys @ ps) \<and>
        map (cell (gm_level h')) ps = map (cell (gm_level g)) (filter (is_saved fnp (gm_level g)) xs) \<and>
        (\<forall>y\<in>set ys. cell (gm_level h') y = cell (gm_level h) y) \<and> unread (sg_file h') cs))"
proof (rule conjI)
  let ?lv = "gm_level g" and ?p = "f_pos (sg_file g)"
  let ?its = "saved_items fnp ?lv xs"
  let ?bs = "stream_bytes special_bytes ?p ?its"
  show "P_ArchiveSpecials fnp g = Some (Inr (g\<lparr>sg_file := put_bytes (?bs @ [tc_endspecials]) (sg_file g)\<rparr>))"
    by (rule specials_write [OF assms(2,1,3)])
  have u: "unread (sg_file h) (?bs @ [tc_endspecials] @ cs)" using assms(8) by simp
  have fs: "map (\<lambda>(th, b). special_function fnp (sg_arch h) th b) ?its = map (\<lambda>x. th_function (lv_th ?lv x)) (filter (is_saved fnp ?lv) xs)"
    unfolding saved_items_def using special_function_saved [OF assms(2) _ _ assms(6)] by simp
  have bs: "map snd ?its = map (lv_body ?lv) (filter (is_saved fnp ?lv) xs)" by (simp add: saved_items_def)
  have zip: "map (cell lv') ps = map (cell lv) qs" if "map (lv_body lv') ps = map (lv_body lv) qs"
    "map (\<lambda>p. th_function (lv_th lv' p)) ps = map (\<lambda>p. th_function (lv_th lv p)) qs" for lv' lv ps qs
    using that by (induction ps qs rule: list_induct2') (simp_all add: cell_def)
  from specials_read [OF assms(4,5) u assms(7), of fnp]
  show "P_UnArchiveSpecials fnp h = Some (Inl alloc_failed) \<or> P_UnArchiveSpecials fnp h = Some (Inl no_more_plats) \<or>
     (\<exists>ps h'. P_UnArchiveSpecials fnp h = Some (Inr h') \<and> level_ok (gm_level h') (ys @ ps) \<and>
        map (cell (gm_level h')) ps = map (cell ?lv) (filter (is_saved fnp ?lv) xs) \<and>
        (\<forall>y\<in>set ys. cell (gm_level h') y = cell (gm_level h) y) \<and> unread (sg_file h') cs)"
    unfolding specials_loaded_def
  proof (elim disjE exE conjE)
    fix ps lv'
    assume r: "P_UnArchiveSpecials fnp h = Some (Inr (h\<lparr>sg_file := skip_bytes (Suc (length ?bs)) (sg_file h), gm_level := lv'\<rparr>))"
      and o: "level_ok lv' (ys @ ps)" and b: "map (lv_body lv') ps = map snd ?its"
      and f: "map (\<lambda>p. th_function (lv_th lv' p)) ps = map (\<lambda>(th, b). special_function fnp (sg_arch h) th b) ?its"
      and s: "\<forall>y\<in>set ys. th_function (lv_th lv' y) = th_function (lv_th (gm_level h) y) \<and> lv_body lv' y = lv_body (gm_level h) y"
    have "map (cell lv') ps = map (cell ?lv) (filter (is_saved fnp ?lv) xs)" using zip [OF b [unfolded bs] f [unfolded fs]] .
    moreover have "unread (skip_bytes (Suc (length ?bs)) (sg_file h)) cs"
      using unread_skip [OF assms(8)] by simp
    ultimately show ?thesis using r o s by (intro disjI2 exI [of _ ps] exI [of _ "h\<lparr>sg_file := skip_bytes (Suc (length ?bs)) (sg_file h), gm_level := lv'\<rparr>"]) (simp add: cell_def)
  qed simp_all
qed

text \<open>
  C26. A platform that has been stopped is not saved, unlike a ceiling that has been stopped,
  and neither is a flickering light: the step of \<open>P_ArchiveSpecials\<close> for such a thinker
  writes nothing.
\<close>

theorem stopped_plat_not_saved:
  assumes "active_ok lv" "EV_StopPlat ln lv = Inr lv'" "p \<in> set (lv_plats lv)" "p \<noteq> 0"
    "lv_body lv p = B_plat c" "pl_tag c = ln_tag ln" "pl_status c \<noteq> in_stasis"
    "inj fnp" "fnp T_FireFlicker \<noteq> 0" "th_function (lv_th lv q) = fnp T_FireFlicker"
  shows "archive_special fnp p (g\<lparr>gm_level := lv'\<rparr>) = Inr (g\<lparr>gm_level := lv'\<rparr>) \<and>
    archive_special fnp q (g\<lparr>gm_level := lv\<rparr>) = Inr (g\<lparr>gm_level := lv\<rparr>)"
proof
  have d: "distinct (removeAll 0 (lv_plats lv))" "\<forall>p\<in>set (lv_plats lv). p \<noteq> 0 \<longrightarrow> is_plat (cell lv p)"
    and c: "\<forall>p\<in>set (lv_ceilings lv). p \<noteq> 0 \<longrightarrow> is_ceiling (cell lv p)"
    using assms(1) unfolding active_ok_def by blast+
  have s: "same_frame lv lv'" "cell lv' p = stopped_plat (ln_tag ln) (cell lv p)"
    using stop_plat.loop [OF d, of ln] assms(2-4) by (auto simp: EV_StopPlat_def)
  have "th_function (lv_th lv' p) = 0" using s(2) assms(5-7) by (simp add: cell_def)
  moreover have "p \<notin> set (lv_ceilings lv')"
  proof
    assume "p \<in> set (lv_ceilings lv')"
    then have "is_ceiling (cell lv p)" using c assms(4) s(1) by (simp add: same_frame_def)
    then show False using assms(5) by (simp add: is_ceiling_def cell_def)
  qed
  ultimately show "archive_special fnp p (g\<lparr>gm_level := lv'\<rparr>) = Inr (g\<lparr>gm_level := lv'\<rparr>)"
    by (auto simp: archive_special_def Let_def dest: in_set_takeD)
  show "archive_special fnp q (g\<lparr>gm_level := lv\<rparr>) = Inr (g\<lparr>gm_level := lv\<rparr>)"
    using assms(8-10) by (simp add: archive_special_def Let_def inj_eq)
qed

text \<open>
  C27. A map object in a saved game: 154 bytes that read back as the same object, except
  that pointers to other objects keep only their low 32 bits. Reading it into the block \<open>str\<close> makes the player the
  object belongs to point to \<open>str\<close> and changes nothing else of the game; when the game
  has no such player, the assignment is outside the array.
\<close>

theorem mobj_roundtrip:
  fixes g :: game
  assumes "mobj_ok (th, m)" "at_end (sg_file g) 154"
  shows "\<exists>g' h. run_state (saveg_write_mobj_t (th, m)) g = ((), g') \<and> sg_error g' = sg_error g \<and>
    f_pos (sg_file g') = f_pos (sg_file g) + 154 \<and>
    h = (reopen (f_pos (sg_file g)) g')\<lparr>sg_file := skip_bytes 154 (sg_file (reopen (f_pos (sg_file g)) g'))\<rparr> \<and>
    (case mo_player m of
       None \<Rightarrow> run_state (saveg_read_mobj_t arch str) (reopen (f_pos (sg_file g)) g') =
         (Inr (saved_thinker arch th, saved_mobj arch m), h)
     | Some i \<Rightarrow>
         if nat i < length (gm_players g) then
           run_state (saveg_read_mobj_t arch str) (reopen (f_pos (sg_file g)) g') =
             (Inr (saved_thinker arch th, saved_mobj arch m),
              h\<lparr>gm_players := (gm_players g)[nat i := (gm_players g ! nat i)\<lparr>pr_mo := str\<rparr>]\<rparr>)
         else fst (run_state (saveg_read_mobj_t arch str) (reopen (f_pos (sg_file g)) g')) = Inl Bad_Access)"
proof -
  let ?g = "g\<lparr>sg_file := put_bytes (mobj_bytes (th, m)) (sg_file g)\<rparr>"
  let ?t = "reopen (f_pos (sg_file g)) ?g"
  have at: "at_end (sg_file g) (length (mobj_bytes (th, m)))" using assms(2) by (simp add: mobj_width)
  have w: "run_state (saveg_write_mobj_t (th, m)) g = ((), ?g)" by (rule emitsD [OF emits_mobj [OF assms(1)] at refl])
  have "unread (sg_file ?t) (mobj_bytes (th, m) @ [])"
    using assms(2) by (simp add: reopen_def unread_def file_readable_def put_bytes_def at_end_def file_consts)
  then have "mobj_read str m (saved_thinker arch th, saved_mobj arch m)
      (?t\<lparr>sg_file := skip_bytes 154 (sg_file ?t)\<rparr>) (run_state (saveg_read_mobj_t arch str) ?t)"
    using mobj_reads [OF assms(1), of "f_pos (sg_file ?t)" arch str] unfolding reads_to_def mobj_width by blast
  moreover have "gm_players ?t = gm_players g" by (simp add: reopen_def)
  ultimately show ?thesis
    using w by (auto simp: mobj_read_def owner_in_def linked_def mobj_width put_bytes_def split: option.splits if_splits)
qed

section \<open>Errors that go unnoticed\<close>

definition stuck :: "FILE \<Rightarrow> bool" where
  "stuck f \<longleftrightarrow> f_flags f AND O_ACCMODE = O_RDONLY \<or> drv_write (f_drv f) = None \<or>
     int (f_pos f) = f_size f \<and> (\<exists>e. e \<noteq> 0 \<and> fsdev_truncate (f_pos f + 1) f = (e, f))"

lemma stuck_fwrite: "stuck f \<Longrightarrow> fwrite arch 1 [b] f = (size_t arch (- 1), f)"
  using fwrite_read_only [of f arch "[b]"] fwrite_full [of f _ arch b] unfolding stuck_def by blast

lemma stuck8: "stuck (sg_file s) \<Longrightarrow> run_state (saveg_write8 v) s = ((), s)"
  using stuck_fwrite [of "sg_file s" "sg_arch s" "u8 v"] size_t_error [of "sg_arch s"]
  by (simp add: saveg_write8_def)

lemma stuck_each: "stuck (sg_file s) \<Longrightarrow> run_state (for_each saveg_write8 bs) s = ((), s)"
  by (induction bs) (simp_all add: stuck8)

text \<open>
  C28. When the file cannot be written, because its position is at the end and the device cannot make it larger,
  because its driver cannot write or because the file was
  opened for reading, the header and the end mark of a saved game vanish without an error: the state is
  the same as before, \<open>savegame_error\<close> included. Whether \<open>fopen\<close> opens for reading depends
  on the name of the file and not on the mode.
\<close>

theorem save_error_unnoticed:
  assumes "f_flags (sg_file g) = fopen_flags fn \<and> (CHR ''r'' \<in> set fn \<or> CHR ''w'' \<notin> set fn) \<or>
      drv_write (f_drv (sg_file g)) = None \<or>
      int (f_pos (sg_file g)) = f_size (sg_file g) \<and> fsdev_truncate (f_pos (sg_file g) + 1) (sg_file g) = (e, sg_file g) \<and> e \<noteq> 0"
    "G_VanillaVersionCode (gm_version g) = Inr code"
  shows "P_WriteSaveGameHeader d g = Inr g \<and> exec P_WriteSaveGameEOF g = g"
proof -
  have s: "stuck (sg_file g)" using assms(1) fopen_read_only [of fn] by (auto simp: stuck_def)
  have "exec (write_description d) g = g" using s by (simp add: exec_def write_description_def stuck_each)
  moreover have "exec (write_header_rest code) g = g" using s by (simp add: exec_def write_header_rest_def stuck_each stuck8)
  moreover have "exec P_WriteSaveGameEOF g = g" using s by (simp add: exec_def P_WriteSaveGameEOF_def stuck8)
  ultimately show ?thesis using assms(2) by (simp add: P_WriteSaveGameHeader_def)
qed

section \<open>Witnesses\<close>

definition demo_ceiling :: ceiling_t where
  "demo_ceiling = \<lparr>cl_type = 3, cl_sector = 0, cl_bottomheight = 524288, cl_topheight = 8388608, cl_speed = 65536, cl_crush = 1,
     cl_direction = - 1, cl_tag = 0, cl_olddirection = 1\<rparr>"

definition one_crusher :: game where
  "one_crusher = demo_game\<lparr>gm_level := three_rooms\<lparr>
     lv_th := (\<lambda>_. \<lparr>th_prev = 100, th_next = 100, th_function = 0\<rparr>)
       (100 := \<lparr>th_prev = 2000, th_next = 2000, th_function = 4128\<rparr>),
     lv_body := (\<lambda>_. No_Body)(100 := B_ceiling demo_ceiling)\<rparr>\<rparr>"

definition no_crusher :: "int list \<Rightarrow> game" where
  "no_crusher bs = demo_game\<lparr>sg_file := load_file bs, gm_level := three_rooms\<rparr>"

lemma demo_symbols_low: "demo_symbols a \<noteq> 0" "saved_ptr LP64 (demo_symbols a) \<noteq> 0"
proof -
  have "0 < demo_symbols a" "demo_symbols a < 5000" by (cases a; simp)+
  moreover from this have "i32 (demo_symbols a) = demo_symbols a" by (intro i32_id) (simp add: is_i32_iff)
  ultimately show "demo_symbols a \<noteq> 0" "saved_ptr LP64 (demo_symbols a) \<noteq> 0" by simp_all
qed

theorem specials_roundtrip_witness:
  "\<exists>bs. P_ArchiveSpecials demo_symbols one_crusher = Some (Inr (one_crusher\<lparr>sg_file := put_bytes bs save_file\<rparr>)) \<and>
     P_UnArchiveSpecials demo_symbols (no_crusher bs) \<noteq> None"
proof -
  let ?lv = "gm_level one_crusher"
  have t: "lv_th ?lv 100 = \<lparr>th_prev = 2000, th_next = 2000, th_function = 4128\<rparr>" "lv_body ?lv 100 = B_ceiling demo_ceiling"
    "sg_file one_crusher = save_file" "f_pos save_file = 0" "lv_cap ?lv = 2000"
    by (simp_all add: one_crusher_def demo_game_def save_file_def three_rooms_def)
  have th: "thinkers ?lv [100]" by (simp add: thinkers_def one_crusher_def demo_game_def three_rooms_def)
  have sv: "is_saved demo_symbols ?lv 100" unfolding is_saved_def Let_def t by auto
  have cok: "ceiling_ok (lv_th ?lv 100, demo_ceiling)" by (simp add: ceiling_ok_def demo_ceiling_def is_i32_iff)
  have ok: "specials_ok demo_symbols ?lv [100]"
    using sv cok t inj_demo demo_symbols_low(1) by (auto simp: specials_ok_def)
  have its: "saved_items demo_symbols ?lv [100] = [(lv_th ?lv 100, B_ceiling demo_ceiling)]" using sv t by (simp add: saved_items_def)
  let ?bs = "stream_bytes special_bytes (f_pos (sg_file one_crusher)) (saved_items demo_symbols ?lv [100]) @ [tc_endspecials]"
  have "length ?bs \<le> 100000"
    using c_ceiling.width [OF cok] unfolding t its by (simp add: special_bytes_def item_bytes_def padding_def)
  then have a: "at_end (sg_file one_crusher) (Suc (length (stream_bytes special_bytes (f_pos (sg_file one_crusher)) (saved_items demo_symbols ?lv [100]))))"
    unfolding t(3) by (intro at_end_save_file) simp
  let ?h = "no_crusher ?bs"
  have h: "level_ok (gm_level ?h) []" "\<forall>it\<in>set (saved_items demo_symbols ?lv [100]). item_ok (gm_level ?h) it"
    "\<forall>a. saved_ptr (sg_arch ?h) (demo_symbols a) \<noteq> 0" "f_pos (sg_file ?h) mod 4 = f_pos (sg_file one_crusher) mod 4"
    "unread (sg_file ?h) (?bs @ [])"
    using three_rooms_ok(1) demo_symbols_low(2) cok unread_load_file [of ?bs] t
    by (simp_all add: no_crusher_def its item_ok_def three_rooms_def demo_ceiling_def demo_game_def load_file_def)
  have "P_ArchiveSpecials demo_symbols one_crusher = Some (Inr (one_crusher\<lparr>sg_file := put_bytes ?bs save_file\<rparr>))"
    "P_UnArchiveSpecials demo_symbols ?h \<noteq> None"
    using specials_roundtrip [OF th ok a h] unfolding t(3) by auto
  then show ?thesis by blast
qed

theorem stopped_plat_not_saved_witness:
  "\<exists>lv'. EV_StopPlat (two_sided_line 0 1) (crusher_level\<lparr>lv_body := (lv_body crusher_level)(200 := B_plat \<lparr>pl_sector = 1, pl_speed = 1,
       pl_low = 0, pl_high = 64, pl_wait = 105, pl_count = 0, pl_status = 1, pl_oldstatus = 1, pl_crush = 0, pl_tag = 0, pl_type = 0\<rparr>),
       lv_th := (\<lambda>_. \<lparr>th_prev = 0, th_next = 0, th_function = 4352\<rparr>)\<rparr>) = Inr lv' \<and>
     archive_special demo_symbols 200 (demo_game\<lparr>gm_level := lv'\<rparr>) = Inr (demo_game\<lparr>gm_level := lv'\<rparr>)"
proof -
  let ?p = "\<lparr>pl_sector = 1, pl_speed = 1, pl_low = 0, pl_high = 64, pl_wait = 105, pl_count = 0, pl_status = 1, pl_oldstatus = 1,
    pl_crush = 0, pl_tag = 0, pl_type = 0\<rparr>"
  let ?lv = "crusher_level\<lparr>lv_body := (lv_body crusher_level)(200 := B_plat ?p), lv_th := (\<lambda>_. \<lparr>th_prev = 0, th_next = 0, th_function = 4352\<rparr>)\<rparr>"
  have ok: "active_ok ?lv" by (simp add: active_ok_def crusher_level_def cell_def is_ceiling_def is_plat_def)
  have p: "200 \<in> set (lv_plats ?lv)" "(200::int) \<noteq> 0" "lv_body ?lv 200 = B_plat ?p" "pl_tag ?p = ln_tag (two_sided_line 0 1)"
    "pl_status ?p \<noteq> in_stasis" "demo_symbols T_FireFlicker \<noteq> 0" "th_function (lv_th ?lv 300) = demo_symbols T_FireFlicker"
    by (simp_all add: crusher_level_def two_sided_line_def in_stasis_def)
  obtain lv' where "EV_StopPlat (two_sided_line 0 1) ?lv = Inr lv'" using plats_restart [OF ok] by blast
  moreover note stopped_plat_not_saved [OF ok this p(1-5) inj_demo p(6,7), of demo_game]
  ultimately show ?thesis by blast
qed

definition demo_mobj :: mobj_t where
  "demo_mobj = \<lparr>mo_x = 65536, mo_y = - 65536, mo_z = 0, mo_snext = 0, mo_sprev = 0, mo_angle = 3221225472, mo_sprite = 28, mo_frame = 0,
     mo_bnext = 0, mo_bprev = 0, mo_subsector = 4096, mo_floorz = 0, mo_ceilingz = 8388608, mo_radius = 1048576, mo_height = 3670016,
     mo_momx = 0, mo_momy = 0, mo_momz = 0, mo_validcount = 1, mo_type = 0, mo_info = 8192, mo_tics = - 1, mo_state = 149,
     mo_flags = 33571846, mo_health = 100, mo_movedir = 0, mo_movecount = 0, mo_target = 4294967296 + 42, mo_reactiontime = 0,
     mo_threshold = 0, mo_player = Some 0, mo_lastlook = 3,
     mo_spawnpoint = \<lparr>mt_x = 1, mt_y = - 1, mt_angle = 90, mt_type = 1, mt_options = 7\<rparr>, mo_tracer = 0\<rparr>"

theorem mobj_roundtrip_witness:
  "\<exists>g'. run_state (saveg_write_mobj_t (\<lparr>th_prev = 0, th_next = 0, th_function = 4096\<rparr>, demo_mobj)) demo_game = ((), g') \<and>
     (\<exists>th m h. run_state (saveg_read_mobj_t LP64 4096) (reopen 0 g') = (Inr (th, m), h) \<and> mo_target m = 42 \<and>
        pr_mo (gm_players demo_game ! 0) = 4660 \<and> pr_mo (gm_players h ! 0) = 4096)"
proof -
  let ?th = "\<lparr>th_prev = 0, th_next = 0, th_function = 4096 :: int\<rparr>"
  have ok: "mobj_ok (?th, demo_mobj)"
    by (simp add: mobj_ok_def demo_mobj_def player_number_def mapthing_ok_def is_i32_iff is_i16_def)
  have a: "at_end (sg_file demo_game) 154" using at_end_save_file [of 154] by (simp add: demo_game_def)
  have t: "mo_target (saved_mobj LP64 demo_mobj) = 42"
    by (simp add: saved_mobj_def demo_mobj_def i32_def signed_take_bit_eq_take_bit_shift take_bit_eq_mod)
  have p: "f_pos (sg_file demo_game) = 0" by (simp add: demo_game_def save_file_def)
  have pl: "mo_player demo_mobj = Some 0" by (simp add: demo_mobj_def)
  have ps: "length (gm_players demo_game) = 4" "pr_mo (gm_players demo_game ! 0) = 4660"
    by (simp_all add: demo_game_def demo_player_def)
  then show ?thesis
    using mobj_roundtrip [OF ok a, of LP64 4096] t unfolding p pl by (auto simp: numeral_eq_Suc)
qed

text \<open>On a device of three bytes that are used, and in a file that was opened for reading because of its name.\<close>

theorem save_error_unnoticed_witness:
  "P_WriteSaveGameHeader [72, 69, 76, 76] (demo_game\<lparr>sg_file := \<lparr>f_drv = memory_driver 100000, f_data = [], f_pos = 0, f_size = 0,
     f_flags = fopen_flags ''temp.dsg''\<rparr>\<rparr>) =
     Inr (demo_game\<lparr>sg_file := \<lparr>f_drv = memory_driver 100000, f_data = [], f_pos = 0, f_size = 0, f_flags = fopen_flags ''temp.dsg''\<rparr>\<rparr>) \<and>
   P_WriteSaveGameHeader [72, 69, 76, 76] (demo_game\<lparr>sg_file := \<lparr>f_drv = memory_driver 3, f_data = [1, 2, 3], f_pos = 3, f_size = 3, f_flags = 1\<rparr>\<rparr>) =
     Inr (demo_game\<lparr>sg_file := \<lparr>f_drv = memory_driver 3, f_data = [1, 2, 3], f_pos = 3, f_size = 3, f_flags = 1\<rparr>\<rparr>)"
  using save_error_unnoticed [of "demo_game\<lparr>sg_file := \<lparr>f_drv = memory_driver 100000, f_data = [], f_pos = 0, f_size = 0,
      f_flags = fopen_flags ''temp.dsg''\<rparr>\<rparr>" "''temp.dsg''" 0 109]
    save_error_unnoticed [of "demo_game\<lparr>sg_file := \<lparr>f_drv = memory_driver 3, f_data = [1, 2, 3], f_pos = 3, f_size = 3, f_flags = 1\<rparr>\<rparr>"
      "''temp.dsg''" "- 28" 109]
  by (simp add: demo_game_def fsdev_truncate_def memory_driver_def)

end
