(* ===== verification/Cstring.thy ===== *)
theory Cstring
  imports Input
begin

text \<open>
  The character and string functions of barebox that the game calls (\<^verbatim>\<open>linux/ctype.h\<close>,
  \<^verbatim>\<open>lib/string.c\<close>). A character is its value as \<open>unsigned char\<close>; a string is the list of
  the characters that can be read, and beyond the end of the list is the terminator.
\<close>

section \<open>Characters\<close>

definition ismask :: "int \<Rightarrow> int" where
  "ismask c = ctype_table ! nat (take_bit 8 c)"

definition isupper :: "int \<Rightarrow> bool" where
  "isupper c \<longleftrightarrow> ismask c AND 1 \<noteq> 0"

definition islower :: "int \<Rightarrow> bool" where
  "islower c \<longleftrightarrow> ismask c AND 2 \<noteq> 0"

definition tolower :: "int \<Rightarrow> int" where
  "tolower c = (let c = u8 c in if isupper c then u8 (c - (65 - 97)) else c)"

definition toupper :: "int \<Rightarrow> int" where
  "toupper c = (let c = u8 c in if islower c then u8 (c - (97 - 65)) else c)"

definition byte :: "int \<Rightarrow> bool" where
  "byte c \<longleftrightarrow> 0 \<le> c \<and> c < 256"

lemma length_ctype: "length ctype_table = 256"
  by (simp add: ctype_table_def)

section \<open>Strings\<close>

definition char_at :: "int list \<Rightarrow> int" where
  "char_at s = (case s of [] \<Rightarrow> 0 | c # _ \<Rightarrow> c)"

fun strcasecmp :: "int list \<Rightarrow> int list \<Rightarrow> int" where
  "strcasecmp s1 s2 =
     (let c1 = tolower (char_at s1); c2 = tolower (char_at s2)
      in if c1 = c2 \<and> c1 \<noteq> 0 \<and> s1 \<noteq> [] then strcasecmp (tl s1) (tl s2) else c1 - c2)"

text \<open>
  The limit is decremented before it is tested, so a limit of 0 becomes the largest value
  of the type and does not limit anything.
\<close>

fun strncasecmp :: "int list \<Rightarrow> int list \<Rightarrow> nat \<Rightarrow> int" where
  "strncasecmp s1 s2 0 = strcasecmp s1 s2"
| "strncasecmp s1 s2 (Suc n) =
     (let c1 = tolower (char_at s1); c2 = tolower (char_at s2)
      in if n > 0 \<and> c1 = c2 \<and> c1 \<noteq> 0 then strncasecmp (tl s1) (tl s2) n else c1 - c2)"

text \<open>\<open>strncpy\<close> into \<open>dest\<close>: unlike the standard's it does not fill up with zeros.\<close>

fun strncpy :: "int list \<Rightarrow> int list \<Rightarrow> nat \<Rightarrow> int list" where
  "strncpy dest src 0 = dest"
| "strncpy [] src (Suc n) = []"
| "strncpy (d # dest) src (Suc n) =
     char_at src # (if char_at src = 0 then dest else strncpy dest (tl src) n)"

declare strcasecmp.simps [simp del]

section \<open>Folding case\<close>

fun fold_case_ok :: "int \<Rightarrow> int list \<Rightarrow> bool" where
  "fold_case_ok c [] \<longleftrightarrow> True"
| "fold_case_ok c (m # ms) \<longleftrightarrow>
     (m AND 1 \<noteq> 0 \<longrightarrow> m AND 2 = 0 \<and> 0 < c \<and> c + 32 < 256 \<and> 31 < length ms \<and> ms ! 31 AND 2 \<noteq> 0) \<and>
     fold_case_ok (c + 1) ms"

lemma ctype_fold_case: "fold_case_ok 0 ctype_table"
  unfolding ctype_table_def by simp

lemma fold_case_nth:
  "fold_case_ok c ms \<Longrightarrow> i < length ms \<Longrightarrow> ms ! i AND 1 \<noteq> 0 \<Longrightarrow>
     ms ! i AND 2 = 0 \<and> 0 < c + int i \<and> c + int i + 32 < 256 \<and> ms ! (i + 32) AND 2 \<noteq> 0"
proof (induction ms arbitrary: c i)
  case (Cons m ms)
  show ?case
  proof (cases i)
    case 0
    then show ?thesis using Cons.prems by simp
  next
    case (Suc j)
    with Cons.IH [of "c + 1" j] Cons.prems show ?thesis by (simp add: algebra_simps)
  qed
qed simp

lemma u8_byte: "byte c \<Longrightarrow> u8 c = c"
  by (simp add: byte_def u8_def take_bit_int_eq_self)

lemma u8_is_byte [simp]: "byte (u8 c)"
  using take_bit_int_less_exp [of 8 c] by (simp add: byte_def u8_def)

lemma isupper_facts:
  assumes "byte c" "isupper c"
  shows "\<not> islower c" "0 < c" "c + 32 < 256" "islower (c + 32)"
proof -
  have c: "take_bit 8 c = c" "0 \<le> c" using assms(1) by (simp_all add: byte_def take_bit_int_eq_self)
  then have n: "nat c < length ctype_table" using assms(1) by (simp add: length_ctype byte_def nat_less_iff)
  have u: "ctype_table ! nat c AND 1 \<noteq> 0" using assms(2) c by (simp add: isupper_def ismask_def)
  note f = fold_case_nth [OF ctype_fold_case n u]
  from f c show "\<not> islower c" "0 < c" "c + 32 < 256" by (simp_all add: islower_def ismask_def)
  moreover have "nat (take_bit 8 (c + 32)) = nat c + 32"
    using c f by (simp add: take_bit_int_eq_self nat_add_distrib)
  ultimately show "islower (c + 32)" using f by (simp add: islower_def ismask_def)
qed

lemma toupper_tolower [simp]: "toupper (tolower c) = toupper c"
proof (cases "isupper (u8 c)")
  case True
  note f = isupper_facts [OF _ True, simplified]
  have "u8 (u8 c + 32) = u8 c + 32" using f u8_is_byte [of c] by (intro u8_byte) (simp add: byte_def)
  with True f show ?thesis by (simp add: tolower_def toupper_def u8_byte)
qed (simp add: tolower_def toupper_def u8_byte)

lemma tolower_0 [simp]: "byte c \<Longrightarrow> tolower c = 0 \<longleftrightarrow> c = 0"
  using isupper_facts [of c] u8_byte [of "c + 32"] by (auto simp: tolower_def u8_byte byte_def)

lemma tolower_zero [simp]: "tolower 0 = 0"
  by (simp add: byte_def)

text \<open>Two strings are equal for \<open>strncasecmp\<close> if they agree up to case in what comes before their ends.\<close>

lemma strncasecmp_0_iff:
  "0 < n \<Longrightarrow> (\<forall>c\<in>set s1 \<union> set s2. byte c) \<Longrightarrow>
     strncasecmp s1 s2 n = 0 \<longleftrightarrow>
     map tolower (takeWhile (\<lambda>c. c \<noteq> 0) (take n s1)) = map tolower (takeWhile (\<lambda>c. c \<noteq> 0) (take n s2))"
proof (induction n arbitrary: s1 s2)
  case (Suc n)
  show ?case
  proof (cases "n = 0")
    case True
    then show ?thesis using Suc.prems(2)
      by (cases s1; cases s2) (auto simp: char_at_def dest: sym)
  next
    case False
    then have "strncasecmp (tl s1) (tl s2) n = 0 \<longleftrightarrow>
      map tolower (takeWhile (\<lambda>c. c \<noteq> 0) (take n (tl s1))) = map tolower (takeWhile (\<lambda>c. c \<noteq> 0) (take n (tl s2)))"
      using Suc.prems(2) by (intro Suc.IH; cases s1; cases s2) auto
    with False Suc.prems(2) show ?thesis
      by (cases s1; cases s2) (auto simp: char_at_def Let_def)
  qed
qed simp

end
