(* ===== verification/Wad.thy ===== *)
theory Wad
  imports Cstring Stdio Zone_Heap
begin

text \<open>
  The lumps of the game's WAD files (\<^verbatim>\<open>w_wad.c\<close>, \<^verbatim>\<open>w_file.c\<close>, \<^verbatim>\<open>w_file_stdc.c\<close>): reading the
  directory of a file, looking lumps up by name, with and without the hash table, and the
  cache, whose blocks come from the zone and may be purged by it.
\<close>

section \<open>Data\<close>

text \<open>
  \<open>lumpinfo\<close> is an array at \<open>wd_lumpinfo\<close>; a pointer to an entry is its index, \<open>next\<close> is
  \<open>None\<close> for \<open>NULL\<close>. The field \<open>cache\<close> of an entry is a cell that the zone clears when it
  purges the block, so its value is kept with the zone, at the address of the field.
  \<open>wd_data\<close> is what the blocks of the zone hold, by their address; \<open>lumphash\<close> is a block too,
  with its contents in \<open>wd_table\<close>. A \<open>wad_file_t\<close> is the number of the file.
\<close>

record lumpinfo_t =
  li_name :: "int list"
  li_wad_file :: nat
  li_position :: int
  li_size :: int
  li_next :: "nat option"

record wad_file_t =
  wf_mapped :: int
  wf_length :: int
  wf_fstream :: FILE

record wads =
  wd_files :: "wad_file_t list"
  wd_lumpinfo :: int
  wd_lumps :: "lumpinfo_t list"
  wd_lumphash :: int
  wd_table :: "nat option list"
  wd_zone :: zone
  wd_data :: "int \<Rightarrow> int list"

definition numlumps :: "wads \<Rightarrow> int" where
  "numlumps w = int (length (wd_lumps w))"

fun sizeof_lumpinfo :: "arch \<Rightarrow> int" where
  "sizeof_lumpinfo ILP32 = 28"
| "sizeof_lumpinfo LP64 = 40"

fun offset_cache :: "arch \<Rightarrow> int" where
  "offset_cache ILP32 = 20"
| "offset_cache LP64 = 24"

text \<open>\<open>&lumpinfo[i].cache\<close>, for an array at \<open>base\<close>.\<close>

definition cache_cell :: "arch \<Rightarrow> int \<Rightarrow> nat \<Rightarrow> int" where
  "cache_cell arch base i = base + int i * sizeof_lumpinfo arch + offset_cache arch"

abbreviation warch :: "wads \<Rightarrow> arch" where "warch w \<equiv> zarch (wd_zone w)"

definition cache :: "wads \<Rightarrow> nat \<Rightarrow> int" where
  "cache w i = zcells (wd_zone w) (cache_cell (warch w) (wd_lumpinfo w) i)"

section \<open>Looking up a name\<close>

definition W_LumpNameHash :: "int list \<Rightarrow> int" where
  "W_LumpNameHash s =
     foldl (\<lambda>result c. u32 ((push_bit 5 result XOR result) XOR toupper c)) 5381
       (takeWhile (\<lambda>c. c \<noteq> 0) (take 8 s))"

partial_function (option) hash_chain :: "lumpinfo_t list \<Rightarrow> int list \<Rightarrow> nat option \<Rightarrow> int option" where
  "hash_chain lumps name lump_p =
     (case lump_p of
        None \<Rightarrow> Some (- 1)
      | Some i \<Rightarrow>
          if strncasecmp (li_name (lumps ! i)) name 8 = 0 then Some (int i)
          else hash_chain lumps name (li_next (lumps ! i)))"

fun linear_search :: "lumpinfo_t list \<Rightarrow> int list \<Rightarrow> nat \<Rightarrow> int" where
  "linear_search lumps name 0 = - 1"
| "linear_search lumps name (Suc i) =
     (if strncasecmp (li_name (lumps ! i)) name 8 = 0 then int i else linear_search lumps name i)"

definition W_CheckNumForName :: "int list \<Rightarrow> wads \<Rightarrow> int option" where
  "W_CheckNumForName name w =
     (if wd_lumphash w \<noteq> 0
      then let hash = W_LumpNameHash name mod numlumps w
           in hash_chain (wd_lumps w) name (wd_table w ! nat hash)
      else Some (linear_search (wd_lumps w) name (length (wd_lumps w))))"

definition lump_not_found :: doom_error where
  "lump_not_found = I_Error ''W_GetNumForName: not found!''"

definition W_GetNumForName :: "int list \<Rightarrow> wads \<Rightarrow> int result option" where
  "W_GetNumForName name w =
     map_option (\<lambda>i. if i < 0 then Inl lump_not_found else Inr i) (W_CheckNumForName name w)"

text \<open>One round of the loop of \<open>W_GenerateHashTable\<close>.\<close>

definition hook_lump :: "nat \<Rightarrow> nat option list \<times> lumpinfo_t list \<Rightarrow> nat option list \<times> lumpinfo_t list" where
  "hook_lump i = (\<lambda>(table, lumps).
     let hash = nat (W_LumpNameHash (li_name (lumps ! i)) mod int (length lumps))
     in (table[hash := Some i], lumps[i := (lumps ! i)\<lparr>li_next := table ! hash\<rparr>]))"

definition free_lumphash :: "wads \<Rightarrow> wads result" where
  "free_lumphash w =
     (if wd_lumphash w \<noteq> 0 then bindE (Z_Free (wd_lumphash w) (wd_zone w)) (\<lambda>z. Inr (w\<lparr>wd_zone := z\<rparr>)) else Inr w)"

definition W_GenerateHashTable :: "wads \<Rightarrow> wads result option" where
  "W_GenerateHashTable w =
     bindO (Some (free_lumphash w)) (\<lambda>w.
       if numlumps w > 0
       then bindO (Z_Malloc (i32 (sizeof_ptr (warch w) * numlumps w)) PU_STATIC None (wd_zone w)) (\<lambda>(p, z).
              let (table, lumps) = fold hook_lump [0..<length (wd_lumps w)]
                    (replicate (length (wd_lumps w)) None, wd_lumps w)
              in Some (Inr (w\<lparr>wd_lumphash := p, wd_table := table, wd_lumps := lumps, wd_zone := z\<rparr>)))
       else Some (Inr w))"

section \<open>Files\<close>

definition M_FileLength :: "FILE \<Rightarrow> int \<times> FILE" where
  "M_FileLength f =
     (let savedpos = ftell f;
          f = snd (fseek 0 SEEK_END f);
          len = ftell f
      in (len, snd (fseek savedpos SEEK_SET f)))"

fun sizeof_stdc_wad_file :: "arch \<Rightarrow> int" where
  "sizeof_stdc_wad_file ILP32 = 16"
| "sizeof_stdc_wad_file LP64 = 32"

text \<open>\<open>node\<close> is the file the path leads to. Result: the number of the opened file, \<open>None\<close> for \<open>NULL\<close>.\<close>

definition W_StdC_OpenFile :: "string \<Rightarrow> FILE option \<Rightarrow> wads \<Rightarrow> (nat option \<times> wads) result option" where
  "W_StdC_OpenFile path node w =
     (case fopen path node of
        None \<Rightarrow> Some (Inr (None, w))
      | Some fstream \<Rightarrow>
          bindO (Z_Malloc (sizeof_stdc_wad_file (warch w)) PU_STATIC None (wd_zone w)) (\<lambda>(p, z).
            let (len, fstream) = M_FileLength fstream
            in Some (Inr (Some (length (wd_files w)),
                 w\<lparr>wd_files := wd_files w @ [\<lparr>wf_mapped = 0, wf_length = u32 len, wf_fstream = fstream\<rparr>],
                   wd_zone := z\<rparr>))))"

definition W_StdC_Read :: "arch \<Rightarrow> wad_file_t \<Rightarrow> int \<Rightarrow> nat \<Rightarrow> int \<times> int list \<times> wad_file_t" where
  "W_StdC_Read arch wad offset buffer_len =
     (let f = snd (fseek offset SEEK_SET (wf_fstream wad));
          (result, bs, f) = fread arch 1 buffer_len f
      in (result, bs, wad\<lparr>wf_fstream := f\<rparr>))"

definition W_Read :: "nat \<Rightarrow> int \<Rightarrow> int \<Rightarrow> wads \<Rightarrow> int \<times> int list \<times> wads" where
  "W_Read k offset buffer_len w =
     (let (result, bs, wad) = W_StdC_Read (warch w) (wd_files w ! k) (u32 offset) (nat (size_t (warch w) buffer_len))
      in (result, bs, w\<lparr>wd_files := (wd_files w)[k := wad]\<rparr>))"

section \<open>Adding a file\<close>

record filelump_t =
  fl_filepos :: int
  fl_size :: int
  fl_name :: "int list"

text \<open>\<open>LONG\<close> of an \<open>int\<close> as it is stored in the file.\<close>

definition LONG :: "int list \<Rightarrow> int" where
  "LONG bs = i32 (bs ! 0 + push_bit 8 (bs ! 1) + push_bit 16 (bs ! 2) + push_bit 24 (bs ! 3))"

text \<open>The entries of a directory; an entry that was not read is uninitialised memory.\<close>

primrec read_dir :: "nat \<Rightarrow> int list \<Rightarrow> filelump_t list result" where
  "read_dir 0 bs = Inr []"
| "read_dir (Suc n) bs =
     (if length bs < 16 then Inl Bad_Access
      else bindE (read_dir n (drop 16 bs)) (\<lambda>fs.
        Inr (\<lparr>fl_filepos = LONG bs, fl_size = LONG (drop 4 bs), fl_name = take 8 (drop 8 bs)\<rparr> # fs)))"

definition M_ExtractFileBase :: "int list \<Rightarrow> int list" where
  "M_ExtractFileBase path =
     (let filename = rev (takeWhile (\<lambda>c. c \<noteq> 47) (rev (butlast path))) @ [last path];
          dest = map toupper (take 8 (takeWhile (\<lambda>c. c \<noteq> 46) filename))
      in dest @ replicate (8 - length dest) 0)"

definition extend_lump :: "int \<Rightarrow> int \<Rightarrow> nat \<Rightarrow> zone \<Rightarrow> zone result" where
  "extend_lump base newbase i z =
     (let c = zcells z (cache_cell (zarch z) base i);
          new = cache_cell (zarch z) newbase i;
          z = z\<lparr>zcells := (zcells z)(new := c)\<rparr>
      in if c \<noteq> 0 then Z_ChangeUser c new z else Inr z)"

definition clear_cells :: "int \<Rightarrow> nat list \<Rightarrow> zone \<Rightarrow> zone" where
  "clear_cells base is z = z\<lparr>zcells := fold (\<lambda>i cells. cells(cache_cell (zarch z) base i := 0)) is (zcells z)\<rparr>"

definition empty_lump :: lumpinfo_t where
  "empty_lump = \<lparr>li_name = replicate 8 0, li_wad_file = 0, li_position = 0, li_size = 0, li_next = None\<rparr>"

text \<open>\<open>newlumpinfo\<close> is the address of the new array, which \<open>calloc\<close> has cleared, or 0.\<close>

definition ExtendLumpInfo :: "int \<Rightarrow> int \<Rightarrow> wads \<Rightarrow> wads result" where
  "ExtendLumpInfo newnumlumps newlumpinfo w =
     (if newlumpinfo = 0 \<or> newnumlumps < 0 then Inl (I_Error ''Couldn't realloc lumpinfo'')
      else let m = min (length (wd_lumps w)) (nat newnumlumps)
           in bindE (foldE (extend_lump (wd_lumpinfo w) newlumpinfo) [0..<m]
                       (clear_cells newlumpinfo [0..<nat newnumlumps] (wd_zone w))) (\<lambda>z.
                Inr (w\<lparr>wd_zone := z, wd_lumpinfo := newlumpinfo,
                       wd_lumps := take m (wd_lumps w) @ replicate (nat newnumlumps - m) empty_lump\<rparr>)))"

definition fill_lump :: "nat \<Rightarrow> filelump_t \<Rightarrow> lumpinfo_t \<Rightarrow> lumpinfo_t" where
  "fill_lump k filerover l =
     l\<lparr>li_wad_file := k, li_position := fl_filepos filerover, li_size := fl_size filerover,
       li_name := strncpy (li_name l) (fl_name filerover) 8\<rparr>"

definition bad_wad :: doom_error where
  "bad_wad = I_Error ''Wad file doesn't have IWAD or PWAD id''"

text \<open>The directory of a WAD file, with the block that it was read into.\<close>

definition wad_directory :: "nat \<Rightarrow> wads \<Rightarrow> (int \<times> int \<times> int list \<times> wads) result option" where
  "wad_directory k w =
     (let (_, header, w) = W_Read k 0 12 w
      in if length header < 12 then Some (Inl Bad_Access)
         else if take 4 header \<noteq> map of_char ''IWAD'' \<and> take 4 header \<noteq> map of_char ''PWAD'' then Some (Inl bad_wad)
         else let num = LONG (drop 4 header);
                  infotableofs = LONG (drop 8 header);
                  len = i32 (num * 16)
              in bindO (Z_Malloc len PU_STATIC None (wd_zone w)) (\<lambda>(fileinfo, z).
                   let (_, bs, w) = W_Read k infotableofs len (w\<lparr>wd_zone := z\<rparr>)
                   in Some (Inr (num, fileinfo, bs, w))))"

definition add_lumps :: "nat \<Rightarrow> int \<Rightarrow> int \<Rightarrow> int \<Rightarrow> filelump_t list result \<Rightarrow> wads \<Rightarrow> wads result" where
  "add_lumps k newnumlumps newlumpinfo fileinfo dir w =
     (let startlump = length (wd_lumps w)
      in bindE (ExtendLumpInfo newnumlumps newlumpinfo w) (\<lambda>w.
         bindE dir (\<lambda>fs.
         let w = w\<lparr>wd_lumps := take startlump (wd_lumps w) @ map2 (fill_lump k) fs (drop startlump (wd_lumps w)),
                   wd_zone := clear_cells (wd_lumpinfo w) [startlump..<length (wd_lumps w)] (wd_zone w)\<rparr>
         in bindE (Z_Free fileinfo (wd_zone w)) (\<lambda>z.
            bindE (free_lumphash (w\<lparr>wd_zone := z\<rparr>)) (\<lambda>w.
            Inr (w\<lparr>wd_lumphash := 0\<rparr>))))))"

definition W_AddFile :: "string \<Rightarrow> FILE option \<Rightarrow> int \<Rightarrow> wads \<Rightarrow> (nat option \<times> wads) result option" where
  "W_AddFile filename node newlumpinfo w =
     bindO (W_StdC_OpenFile filename node w) (\<lambda>(wad_file, w).
     case wad_file of
       None \<Rightarrow> Some (Inr (None, w))
     | Some k \<Rightarrow>
         if length filename < 3 then Some (Inl Bad_Access)
         else if strcasecmp (map of_char (drop (length filename - 3) filename)) (map of_char ''wad'') \<noteq> 0
         then bindO (Z_Malloc 16 PU_STATIC None (wd_zone w)) (\<lambda>(fileinfo, z).
                let fl = \<lparr>fl_filepos = 0, fl_size = i32 (wf_length (wd_files w ! k)),
                          fl_name = M_ExtractFileBase (map of_char filename)\<rparr>
                in Some (bindE (add_lumps k (i32 (numlumps w + 1)) newlumpinfo fileinfo (Inr [fl]) (w\<lparr>wd_zone := z\<rparr>))
                     (\<lambda>w. Inr (Some k, w))))
         else bindO (wad_directory k w) (\<lambda>(num, fileinfo, bs, w).
                Some (bindE (add_lumps k (i32 (numlumps w + num)) newlumpinfo fileinfo (read_dir (nat num) bs) w)
                     (\<lambda>w. Inr (Some k, w)))))"

section \<open>The cache\<close>

definition bad_lump :: doom_error where
  "bad_lump = I_Error ''lump >= numlumps''"

definition short_lump :: doom_error where
  "short_lump = I_Error ''W_ReadLump: only read a part of the lump''"

definition W_LumpLength :: "int \<Rightarrow> wads \<Rightarrow> int result" where
  "W_LumpLength lump w = (if lump \<ge> numlumps w then Inl bad_lump else Inr (li_size (wd_lumps w ! nat lump)))"

definition W_ReadLump :: "int \<Rightarrow> wads \<Rightarrow> (int list \<times> wads) result" where
  "W_ReadLump lump w =
     (if lump \<ge> numlumps w then Inl bad_lump
      else let l = wd_lumps w ! nat lump;
               (c, bs, w) = W_Read (li_wad_file l) (li_position l) (li_size l) w
           in if i32 c < li_size l then Inl short_lump else Inr (bs, w))"

text \<open>A pointer that is \<open>NULL\<close> has no header in front of it.\<close>

definition change_tag :: "int \<Rightarrow> int \<Rightarrow> wads \<Rightarrow> wads result" where
  "change_tag ptr tag w =
     (if ptr = 0 then Inl Bad_Access
      else bindE (Z_ChangeTag2 ptr tag (wd_zone w)) (\<lambda>z. Inr (w\<lparr>wd_zone := z\<rparr>)))"

definition W_CacheLumpNum :: "int \<Rightarrow> int \<Rightarrow> wads \<Rightarrow> (int \<times> wads) result option" where
  "W_CacheLumpNum lumpnum tag w =
     (if u32 lumpnum \<ge> numlumps w then Some (Inl bad_lump)
      else let i = nat lumpnum;
               lump = wd_lumps w ! i;
               wad = wd_files w ! li_wad_file lump
           in if wf_mapped wad \<noteq> 0 then Some (Inr (wf_mapped wad + li_position lump, w))
              else if cache w i \<noteq> 0
              then Some (bindE (change_tag (cache w i) tag w) (\<lambda>w'. Inr (cache w i, w')))
              else bindO (Some (W_LumpLength lumpnum w)) (\<lambda>len.
                   bindO (Z_Malloc len tag (Some (cache_cell (warch w) (wd_lumpinfo w) i)) (wd_zone w)) (\<lambda>(p, z).
                   bindO (Some (W_ReadLump lumpnum (w\<lparr>wd_zone := z\<rparr>))) (\<lambda>(bs, w).
                   Some (Inr (p, w\<lparr>wd_data := (wd_data w)(p := bs)\<rparr>))))))"

definition W_CacheLumpName :: "int list \<Rightarrow> int \<Rightarrow> wads \<Rightarrow> (int \<times> wads) result option" where
  "W_CacheLumpName name tag w = bindO (W_GetNumForName name w) (\<lambda>lump. W_CacheLumpNum lump tag w)"

definition W_ReleaseLumpNum :: "int \<Rightarrow> wads \<Rightarrow> wads result" where
  "W_ReleaseLumpNum lumpnum w =
     (if u32 lumpnum \<ge> numlumps w then Inl bad_lump
      else if wf_mapped (wd_files w ! li_wad_file (wd_lumps w ! nat lumpnum)) \<noteq> 0 then Inr w
      else change_tag (cache w (nat lumpnum)) PU_CACHE w)"

definition W_ReleaseLumpName :: "int list \<Rightarrow> wads \<Rightarrow> wads result option" where
  "W_ReleaseLumpName name w = bindO (W_GetNumForName name w) (\<lambda>lump. Some (W_ReleaseLumpNum lump w))"

section \<open>The right game\<close>

datatype GameMission_t =
  doom | doom2 | pack_tnt | pack_plut | pack_chex | pack_hacx | heretic | hexen | strife | none

definition unique_lumps :: "(GameMission_t \<times> string) list" where
  "unique_lumps = [(doom, ''POSSA1''), (heretic, ''IMPXA1''), (hexen, ''ETTNA1''), (strife, ''AGRDA1'')]"

fun check_unique :: "GameMission_t \<Rightarrow> (GameMission_t \<times> string) list \<Rightarrow> wads \<Rightarrow> unit result option" where
  "check_unique mission [] w = Some (Inr ())"
| "check_unique mission ((m, lumpname) # ls) w =
     (if mission \<noteq> m
      then bindO (map_option Inr (W_CheckNumForName (map of_char lumpname) w)) (\<lambda>lumpnum.
             if lumpnum \<ge> 0 then Some (Inl (I_Error ''You are trying to use the wrong IWAD file''))
             else check_unique mission ls w)
      else check_unique mission ls w)"

definition W_CheckCorrectIWAD :: "GameMission_t \<Rightarrow> wads \<Rightarrow> unit result option" where
  "W_CheckCorrectIWAD mission w = check_unique mission unique_lumps w"

end
