(* ===== verification/Wad_Lookup.thy ===== *)
theory Wad_Lookup
  imports Wad
begin

text \<open>
  Looking up a lump by name: the chains of the hash table lead to the same lump as the linear
  search, the last one of that name.
\<close>

section \<open>The chains\<close>

text \<open>The last of the first \<open>k\<close> lumps with hash \<open>h\<close>.\<close>

fun last_with :: "(nat \<Rightarrow> nat) \<Rightarrow> nat \<Rightarrow> nat \<Rightarrow> nat option" where
  "last_with H h 0 = None"
| "last_with H h (Suc k) = (if H k = h then Some k else last_with H h k)"

definition lump_hash :: "lumpinfo_t list \<Rightarrow> nat \<Rightarrow> nat" where
  "lump_hash lumps i = nat (W_LumpNameHash (li_name (lumps ! i)) mod int (length lumps))"

definition chained :: "lumpinfo_t list \<Rightarrow> nat \<Rightarrow> nat option list \<times> lumpinfo_t list \<Rightarrow> bool" where
  "chained old k = (\<lambda>(table, lumps).
     length table = length old \<and> length lumps = length old \<and>
     (\<forall>h<length old. table ! h = last_with (lump_hash old) h k) \<and>
     (\<forall>i<length old. lumps ! i = (if i < k then (old ! i)\<lparr>li_next := last_with (lump_hash old) (lump_hash old i) i\<rparr> else old ! i)))"

lemma lump_hash_less: "lumps \<noteq> [] \<Longrightarrow> lump_hash lumps i < length lumps"
  using pos_mod_bound [of "int (length lumps)"] by (simp add: lump_hash_def nat_less_iff)

lemma hook_lump_chained:
  assumes "chained old k s" "k < length old"
  shows "chained old (Suc k) (hook_lump k s)"
proof -
  obtain table lumps where s: "s = (table, lumps)" by (cases s)
  have l: "length table = length old" "length lumps = length old" "lumps ! k = old ! k"
    using assms by (auto simp: chained_def s)
  have h: "hook_lump k s = (table[lump_hash old k := Some k], lumps[k := (old ! k)\<lparr>li_next := table ! lump_hash old k\<rparr>])"
    by (simp add: s hook_lump_def lump_hash_def l Let_def)
  have "lump_hash old k < length old" using assms(2) by (intro lump_hash_less) auto
  then show ?thesis using assms l unfolding h unfolding s chained_def by (auto simp: nth_list_update)
qed

lemma hook_lumps_chained:
  "k \<le> length old \<Longrightarrow> chained old k (fold hook_lump [0..<k] (replicate (length old) None, old))"
proof (induction k)
  case (Suc k)
  then show ?case using hook_lump_chained [of old k] by simp
qed (simp add: chained_def)

lemma hash_chain_eq:
  assumes lumps: "\<forall>i<k. li_next (lumps ! i) = last_with H (H i) i"
    and match: "\<forall>i<k. strncasecmp (li_name (lumps ! i)) name 8 = 0 \<longrightarrow> H i = h"
  shows "hash_chain lumps name (last_with H h k) = Some (linear_search lumps name k)"
  using assms
proof (induction k)
  case 0
  then show ?case by (simp add: hash_chain.simps)
next
  case (Suc k)
  then have IH: "hash_chain lumps name (last_with H h k) = Some (linear_search lumps name k)" by simp
  show ?case
  proof (cases "H k = h")
    case True
    then show ?thesis using IH Suc.prems(1) by (simp add: hash_chain.simps [of lumps name "Some k"])
  next
    case False
    then show ?thesis using IH Suc.prems(2) by auto
  qed
qed

lemma hash_fold_case:
  "W_LumpNameHash s = foldl (\<lambda>result c. u32 ((push_bit 5 result XOR result) XOR toupper c)) 5381
     (map tolower (takeWhile (\<lambda>c. c \<noteq> 0) (take 8 s)))"
  by (simp add: W_LumpNameHash_def foldl_map)

lemma same_name_same_hash:
  "strncasecmp s t 8 = 0 \<Longrightarrow> \<forall>c\<in>set s \<union> set t. byte c \<Longrightarrow> W_LumpNameHash s = W_LumpNameHash t"
  by (simp add: hash_fold_case strncasecmp_0_iff)

lemma linear_search_cong:
  "\<forall>i<k. li_name (lumps ! i) = li_name (lumps' ! i) \<Longrightarrow> linear_search lumps name k = linear_search lumps' name k"
  by (induction k) auto

lemma linear_search_spec:
  "linear_search lumps name k = i \<Longrightarrow>
     (i = - 1 \<and> (\<forall>j<k. strncasecmp (li_name (lumps ! j)) name 8 \<noteq> 0)) \<or>
     (\<exists>n<k. i = int n \<and> strncasecmp (li_name (lumps ! n)) name 8 = 0 \<and>
        (\<forall>j<k. n < j \<longrightarrow> strncasecmp (li_name (lumps ! j)) name 8 \<noteq> 0))"
proof (induction k)
  case (Suc k)
  then show ?case by (cases "strncasecmp (li_name (lumps ! k)) name 8 = 0") (auto simp: less_Suc_eq)
qed simp

section \<open>The table\<close>

definition hash_ok :: "wads \<Rightarrow> bool" where
  "hash_ok w \<longleftrightarrow> zone_ok (wd_zone w) \<and> 0 \<le> mainzone (wd_zone w) \<and>
     (wd_lumphash w \<noteq> 0 \<longrightarrow> wd_lumphash w \<in> dom (heap (wd_zone w))) \<and>
     (\<forall>l\<in>set (wd_lumps w). \<forall>c\<in>set (li_name l). byte c)"

lemma lookup_hashed:
  assumes names: "\<forall>l\<in>set lumps. \<forall>c\<in>set (li_name l). byte c" "\<forall>c\<in>set name. byte c" and ne: "lumps \<noteq> []"
    and fold: "fold hook_lump [0..<length lumps] (replicate (length lumps) None, lumps) = (table, lumps')"
  shows "hash_chain lumps' name (table ! nat (W_LumpNameHash name mod int (length lumps'))) =
      Some (linear_search lumps name (length lumps))" "length lumps' = length lumps"
proof -
  let ?n = "length lumps" and ?H = "lump_hash lumps"
  have c: "chained lumps ?n (table, lumps')" using hook_lumps_chained [of ?n lumps] fold by simp
  then have l: "length lumps' = ?n" "\<forall>i<?n. lumps' ! i = (lumps ! i)\<lparr>li_next := last_with ?H (?H i) i\<rparr>"
    "\<forall>h<?n. table ! h = last_with ?H h ?n" by (auto simp: chained_def)
  show "length lumps' = length lumps" by (fact l(1))
  let ?h = "nat (W_LumpNameHash name mod int ?n)"
  have h: "?h < ?n" using ne pos_mod_bound [of "int ?n"] by (simp add: nat_less_iff)
  have "\<forall>i<?n. strncasecmp (li_name (lumps' ! i)) name 8 = 0 \<longrightarrow> ?H i = ?h"
  proof (intro allI impI)
    fix i assume i: "i < ?n" and "strncasecmp (li_name (lumps' ! i)) name 8 = 0"
    then have "strncasecmp (li_name (lumps ! i)) name 8 = 0" using l(2) by simp
    moreover have "\<forall>c\<in>set (li_name (lumps ! i)) \<union> set name. byte c" using names nth_mem [OF i] by blast
    ultimately show "?H i = ?h" by (simp add: lump_hash_def same_name_same_hash [of _ name])
  qed
  then have "hash_chain lumps' name (last_with ?H ?h ?n) = Some (linear_search lumps' name ?n)"
    using l(2) by (intro hash_chain_eq) auto
  moreover have "linear_search lumps' name ?n = linear_search lumps name ?n"
    using l(2) by (intro linear_search_cong) auto
  ultimately show "hash_chain lumps' name (table ! nat (W_LumpNameHash name mod int (length lumps'))) =
      Some (linear_search lumps name (length lumps))" using l(1,3) h by simp
qed

lemma block_not_null:
  assumes "zone_ok z" "heap z p = Some b" "0 \<le> mainzone z"
  shows "0 < p"
  using heap_inside(1) [OF assms(1)] assms(2,3) by (cases b; cases "zarch z") (force simp: hdr_def)+

lemma free_lumphash_ok:
  assumes "hash_ok w"
  shows "\<exists>z. free_lumphash w = Inr (w\<lparr>wd_zone := z\<rparr>) \<and> zone_ok z \<and> mainzone z = mainzone (wd_zone w) \<and> zarch z = warch w"
proof (cases "wd_lumphash w = 0")
  case False
  then obtain n t u where h: "heap (wd_zone w) (wd_lumphash w) = Some (n, t, u)" using assms by (auto simp: hash_ok_def)
  obtain z where "Z_Free (wd_lumphash w) (wd_zone w) = Inr z" "zone_ok z"
    using Z_Free_refines [OF _ h] assms by (auto simp: hash_ok_def)
  with False Z_Free_const [OF this(1)] show ?thesis by (auto simp: free_lumphash_def)
qed (use assms in \<open>auto simp: free_lumphash_def hash_ok_def intro: exI [of _ "wd_zone w"]\<close>)

text \<open>
  C29. The hash table of lump names: \<open>W_GenerateHashTable\<close> builds it or reports that the zone
  is exhausted, and with it \<open>W_CheckNumForName\<close> returns, for every name, what the linear
  search returns: -1 if there is no such lump, and otherwise the number of the last lump
  with that name up to case, so that lumps of files added later take precedence.
\<close>

theorem hash_lookup_correct:
  assumes "hash_ok w" "wd_lumps w \<noteq> []" "8 * numlumps w \<le> INT_MAX - 64" "\<forall>c\<in>set name. byte c"
  shows "W_GenerateHashTable w = Some (Inl alloc_failed) \<or>
    (\<exists>w' i. W_GenerateHashTable w = Some (Inr w') \<and> wd_lumphash w' \<noteq> 0 \<and>
       W_CheckNumForName name w' = Some i \<and> W_CheckNumForName name (w\<lparr>wd_lumphash := 0\<rparr>) = Some i \<and>
       (i = - 1 \<and> (\<forall>l\<in>set (wd_lumps w). strncasecmp (li_name l) name 8 \<noteq> 0) \<or>
        (\<exists>n<length (wd_lumps w). i = int n \<and> strncasecmp (li_name (wd_lumps w ! n)) name 8 = 0 \<and>
           (\<forall>j<length (wd_lumps w). n < j \<longrightarrow> strncasecmp (li_name (wd_lumps w ! j)) name 8 \<noteq> 0))))"
proof -
  let ?n = "length (wd_lumps w)"
  obtain z where z: "free_lumphash w = Inr (w\<lparr>wd_zone := z\<rparr>)" "zone_ok z" "mainzone z = mainzone (wd_zone w)" "zarch z = warch w"
    using free_lumphash_ok [OF assms(1)] by blast
  have n: "0 < numlumps w" using assms(2) by (simp add: numlumps_def)
  let ?sz = "sizeof_ptr (zarch z) * numlumps w"
  have sz: "0 \<le> ?sz" "?sz \<le> INT_MAX - 64" using n assms(3) by (cases "zarch z"; simp add: INT_MAX_def)+
  then have i: "i32 ?sz = ?sz" by (intro i32_id) (simp add: is_i32_def INT_MIN_def INT_MAX_def)
  obtain table lumps where f: "fold hook_lump [0..<?n] (replicate ?n None, wd_lumps w) = (table, lumps)" by fastforce
  have g: "W_GenerateHashTable w = bindO (Z_Malloc ?sz PU_STATIC None z) (\<lambda>(p, z').
      Some (Inr (w\<lparr>wd_lumphash := p, wd_table := table, wd_lumps := lumps, wd_zone := z'\<rparr>)))"
    using n by (simp add: W_GenerateHashTable_def z(1) numlumps_def [of "w\<lparr>wd_zone := z\<rparr>"] numlumps_def [symmetric] i f)
  have t: "PU_STATIC \<noteq> PU_FREE" "PU_PURGELEVEL \<le> PU_STATIC \<longrightarrow> (None :: int option) \<noteq> None" by (simp_all add: PU_defs)
  from zalloc.alloc_law [OF z(2) sz t] consider "Z_Malloc ?sz PU_STATIC None z = Some (Inl alloc_failed)"
    | p z' K m where "Z_Malloc ?sz PU_STATIC None z = Some (Inr (p, z'))" "zone_ok z'" "heap z' = (heap z |` K)(p \<mapsto> (m, PU_STATIC, None))"
    by (metis option.simps(3))
  then show ?thesis
  proof cases
    case 1
    then show ?thesis by (simp add: g)
  next
    case 2
    have "heap z' p = Some (m, PU_STATIC, None)" by (simp add: 2(3))
    from block_not_null [OF 2(2) this] Z_Malloc_const(2) [OF z(2) t(2) 2(1)] z(3) assms(1)
    have p: "p \<noteq> 0" by (simp add: hash_ok_def)
    let ?w = "w\<lparr>wd_lumphash := p, wd_table := table, wd_lumps := lumps, wd_zone := z'\<rparr>"
    have names: "\<forall>l\<in>set (wd_lumps w). \<forall>c\<in>set (li_name l). byte c" using assms(1) by (simp add: hash_ok_def)
    note l = lookup_hashed [OF names assms(4,2) f]
    have "W_CheckNumForName name ?w = Some (linear_search (wd_lumps w) name ?n)"
      using p l by (simp add: W_CheckNumForName_def numlumps_def)
    moreover have "W_CheckNumForName name (w\<lparr>wd_lumphash := 0\<rparr>) = Some (linear_search (wd_lumps w) name ?n)"
      by (simp add: W_CheckNumForName_def)
    moreover have "W_GenerateHashTable w = Some (Inr ?w)" by (simp add: g 2(1))
    ultimately show ?thesis
      using p linear_search_spec [OF refl, of "wd_lumps w" name ?n]
      by (intro disjI2 exI [of _ ?w] exI [of _ "linear_search (wd_lumps w) name ?n"]) (auto simp: all_set_conv_all_nth)
  qed
qed

section \<open>A small directory\<close>

text \<open>One file with one lump of four bytes, named \<open>DEMO\<close>, before the lump has been read.\<close>

definition demo_lump :: lumpinfo_t where
  "demo_lump = \<lparr>li_name = [68, 69, 77, 79, 0, 0, 0, 0], li_wad_file = 0, li_position = 12, li_size = 4, li_next = None\<rparr>"

definition demo_wad_file :: wad_file_t where
  "demo_wad_file = \<lparr>wf_mapped = 0, wf_length = 32,
     wf_fstream = \<lparr>f_drv = memory_driver 100, f_data = map of_char ''PWAD'' @ [1, 0, 0, 0, 16, 0, 0, 0, 1, 2, 3, 4, 12, 0, 0, 0, 4, 0, 0, 0, 100, 69, 77, 79, 0, 9, 9, 9],
       f_pos = 0, f_size = 32, f_flags = 0\<rparr>\<rparr>"

definition demo_wads :: wads where
  "demo_wads = \<lparr>wd_files = [demo_wad_file], wd_lumpinfo = 5000, wd_lumps = [demo_lump], wd_lumphash = 0, wd_table = [],
     wd_zone = small_zone, wd_data = (\<lambda>_. [])\<rparr>"

lemma small_zone_const: "mainzone small_zone = 0" "zcells small_zone u = 0"
  by (simp_all add: small_zone_def Z_Init_def Let_def upd_def)

lemma small_zone_room:
  assumes "0 \<le> n" "n \<le> 100" "tag \<noteq> PU_FREE" "PU_PURGELEVEL \<le> tag \<longrightarrow> user \<noteq> None" "alloc_size LP64 n \<le> 944"
  shows "Z_Malloc n tag user small_zone \<noteq> Some (Inl alloc_failed)"
  using Z_Malloc_refines [OF small_zone_ok(1) assms(1) _ assms(3,4)] assms(2,5) small_zone_free
  by (fastforce simp: INT_MAX_def)

theorem hash_lookup_correct_witness:
  "\<exists>w'. W_GenerateHashTable demo_wads = Some (Inr w') \<and> W_CheckNumForName (map of_char ''demo'') w' = Some 0"
proof -
  have ok: "hash_ok demo_wads" by (auto simp: hash_ok_def demo_wads_def demo_lump_def small_zone_ok small_zone_const byte_def)
  have m: "Z_Malloc 8 PU_STATIC None small_zone \<noteq> Some (Inl alloc_failed)"
    by (rule small_zone_room) (simp_all add: PU_defs alloc_size_def i32_def signed_take_bit_int_eq_self)
  have l: "wd_lumps demo_wads = [demo_lump]" "numlumps demo_wads = 1" "wd_lumphash demo_wads = 0"
    "wd_zone demo_wads = small_zone" by (simp_all add: demo_wads_def numlumps_def)
  have nf: "W_GenerateHashTable demo_wads \<noteq> Some (Inl alloc_failed)"
  proof
    have i: "i32 8 = 8" by (simp add: i32_id is_i32_iff)
    assume "W_GenerateHashTable demo_wads = Some (Inl alloc_failed)"
    then show False using m
      by (auto simp: W_GenerateHashTable_def free_lumphash_def l small_zone_free(2) i bindO_def Let_def
        split: option.splits sum.splits prod.splits)
  qed
  have e: "strncasecmp (li_name demo_lump) (map of_char ''demo'') 8 = 0" by code_simp
  have "\<forall>c\<in>set (map of_char ''demo''). byte c" by (simp add: byte_def)
  from hash_lookup_correct [OF ok _ _ this] nf obtain w' i where
    "W_GenerateHashTable demo_wads = Some (Inr w')" "W_CheckNumForName (map of_char ''demo'') w' = Some i"
    "i = - 1 \<and> (\<forall>x\<in>set (wd_lumps demo_wads). strncasecmp (li_name x) (map of_char ''demo'') 8 \<noteq> 0) \<or>
     (\<exists>n<length (wd_lumps demo_wads). i = int n)" by (auto simp: l INT_MAX_def)
  then show ?thesis using e by (auto simp: l)
qed

end
