(* ===== verification/Wad_Cache.thy ===== *)
theory Wad_Cache
  imports Wad_Lookup
begin

text \<open>
  The cache of lumps: its blocks belong to the zone, which may purge them, and the pointer
  of a lump is either null or leads to a block that holds the bytes of the lump.
\<close>

section \<open>Reading a lump\<close>

definition lump_bytes :: "wads \<Rightarrow> nat \<Rightarrow> int list" where
  "lump_bytes w i =
     (let l = wd_lumps w ! i
      in take (nat (li_size l)) (drop (nat (li_position l)) (f_data (wf_fstream (wd_files w ! li_wad_file l)))))"

definition readable :: "wads \<Rightarrow> nat \<Rightarrow> bool" where
  "readable w i \<longleftrightarrow>
     (let l = wd_lumps w ! i; f = wd_files w ! li_wad_file l
      in li_wad_file l < length (wd_files w) \<and> wf_mapped f = 0 \<and> file_readable (wf_fstream f) \<and>
         0 \<le> li_position l \<and> li_position l \<le> INT_MAX \<and> 0 \<le> li_size l \<and> li_size l \<le> INT_MAX - 64 \<and>
         li_position l + li_size l \<le> int (length (f_data (wf_fstream f))))"

lemma size_t_id: "0 \<le> x \<Longrightarrow> x \<le> INT_MAX \<Longrightarrow> size_t arch x = x"
  by (cases arch) (simp_all add: size_t_def INT_MAX_def)

lemma u32_id: "0 \<le> x \<Longrightarrow> x \<le> INT_MAX \<Longrightarrow> u32 x = x"
  by (simp add: u32_def INT_MAX_def take_bit_int_eq_self)

lemma fseek_set: "file_readable f \<Longrightarrow> n \<le> length (f_data f) \<Longrightarrow> snd (fseek (int n) SEEK_SET f) = f\<lparr>f_pos := n\<rparr>"
  using lseek_ok [of f SEEK_SET "int n" n] by (simp add: fseek_def file_readable_def)

lemma fread_bytes:
  assumes "file_readable f" "f_pos f + n \<le> length (f_data f)" "int n \<le> INT_MAX"
  shows "fread arch 1 n f = (int n, take n (drop (f_pos f) (f_data f)), skip_bytes n f)"
  using read_at_file [OF assms(1,2)] size_t_id [OF _ assms(3), of arch]
  by (simp add: fread_def fs_read_def errno_wrap_def skip_bytes_def)

text \<open>A state in which only the positions in the files may be different.\<close>

definition same_files :: "wad_file_t list \<Rightarrow> wad_file_t list \<Rightarrow> bool" where
  "same_files fs fs' \<longleftrightarrow> length fs' = length fs \<and>
     (\<forall>k<length fs. wf_mapped (fs' ! k) = wf_mapped (fs ! k) \<and> wf_length (fs' ! k) = wf_length (fs ! k) \<and>
        f_data (wf_fstream (fs' ! k)) = f_data (wf_fstream (fs ! k)) \<and>
        file_readable (wf_fstream (fs' ! k)) = file_readable (wf_fstream (fs ! k)))"

lemma W_Read_ok:
  assumes k: "k < length (wd_files w)" "file_readable (wf_fstream (wd_files w ! k))"
    and n: "0 \<le> off" "off \<le> INT_MAX" "0 \<le> len" "len \<le> INT_MAX" "off + len \<le> int (length (f_data (wf_fstream (wd_files w ! k))))"
  shows "\<exists>fs. W_Read k off len w = (len, take (nat len) (drop (nat off) (f_data (wf_fstream (wd_files w ! k)))), w\<lparr>wd_files := fs\<rparr>) \<and>
     same_files (wd_files w) fs"
proof -
  let ?f = "wf_fstream (wd_files w ! k)"
  let ?f' = "skip_bytes (nat len) (?f\<lparr>f_pos := nat off\<rparr>)"
  have s: "snd (fseek off SEEK_SET ?f) = ?f\<lparr>f_pos := nat off\<rparr>" using n k(2) fseek_set [of ?f "nat off"] by simp
  have "file_readable (?f\<lparr>f_pos := nat off\<rparr>)" using k(2) by (simp add: file_readable_def)
  then have f': "fread (warch w) 1 (nat len) (?f\<lparr>f_pos := nat off\<rparr>) = (len, take (nat len) (drop (nat off) (f_data ?f)), ?f')"
    using fread_bytes [of "?f\<lparr>f_pos := nat off\<rparr>" "nat len" "warch w"] n by (simp add: zle_int [symmetric])
  have r: "file_readable ?f'" using k(2) by (simp add: file_readable_def skip_bytes_def)
  have "W_Read k off len w = (len, take (nat len) (drop (nat off) (f_data ?f)), w\<lparr>wd_files := (wd_files w)[k := (wd_files w ! k)\<lparr>wf_fstream := ?f'\<rparr>]\<rparr>)"
    using n f' [unfolded One_nat_def] by (simp add: W_Read_def W_StdC_Read_def s u32_id size_t_id)
  moreover have "same_files (wd_files w) ((wd_files w)[k := (wd_files w ! k)\<lparr>wf_fstream := ?f'\<rparr>])"
    using k r by (auto simp: same_files_def nth_list_update)
  ultimately show ?thesis by blast
qed

lemma W_ReadLump_ok:
  assumes "i < length (wd_lumps w)" "readable w i"
  shows "\<exists>fs. W_ReadLump (int i) w = Inr (lump_bytes w i, w\<lparr>wd_files := fs\<rparr>) \<and> same_files (wd_files w) fs"
proof -
  let ?l = "wd_lumps w ! i"
  have r: "li_wad_file ?l < length (wd_files w)" "file_readable (wf_fstream (wd_files w ! li_wad_file ?l))"
    "0 \<le> li_position ?l" "li_position ?l \<le> INT_MAX" "0 \<le> li_size ?l" "li_size ?l \<le> INT_MAX"
    "li_position ?l + li_size ?l \<le> int (length (f_data (wf_fstream (wd_files w ! li_wad_file ?l))))"
    using assms(2) by (simp_all add: readable_def Let_def)
  obtain fs where "W_Read (li_wad_file ?l) (li_position ?l) (li_size ?l) w = (li_size ?l, lump_bytes w i, w\<lparr>wd_files := fs\<rparr>)"
    "same_files (wd_files w) fs"
    using W_Read_ok [OF r] by (auto simp: lump_bytes_def Let_def)
  moreover have "i32 (li_size ?l) = li_size ?l" using r by (intro i32_id) (simp add: is_i32_def INT_MIN_def)
  ultimately show ?thesis using assms(1) by (intro exI [of _ fs]) (simp add: W_ReadLump_def numlumps_def)
qed

section \<open>The cache\<close>

abbreviation wcell :: "wads \<Rightarrow> nat \<Rightarrow> int" where
  "wcell w i \<equiv> cache_cell (warch w) (wd_lumpinfo w) i"

lemma cache_cell_inj [simp]: "cache_cell a b i = cache_cell a b j \<longleftrightarrow> i = j"
  by (cases a) (auto simp: cache_cell_def)

definition cached_ok :: "wads \<Rightarrow> nat \<Rightarrow> bool" where
  "cached_ok w i \<longleftrightarrow> cache w i \<noteq> 0 \<longrightarrow>
     (\<exists>m t. heap (wd_zone w) (cache w i) = Some (m, t, Some (wcell w i)) \<and> li_size (wd_lumps w ! i) \<le> m) \<and>
     wd_data w (cache w i) = lump_bytes w i"

definition wad_ok :: "wads \<Rightarrow> bool" where
  "wad_ok w \<longleftrightarrow> zone_ok (wd_zone w) \<and> 0 \<le> mainzone (wd_zone w) \<and> numlumps w \<le> INT_MAX \<and>
     (\<forall>i<length (wd_lumps w). cached_ok w i \<and> li_wad_file (wd_lumps w ! i) < length (wd_files w))"

lemma same_files_bytes:
  "same_files (wd_files w) (wd_files w') \<Longrightarrow> wd_lumps w' = wd_lumps w \<Longrightarrow>
     li_wad_file (wd_lumps w ! i) < length (wd_files w) \<Longrightarrow> lump_bytes w' i = lump_bytes w i"
  by (simp add: lump_bytes_def same_files_def Let_def)

lemma same_files_refl [simp]: "same_files fs fs"
  by (simp add: same_files_def)

text \<open>A lump whose pointer was cleared, or whose block and bytes are as before up to the tag.\<close>

lemma cached_keep:
  assumes "cached_ok w j" "cache w' j \<in> {0, cache w j}" "lump_bytes w' j = lump_bytes w j"
    "wd_lumps w' = wd_lumps w" "wcell w' j = wcell w j"
    "cache w' j \<noteq> 0 \<Longrightarrow> wd_data w' (cache w j) = wd_data w (cache w j)"
    "\<And>m t. cache w' j \<noteq> 0 \<Longrightarrow> heap (wd_zone w) (cache w j) = Some (m, t, Some (wcell w j)) \<Longrightarrow>
       \<exists>t. heap (wd_zone w') (cache w j) = Some (m, t, Some (wcell w j))"
  shows "cached_ok w' j"
  unfolding cached_ok_def
proof
  assume n: "cache w' j \<noteq> 0"
  then have c: "cache w' j = cache w j" "cache w j \<noteq> 0" using assms(2) by auto
  then obtain m t where "heap (wd_zone w) (cache w j) = Some (m, t, Some (wcell w j))" "li_size (wd_lumps w ! j) \<le> m"
    and d: "wd_data w (cache w j) = lump_bytes w j" using assms(1) by (auto simp: cached_ok_def)
  moreover from assms(7) [OF n this(1)] obtain t' where "heap (wd_zone w') (cache w j) = Some (m, t', Some (wcell w j))" by blast
  ultimately show "(\<exists>m t. heap (wd_zone w') (cache w' j) = Some (m, t, Some (wcell w' j)) \<and> li_size (wd_lumps w' ! j) \<le> m) \<and>
     wd_data w' (cache w' j) = lump_bytes w' j"
    unfolding assms(3-5) c(1) assms(6) [OF n] by blast
qed

text \<open>The states before and after a call that loads lump \<open>i\<close> and returns \<open>p\<close>.\<close>

definition loaded :: "wads \<Rightarrow> nat \<Rightarrow> int \<Rightarrow> int \<Rightarrow> wads \<Rightarrow> bool" where
  "loaded w i tag p w' \<longleftrightarrow> wad_ok w' \<and> p \<noteq> 0 \<and> cache w' i = p \<and> wd_data w' p = lump_bytes w i \<and>
     (\<exists>m. heap (wd_zone w') p = Some (m, tag, Some (wcell w i)) \<and> li_size (wd_lumps w ! i) \<le> m) \<and>
     (\<forall>j<length (wd_lumps w). j \<noteq> i \<longrightarrow> cache w' j \<in> {0, cache w j}) \<and>
     (\<forall>q\<in>kept (heap (wd_zone w)). q \<noteq> p \<longrightarrow> heap (wd_zone w') q = heap (wd_zone w) q) \<and>
     wd_lumps w' = wd_lumps w \<and> wd_lumpinfo w' = wd_lumpinfo w \<and> same_files (wd_files w) (wd_files w')"

lemma cache_hit:
  assumes w: "wad_ok w" and i: "i < length (wd_lumps w)" and tag: "tag \<noteq> PU_FREE" and c: "cache w i \<noteq> 0"
  shows "\<exists>w'. change_tag (cache w i) tag w = Inr w' \<and> loaded w i tag (cache w i) w' \<and> wd_files w' = wd_files w"
proof -
  let ?p = "cache w i" and ?z = "wd_zone w"
  have ok: "zone_ok ?z" and co: "\<And>j. j < length (wd_lumps w) \<Longrightarrow> cached_ok w j" using w by (auto simp: wad_ok_def)
  obtain m t where h: "heap ?z ?p = Some (m, t, Some (wcell w i))" "li_size (wd_lumps w ! i) \<le> m" and d: "wd_data w ?p = lump_bytes w i"
    using co [OF i] c by (auto simp: cached_ok_def)
  obtain z where z: "Z_ChangeTag2 ?p tag ?z = Inr z" "zone_ok z" "heap z = (heap ?z)(?p \<mapsto> (m, tag, Some (wcell w i)))" "zcells z = zcells ?z"
    using Z_ChangeTag2_ok [OF ok h(1) tag] by auto
  have zc: "zarch z = zarch ?z" "mainzone z = mainzone ?z"
    using z(1) by (auto simp: Z_ChangeTag2_def Let_def upd_def split: if_splits)
  let ?w = "w\<lparr>wd_zone := z\<rparr>"
  have b: "lump_bytes ?w j = lump_bytes w j" "cache ?w j = cache w j" for j by (simp_all add: lump_bytes_def cache_def z(4) zc)
  have "cached_ok ?w j" if "j < length (wd_lumps w)" for j
  proof (cases "j = i")
    case True
    then show ?thesis using h d by (auto simp: cached_ok_def b z(3) zc)
  next
    case False
    show ?thesis by (rule cached_keep [OF co [OF that]]) (use False in \<open>auto simp: b zc z(3) h(1)\<close>)
  qed
  then have "wad_ok ?w" using w z(2) zc by (auto simp: wad_ok_def numlumps_def)
  moreover have "change_tag ?p tag w = Inr ?w" using c z(1) by (simp add: change_tag_def)
  ultimately show ?thesis using h c d z(3) by (auto simp: loaded_def b)
qed

lemma cache_miss:
  assumes w: "wad_ok w" and i: "i < length (wd_lumps w)" and r: "readable w i" and tag: "tag \<noteq> PU_FREE" and c: "cache w i = 0"
  shows "W_CacheLumpNum (int i) tag w = Some (Inl alloc_failed) \<or>
    (\<exists>p w'. W_CacheLumpNum (int i) tag w = Some (Inr (p, w')) \<and> loaded w i tag p w')"
proof -
  let ?z = "wd_zone w" and ?l = "wd_lumps w ! i" and ?u = "wcell w i"
  have ok: "zone_ok ?z" and co: "\<And>j. j < length (wd_lumps w) \<Longrightarrow> cached_ok w j" and n: "numlumps w \<le> INT_MAX"
    and wf: "\<And>j. j < length (wd_lumps w) \<Longrightarrow> li_wad_file (wd_lumps w ! j) < length (wd_files w)"
    using w by (auto simp: wad_ok_def)
  have sz: "0 \<le> li_size ?l" "li_size ?l \<le> INT_MAX - 64" "wf_mapped (wd_files w ! li_wad_file ?l) = 0"
    using r by (simp_all add: readable_def Let_def)
  have own: "PU_PURGELEVEL \<le> tag \<longrightarrow> Some ?u \<noteq> None" by simp
  have u: "u32 (int i) = int i" "\<not> numlumps w \<le> int i" using i n by (auto intro!: u32_id simp: numlumps_def)
  have e: "W_CacheLumpNum (int i) tag w = bindO (Z_Malloc (li_size ?l) tag (Some ?u) ?z) (\<lambda>(p, z).
      bindO (Some (W_ReadLump (int i) (w\<lparr>wd_zone := z\<rparr>))) (\<lambda>(bs, w). Some (Inr (p, w\<lparr>wd_data := (wd_data w)(p := bs)\<rparr>))))"
    using c sz(3) u by (simp add: W_CacheLumpNum_def W_LumpLength_def Let_def)
  from Z_Malloc_refines [OF ok sz(1,2) tag own] show ?thesis
  proof (elim disjE exE conjE)
    fix p z assume m: "Z_Malloc (li_size ?l) tag (Some ?u) ?z = Some (Inr (p, z))" and z: "zone_ok z"
      and a: "allocated (li_size ?l) tag (Some ?u) ?z p z"
    note zc = Z_Malloc_const [OF ok own m]
    obtain K k where K: "kept (heap ?z) \<subseteq> K" "p \<notin> K" "li_size ?l \<le> k" "heap z = (heap ?z |` K)(p \<mapsto> (k, tag, Some ?u))"
      "zcells z = (cells_after (heap ?z) K (zcells ?z))(?u := p)" using a by (auto simp: allocated_def)
    have rz: "readable (w\<lparr>wd_zone := z\<rparr>) i" "i < length (wd_lumps (w\<lparr>wd_zone := z\<rparr>))" using r i by (simp_all add: readable_def)
    have lz: "lump_bytes (w\<lparr>wd_zone := z\<rparr>) i = lump_bytes w i" by (simp add: lump_bytes_def)
    obtain fs where f: "W_ReadLump (int i) (w\<lparr>wd_zone := z\<rparr>) = Inr (lump_bytes w i, w\<lparr>wd_zone := z, wd_files := fs\<rparr>)"
      "same_files (wd_files w) fs" using W_ReadLump_ok [OF rz(2,1)] by (auto simp: lz)
    let ?w = "w\<lparr>wd_zone := z, wd_files := fs, wd_data := (wd_data w)(p := lump_bytes w i)\<rparr>"
    have res: "W_CacheLumpNum (int i) tag w = Some (Inr (p, ?w))" by (simp add: e m f)
    have hp: "heap z p = Some (k, tag, Some ?u)" by (simp add: K(4))
    have p: "p \<noteq> 0" using block_not_null [OF z hp] zc w by (simp add: wad_ok_def)
    have b: "lump_bytes ?w j = lump_bytes w j" if "j < length (wd_lumps w)" for j
      using f(2) wf [OF that] by (intro same_files_bytes) simp_all
    have ci: "cache ?w i = p" by (simp add: cache_def zc K(5))
    have cj: "cache ?w j = cells_after (heap ?z) K (zcells ?z) (wcell w j)" if "j \<noteq> i" for j
      using that by (simp add: cache_def zc K(5))
    then have cj2: "cache ?w j \<in> {0, cache w j}" if "j \<noteq> i" for j using that by (simp add: cells_after_def cache_def)
    have in_K: "cache w j \<in> K" if j: "j \<noteq> i" "j < length (wd_lumps w)" "cache ?w j \<noteq> 0" for j
    proof -
      have "cache w j \<noteq> 0" using cj2 [OF j(1)] j(3) by auto
      then obtain m' t' where "heap ?z (cache w j) = Some (m', t', Some (wcell w j))"
        using co [OF j(2)] by (auto simp: cached_ok_def)
      then show ?thesis using j(3) unfolding cj [OF j(1)] cells_after_def by (auto split: if_splits)
    qed
    have "cached_ok ?w j" if j: "j < length (wd_lumps w)" for j
    proof (cases "j = i")
      case True
      then show ?thesis using hp K(3) by (auto simp: cached_ok_def ci b [OF i] zc)
    next
      case False
      show ?thesis
      proof (rule cached_keep [OF co [OF j] cj2 [OF False] b [OF j]])
        fix m' t' assume "cache ?w j \<noteq> 0" "heap ?z (cache w j) = Some (m', t', Some (wcell w j))"
        moreover from in_K [OF False j this(1)] K(2) have "cache w j \<noteq> p" "cache w j \<in> K" by auto
        ultimately show "\<exists>t. heap (wd_zone ?w) (cache w j) = Some (m', t, Some (wcell w j))" by (simp add: K(4))
      next
        assume "cache ?w j \<noteq> 0"
        from in_K [OF False j this] K(2) show "wd_data ?w (cache w j) = wd_data w (cache w j)" by auto
      qed (simp_all add: zc)
    qed
    then have "wad_ok ?w" using w z zc wf f(2) by (auto simp: wad_ok_def numlumps_def same_files_def)
    moreover have "\<forall>q\<in>kept (heap ?z). q \<noteq> p \<longrightarrow> heap z q = heap ?z q" using K(1,4) by auto
    ultimately show ?thesis using res p ci hp K(3) cj2 f(2) unfolding loaded_def by auto
  next
    assume "Z_Malloc (li_size ?l) tag (Some ?u) ?z = Some (Inl alloc_failed)"
    then show ?thesis by (simp add: e)
  qed
qed

text \<open>
  C30. The cache of lumps: \<open>W_CacheLumpNum\<close> of a lump that lies inside its file returns a
  pointer to a block with the lump's bytes and the wanted tag, owned by the lump, or
  reports that the zone is exhausted. A lump that is cached is not read again. What
  other lumps have in the cache stays valid: each pointer is null, if the zone purged the
  block, or the block still holds the bytes of its lump. Blocks that are not purgable are
  untouched.
\<close>

theorem W_CacheLumpNum_correct:
  assumes "wad_ok w" "i < length (wd_lumps w)" "readable w i" "tag \<noteq> PU_FREE"
  shows "(W_CacheLumpNum (int i) tag w = Some (Inl alloc_failed) \<and> cache w i = 0) \<or>
    (\<exists>p w'. W_CacheLumpNum (int i) tag w = Some (Inr (p, w')) \<and> loaded w i tag p w' \<and>
       (cache w i \<noteq> 0 \<longrightarrow> p = cache w i \<and> wd_files w' = wd_files w))"
proof (cases "cache w i = 0")
  case True
  with cache_miss [OF assms True] show ?thesis by auto
next
  case False
  obtain w' where "change_tag (cache w i) tag w = Inr w'" "loaded w i tag (cache w i) w'" "wd_files w' = wd_files w"
    using cache_hit [OF assms(1,2,4) False] by blast
  moreover have "u32 (int i) = int i" "\<not> numlumps w \<le> int i"
    using assms(1,2) by (auto intro!: u32_id simp: numlumps_def wad_ok_def)
  ultimately show ?thesis using False assms(3) by (simp add: W_CacheLumpNum_def readable_def Let_def)
qed

lemma demo_wads_ok: "wad_ok demo_wads" "readable demo_wads 0" "cache demo_wads i = 0"
proof -
  show "cache demo_wads i = 0" for i by (simp add: cache_def demo_wads_def small_zone_const)
  then show "wad_ok demo_wads" "readable demo_wads 0"
    by (simp_all add: wad_ok_def cached_ok_def readable_def numlumps_def demo_wads_def small_zone_ok small_zone_const
      demo_lump_def demo_wad_file_def INT_MAX_def file_consts file_readable_def memory_driver_ok)
qed

theorem W_CacheLumpNum_correct_witness:
  "\<exists>p w'. W_CacheLumpNum 0 PU_CACHE demo_wads = Some (Inr (p, w')) \<and> wad_ok w' \<and> cache w' 0 = p \<and> wd_data w' p = [1, 2, 3, 4]"
proof -
  have m: "Z_Malloc 4 PU_CACHE (Some 5024) small_zone \<noteq> Some (Inl alloc_failed)"
    by (rule small_zone_room) (simp_all add: PU_defs alloc_size_def i32_def signed_take_bit_int_eq_self)
  have l: "numlumps demo_wads = 1" "wcell demo_wads 0 = 5024" "wd_lumps demo_wads = [demo_lump]"
    "wf_mapped (wd_files demo_wads ! li_wad_file demo_lump) = 0" "li_size demo_lump = 4" "wd_zone demo_wads = small_zone"
    by (simp_all add: demo_wads_def numlumps_def cache_cell_def small_zone_free demo_lump_def demo_wad_file_def)
  have b: "lump_bytes demo_wads 0 = [1, 2, 3, 4]" by (simp add: lump_bytes_def demo_wads_def demo_lump_def demo_wad_file_def)
  have "W_CacheLumpNum 0 PU_CACHE demo_wads \<noteq> Some (Inl alloc_failed)"
  proof
    assume "W_CacheLumpNum 0 PU_CACHE demo_wads = Some (Inl alloc_failed)"
    then show False using m l(2)
      by (simp add: W_CacheLumpNum_def W_LumpLength_def l demo_wads_ok(3) u32_def Let_def)
        (auto simp: bindO_def W_ReadLump_def alloc_failed_def short_lump_def bad_lump_def Let_def split: option.splits sum.splits prod.splits if_splits)
  qed
  with W_CacheLumpNum_correct [OF demo_wads_ok(1), of 0 PU_CACHE] demo_wads_ok(2) b show ?thesis
    by (auto simp: l loaded_def PU_defs)
qed

end
