(* ===== verification/Wad_Add.thy ===== *)
theory Wad_Add
  imports Wad_Cache
begin

text \<open>
  Adding a WAD file: the entries of its directory become the last lumps, and what the
  cache holds survives the move of the array of lumps.
\<close>

section \<open>Steps on the zone\<close>

lemma zset_cells [simp]: "zset (z\<lparr>zcells := c\<rparr>) = zset z"
proof (rule set_eqI)
  have "a \<in> zset (z\<lparr>zcells := c'\<rparr>)" if "a \<in> zset z" for a z c'
    using that
  proof (induction rule: zset.induct)
    case zset_first
    then show ?case using zset.zset_first [of "z\<lparr>zcells := c'\<rparr>"] by simp
  next
    case (zset_next a)
    then show ?case using zset.zset_next [of a "z\<lparr>zcells := c'\<rparr>"] by simp
  qed
  from this [of _ z c] this [of _ "z\<lparr>zcells := c\<rparr>" "zcells z"]
  show "x \<in> zset (z\<lparr>zcells := c\<rparr>) \<longleftrightarrow> x \<in> zset z" for x by auto
qed

lemma heap_cells [simp]: "heap (z\<lparr>zcells := c\<rparr>) = heap z"
  by (simp add: heap_def used_def fun_eq_iff)

lemma zone_ok_cells [simp]: "zone_ok (z\<lparr>zcells := c\<rparr>) \<longleftrightarrow> zone_ok z"
  by (simp add: zone_ok_def zone_inv_def aligned_def zstruct_def zlayout_def zlinks_def zmarks_def no_adjacent_free_def)

text \<open>A block that is neither purgable nor owned is allocated or freed beside the cache.\<close>

lemma wad_alloc:
  assumes w: "wad_ok w" and n: "0 \<le> n" "n \<le> INT_MAX - 64"
  shows "Z_Malloc n PU_STATIC None (wd_zone w) = Some (Inl alloc_failed) \<or>
    (\<exists>p z m. Z_Malloc n PU_STATIC None (wd_zone w) = Some (Inr (p, z)) \<and> wad_ok (w\<lparr>wd_zone := z\<rparr>) \<and>
       heap z p = Some (m, PU_STATIC, None) \<and> zarch z = warch w \<and> (\<forall>j. cache (w\<lparr>wd_zone := z\<rparr>) j \<in> {0, cache w j}) \<and>
       (\<forall>q\<in>kept (heap (wd_zone w)). q \<noteq> p \<and> heap z q = heap (wd_zone w) q))"
proof -
  let ?z = "wd_zone w"
  have ok: "zone_ok ?z" and co: "\<And>j. j < length (wd_lumps w) \<Longrightarrow> cached_ok w j" using w by (auto simp: wad_ok_def)
  have t: "PU_STATIC \<noteq> PU_FREE" "PU_PURGELEVEL \<le> PU_STATIC \<longrightarrow> (None :: int option) \<noteq> None" by (simp_all add: PU_defs)
  from Z_Malloc_refines [OF ok n t] show ?thesis
  proof (elim disjE exE conjE)
    fix p z assume m: "Z_Malloc n PU_STATIC None ?z = Some (Inr (p, z))" and z: "zone_ok z"
      and a: "allocated n PU_STATIC None ?z p z"
    note zc = Z_Malloc_const [OF ok t(2) m]
    obtain K k where K: "kept (heap ?z) \<subseteq> K" "p \<notin> K" "heap z = (heap ?z |` K)(p \<mapsto> (k, PU_STATIC, None))"
      "zcells z = cells_after (heap ?z) K (zcells ?z)" using a by (auto simp: allocated_def)
    let ?w = "w\<lparr>wd_zone := z\<rparr>"
    have cj: "cache ?w j = cells_after (heap ?z) K (zcells ?z) (wcell w j)" for j by (simp add: cache_def zc K(4))
    then have cj2: "cache ?w j \<in> {0, cache w j}" for j by (simp add: cells_after_def cache_def)
    have "cached_ok ?w j" if j: "j < length (wd_lumps w)" for j
    proof (rule cached_keep [OF co [OF j] cj2])
      fix m' t' assume n0: "cache ?w j \<noteq> 0" and h: "heap ?z (cache w j) = Some (m', t', Some (wcell w j))"
      have "cache w j \<in> K" using n0 h unfolding cj cells_after_def by (auto split: if_splits)
      then show "\<exists>t. heap (wd_zone ?w) (cache w j) = Some (m', t, Some (wcell w j))" using h K(2,3) by auto
    qed (simp_all add: zc lump_bytes_def)
    then have "wad_ok ?w" using w z zc by (simp add: wad_ok_def numlumps_def)
    moreover have "\<forall>q\<in>kept (heap ?z). q \<noteq> p \<and> heap z q = heap ?z q" using K by auto
    ultimately show ?thesis using m zc(1) cj2 K(3) by auto
  qed simp
qed

lemma wad_free:
  assumes w: "wad_ok w" and p: "heap (wd_zone w) p = Some (m, t, None)"
  shows "\<exists>z. Z_Free p (wd_zone w) = Inr z \<and> wad_ok (w\<lparr>wd_zone := z\<rparr>) \<and> heap z = (heap (wd_zone w))(p := None) \<and>
    zarch z = warch w \<and> zcells z = zcells (wd_zone w)"
proof -
  have ok: "zone_ok (wd_zone w)" and co: "\<And>j. j < length (wd_lumps w) \<Longrightarrow> cached_ok w j" using w by (auto simp: wad_ok_def)
  obtain z where z: "Z_Free p (wd_zone w) = Inr z" "zone_ok z" "heap z = (heap (wd_zone w))(p := None)" "zcells z = zcells (wd_zone w)"
    using Z_Free_refines [OF ok p] by auto
  note zc = Z_Free_const [OF z(1)]
  have "cached_ok (w\<lparr>wd_zone := z\<rparr>) j" if j: "j < length (wd_lumps w)" for j
    by (rule cached_keep [OF co [OF j]]) (use p in \<open>auto simp: zc lump_bytes_def cache_def z(3,4)\<close>)
  then show ?thesis using w z zc by (auto simp: wad_ok_def numlumps_def)
qed

section \<open>Moving the array\<close>

definition moved :: "arch \<Rightarrow> int \<Rightarrow> int \<Rightarrow> nat \<Rightarrow> zone \<Rightarrow> zone \<Rightarrow> bool" where
  "moved a base new k z z' \<longleftrightarrow> zone_ok z' \<and> zarch z' = a \<and> mainzone z' = mainzone z \<and>
     (\<forall>i<k. zcells z' (cache_cell a new i) = zcells z (cache_cell a base i)) \<and>
     (\<forall>u. (\<forall>i<k. u \<noteq> cache_cell a new i) \<longrightarrow> zcells z' u = zcells z u) \<and>
     (\<forall>i<k. \<forall>m t. zcells z (cache_cell a base i) \<noteq> 0 \<longrightarrow>
        heap z (zcells z (cache_cell a base i)) = Some (m, t, Some (cache_cell a base i)) \<longrightarrow>
        heap z' (zcells z (cache_cell a base i)) = Some (m, t, Some (cache_cell a new i))) \<and>
     (\<forall>q. (\<forall>i<k. zcells z (cache_cell a base i) = 0 \<or> q \<noteq> zcells z (cache_cell a base i)) \<longrightarrow> heap z' q = heap z q)"

lemma Z_ChangeUser_const: "Z_ChangeUser p u z = Inr z' \<Longrightarrow> zarch z' = zarch z \<and> mainzone z' = mainzone z"
  by (auto simp: Z_ChangeUser_def Let_def upd_def split: if_splits)

lemma extend_lump_moved:
  assumes m: "moved a base new k z z'"
    and own: "\<And>i. i \<le> k \<Longrightarrow> zcells z (cache_cell a base i) \<noteq> 0 \<Longrightarrow>
      \<exists>m t. heap z (zcells z (cache_cell a base i)) = Some (m, t, Some (cache_cell a base i))"
    and apart: "\<And>i j. i \<le> k \<Longrightarrow> j \<le> k \<Longrightarrow> cache_cell a new i \<noteq> cache_cell a base j"
  shows "\<exists>z''. extend_lump base new k z' = Inr z'' \<and> moved a base new (Suc k) z z''"
proof -
  let ?c = "\<lambda>i. zcells z (cache_cell a base i)"
  have ok: "zone_ok z'" and za: "zarch z' = a" using m by (simp_all add: moved_def)
  have "\<forall>i<k. cache_cell a base k \<noteq> cache_cell a new i" by (metis apart less_imp_le order_refl)
  then have ck: "zcells z' (cache_cell a base k) = ?c k" using m unfolding moved_def by blast
  let ?z = "z'\<lparr>zcells := (zcells z')(cache_cell a new k := ?c k)\<rparr>"
  show ?thesis
  proof (cases "?c k = 0")
    case True
    then have "moved a base new (Suc k) z ?z" using m by (auto simp: moved_def less_Suc_eq)
    then show ?thesis using True by (simp add: extend_lump_def za ck)
  next
    case False
    obtain n t where h: "heap z (?c k) = Some (n, t, Some (cache_cell a base k))" using own [of k] False by auto
    have ne: "?c i = 0 \<or> ?c k \<noteq> ?c i" if "i < k" for i using own [of i] h that by fastforce
    then have "heap z' (?c k) = heap z (?c k)" using m unfolding moved_def by blast
    then have h': "heap ?z (?c k) = Some (n, t, Some (cache_cell a base k))" using h by simp
    obtain z'' where z'': "Z_ChangeUser (?c k) (cache_cell a new k) ?z = Inr z''" "zone_ok z''"
      "heap z'' = (heap z')(?c k \<mapsto> (n, t, Some (cache_cell a new k)))" "zcells z'' = (zcells z')(cache_cell a new k := ?c k)"
      using Z_ChangeUser_ok [OF _ h', of "cache_cell a new k"] ok by auto
    have "moved a base new (Suc k) z z''"
      using m z''(2-4) Z_ChangeUser_const [OF z''(1)] False h ne unfolding moved_def by (auto simp: less_Suc_eq)
    then show ?thesis using False z''(1) by (simp add: extend_lump_def za ck)
  qed
qed

lemma foldE_append: "foldE f (xs @ ys) b = bindE (foldE f xs b) (foldE f ys)"
  by (induction xs arbitrary: b) (auto simp: bindE_def split: sum.split)

lemma extend_lumps_moved:
  assumes "zone_ok z" "zarch z = a"
    and "\<And>i. i < n \<Longrightarrow> zcells z (cache_cell a base i) \<noteq> 0 \<Longrightarrow>
      \<exists>m t. heap z (zcells z (cache_cell a base i)) = Some (m, t, Some (cache_cell a base i))"
    and "\<And>i j. i < n \<Longrightarrow> j < n \<Longrightarrow> cache_cell a new i \<noteq> cache_cell a base j"
  shows "k \<le> n \<Longrightarrow> \<exists>z'. foldE (extend_lump base new) [0..<k] z = Inr z' \<and> moved a base new k z z'"
proof (induction k)
  case 0
  then show ?case using assms(1,2) by (simp add: moved_def)
next
  case (Suc k)
  then obtain z' where z': "foldE (extend_lump base new) [0..<k] z = Inr z'" "moved a base new k z z'" by auto
  obtain z'' where "extend_lump base new k z' = Inr z''" "moved a base new (Suc k) z z''"
    using extend_lump_moved [OF z'(2)] assms(3,4) Suc.prems by (metis le_imp_less_Suc less_le_trans)
  then show ?case using z'(1) by (simp add: foldE_append)
qed

lemma clear_cells_simps:
  "zone_ok (clear_cells base is z) \<longleftrightarrow> zone_ok z" "heap (clear_cells base is z) = heap z"
  "zarch (clear_cells base is z) = zarch z" "mainzone (clear_cells base is z) = mainzone z"
  "zcells (clear_cells base is z) u = (if \<exists>i\<in>set is. u = cache_cell (zarch z) base i then 0 else zcells z u)"
proof -
  have "fold (\<lambda>i cells. cells(cache_cell a base i := 0)) is c u = (if \<exists>i\<in>set is. u = cache_cell a base i then 0 else c u)"
    for a and c :: "int \<Rightarrow> int" by (induction "is" arbitrary: c) auto
  then show "zcells (clear_cells base is z) u = (if \<exists>i\<in>set is. u = cache_cell (zarch z) base i then 0 else zcells z u)"
    by (simp add: clear_cells_def)
qed (simp_all add: clear_cells_def)

text \<open>The array has moved and grown by \<open>n\<close> lumps, which are empty.\<close>

lemma ExtendLumpInfo_ok:
  assumes w: "wad_ok w" and num: "numlumps w + int n \<le> INT_MAX" and new: "new \<noteq> 0"
    and apart: "\<And>i j. i < length (wd_lumps w) + n \<Longrightarrow> j < length (wd_lumps w) \<Longrightarrow> cache_cell (warch w) new i \<noteq> wcell w j"
  shows "\<exists>z. ExtendLumpInfo (numlumps w + int n) new w =
       Inr (w\<lparr>wd_zone := z, wd_lumpinfo := new, wd_lumps := wd_lumps w @ replicate n empty_lump\<rparr>) \<and>
     zone_ok z \<and> zarch z = warch w \<and> mainzone z = mainzone (wd_zone w) \<and>
     (\<forall>i<length (wd_lumps w). zcells z (cache_cell (warch w) new i) = cache w i \<and>
        (\<forall>m t. cache w i \<noteq> 0 \<longrightarrow> heap (wd_zone w) (cache w i) = Some (m, t, Some (wcell w i)) \<longrightarrow>
           heap z (cache w i) = Some (m, t, Some (cache_cell (warch w) new i)))) \<and>
     (\<forall>i<n. zcells z (cache_cell (warch w) new (length (wd_lumps w) + i)) = 0) \<and>
     (\<forall>q m t. heap (wd_zone w) q = Some (m, t, None) \<longrightarrow> heap z q = Some (m, t, None))"
proof -
  let ?l = "length (wd_lumps w)" and ?a = "warch w" and ?b = "wd_lumpinfo w"
  let ?z0 = "clear_cells new [0..<?l + n] (wd_zone w)"
  note cs = clear_cells_simps
  have nn: "nat (numlumps w + int n) = ?l + n" by (simp add: numlumps_def nat_add_distrib)
  have c0: "zcells ?z0 (cache_cell ?a ?b i) = cache w i" if "i < ?l" for i
  proof -
    have "\<not> (\<exists>j\<in>set [0..<?l + n]. cache_cell ?a ?b i = cache_cell ?a new j)" using apart that by fastforce
    then show ?thesis unfolding cs(5) cache_def by (simp only: if_False simp_thms)
  qed
  have own: "\<exists>m t. heap ?z0 (zcells ?z0 (cache_cell ?a ?b i)) = Some (m, t, Some (cache_cell ?a ?b i))"
    if "i < ?l" "zcells ?z0 (cache_cell ?a ?b i) \<noteq> 0" for i
    using that w unfolding c0 [OF that(1)] cs(2) by (auto simp: wad_ok_def cached_ok_def)
  have z0: "zone_ok ?z0" "zarch ?z0 = ?a" using w by (simp_all add: cs wad_ok_def)
  have ap: "i < ?l \<Longrightarrow> j < ?l \<Longrightarrow> cache_cell ?a new i \<noteq> cache_cell ?a ?b j" for i j using apart [of i j] by simp
  obtain z where z: "foldE (extend_lump ?b new) [0..<?l] ?z0 = Inr z" "moved ?a ?b new ?l ?z0 z"
    using extend_lumps_moved [OF z0 own ap, of ?l] by blast
  have m: "min ?l (nat (numlumps w + int n)) = ?l" by (simp add: nn)
  have "ExtendLumpInfo (numlumps w + int n) new w =
      Inr (w\<lparr>wd_zone := z, wd_lumpinfo := new, wd_lumps := wd_lumps w @ replicate n empty_lump\<rparr>)"
    unfolding ExtendLumpInfo_def Let_def m nn using new z(1) by (simp add: numlumps_def)
  moreover have "\<forall>i<n. zcells z (cache_cell ?a new (?l + i)) = 0"
    using z(2) by (auto simp: moved_def cs)
  moreover have "heap z q = Some (m, t, None)" if q: "heap (wd_zone w) q = Some (m, t, None)" for q m t
  proof -
    have "zcells ?z0 (cache_cell ?a ?b i) = 0 \<or> q \<noteq> zcells ?z0 (cache_cell ?a ?b i)" if "i < ?l" for i
      using own [OF that] q by (auto simp: cs)
    then show ?thesis using z(2) q by (auto simp: moved_def cs)
  qed
  ultimately show ?thesis using z(2) c0 unfolding moved_def cs by auto
qed

section \<open>The directory\<close>

lemma read_dir_ok:
  "16 * n \<le> length bs \<Longrightarrow> read_dir n bs = Inr (map (\<lambda>i. \<lparr>fl_filepos = LONG (drop (16 * i) bs), fl_size = LONG (drop (16 * i + 4) bs),
     fl_name = take 8 (drop (16 * i + 8) bs)\<rparr>) [0..<n])"
proof (induction n arbitrary: bs)
  case (Suc n)
  then have "read_dir n (drop 16 bs) = Inr (map (\<lambda>i. \<lparr>fl_filepos = LONG (drop (16 * i) (drop 16 bs)),
      fl_size = LONG (drop (16 * i + 4) (drop 16 bs)), fl_name = take 8 (drop (16 * i + 8) (drop 16 bs))\<rparr>) [0..<n])" by simp
  moreover have "[0..<Suc n] = 0 # map Suc [0..<n]" by (simp add: upt_conv_Cons map_Suc_upt)
  ultimately show ?case using Suc.prems by (simp add: algebra_simps)
qed simp

lemma strncpy_zeros:
  "n \<le> length src \<Longrightarrow> strncpy (replicate n 0) src n = takeWhile (\<lambda>c. c \<noteq> 0) (take n src) @
     replicate (n - length (takeWhile (\<lambda>c. c \<noteq> 0) (take n src))) 0"
proof (induction n arbitrary: src)
  case (Suc n)
  then show ?case by (cases src) (auto simp: char_at_def)
qed simp

definition wad_image :: "int list \<Rightarrow> nat \<Rightarrow> nat \<Rightarrow> bool" where
  "wad_image data num ofs \<longleftrightarrow> 12 \<le> length data \<and> take 4 data \<in> {map of_char ''IWAD'', map of_char ''PWAD''} \<and>
     LONG (drop 4 data) = int num \<and> LONG (drop 8 data) = int ofs \<and> ofs + 16 * num \<le> length data \<and>
     16 * int num \<le> INT_MAX - 64 \<and> int ofs \<le> INT_MAX"

definition readable_wad_name :: "string \<Rightarrow> bool" where
  "readable_wad_name fn \<longleftrightarrow> 3 \<le> length fn \<and> (CHR ''r'' \<in> set fn \<or> CHR ''w'' \<notin> set fn) \<and>
     strcasecmp (map of_char (drop (length fn - 3) fn)) (map of_char ''wad'') = 0"

text \<open>The entry of the directory at \<open>dir\<close>, as a lump of file \<open>k\<close>.\<close>

definition dir_lump :: "nat \<Rightarrow> int list \<Rightarrow> lumpinfo_t \<Rightarrow> bool" where
  "dir_lump k dir l \<longleftrightarrow> li_wad_file l = k \<and> li_position l = LONG dir \<and> li_size l = LONG (drop 4 dir) \<and>
     li_name l = (let n = takeWhile (\<lambda>c. c \<noteq> 0) (take 8 (drop 8 dir)) in n @ replicate (8 - length n) 0)"

lemma LONG_take: "4 \<le> n \<Longrightarrow> LONG (take n bs) = LONG bs"
  by (simp add: LONG_def)

lemma wad_more_files:
  assumes "wad_ok w"
  shows "wad_ok (w\<lparr>wd_files := wd_files w @ [f]\<rparr>)"
proof -
  have f: "li_wad_file (wd_lumps w ! j) < length (wd_files w)" "cached_ok w j" if "j < length (wd_lumps w)" for j
    using assms that by (auto simp: wad_ok_def)
  have "cached_ok (w\<lparr>wd_files := wd_files w @ [f]\<rparr>) j" if "j < length (wd_lumps w)" for j
    by (rule cached_keep [OF f(2) [OF that]])
      (use f(1) [OF that] in \<open>auto simp: cache_def lump_bytes_def Let_def nth_append\<close>)
  then show ?thesis using assms by (auto simp: wad_ok_def numlumps_def less_SucI)
qed

lemma W_StdC_OpenFile_ok:
  assumes w: "wad_ok w" and r: "CHR ''r'' \<in> set fn \<or> CHR ''w'' \<notin> set fn"
    and d: "driver_reads (f_drv f)" "f_size f = int (length (f_data f))"
  shows "W_StdC_OpenFile fn (Some f) w = Some (Inl alloc_failed) \<or>
    (\<exists>z wf. W_StdC_OpenFile fn (Some f) w =
         Some (Inr (Some (length (wd_files w)), w\<lparr>wd_files := wd_files w @ [wf], wd_zone := z\<rparr>)) \<and>
       wad_ok (w\<lparr>wd_files := wd_files w @ [wf], wd_zone := z\<rparr>) \<and> zarch z = warch w \<and>
       wf_mapped wf = 0 \<and> f_data (wf_fstream wf) = f_data f \<and> file_readable (wf_fstream wf) \<and>
       (\<forall>j. cache (w\<lparr>wd_zone := z\<rparr>) j \<in> {0, cache w j}) \<and>
       (\<forall>q\<in>kept (heap (wd_zone w)). heap z q = heap (wd_zone w) q))"
proof -
  have fl: "fopen_flags fn = 0" using r by (auto simp: fopen_flags_def O_RDONLY_def)
  let ?f = "f\<lparr>f_flags := 0, f_pos := 0\<rparr>"
  have "\<forall>opn. drv_open (f_drv f) = Some opn \<longrightarrow> opn (f_data f) = 0" using d(1) by (simp add: driver_reads_def)
  then have fo: "fopen fn (Some f) = Some ?f" by (simp add: fopen_def fl open_file_ok errno_wrap_def)
  have rd: "file_readable (?f\<lparr>f_pos := n\<rparr>)" for n using d by (simp add: file_readable_def file_consts)
  have "ftell ?f = 0" "snd (fseek 0 SEEK_END ?f) = ?f\<lparr>f_pos := length (f_data f)\<rparr>"
    "snd (fseek 0 SEEK_SET (?f\<lparr>f_pos := length (f_data f)\<rparr>)) = ?f"
    using ftell_file_readable [OF rd [of 0]] lseek_ok [of ?f SEEK_END 0 "length (f_data f)"]
      fseek_set [OF rd [of "length (f_data f)"], of 0] d by (simp_all add: fseek_def)
  then obtain f' n where f': "M_FileLength ?f = (n, f')" "f_data f' = f_data f" "file_readable f'"
    using rd [of 0] by (simp add: M_FileLength_def)
  have sz: "0 \<le> sizeof_stdc_wad_file (warch w)" "sizeof_stdc_wad_file (warch w) \<le> INT_MAX - 64"
    by (cases "warch w"; simp add: INT_MAX_def)+
  show ?thesis
  proof (cases "Z_Malloc (sizeof_stdc_wad_file (warch w)) PU_STATIC None (wd_zone w) = Some (Inl alloc_failed)")
    case True
    then show ?thesis by (simp add: W_StdC_OpenFile_def fo)
  next
    case False
    obtain p z m where z: "Z_Malloc (sizeof_stdc_wad_file (warch w)) PU_STATIC None (wd_zone w) = Some (Inr (p, z))"
      "wad_ok (w\<lparr>wd_zone := z\<rparr>)" "zarch z = warch w" "\<forall>j. cache (w\<lparr>wd_zone := z\<rparr>) j \<in> {0, cache w j}"
      "\<forall>q\<in>kept (heap (wd_zone w)). heap z q = heap (wd_zone w) q"
      using wad_alloc [OF w sz] False by blast
    let ?wf = "\<lparr>wf_mapped = 0, wf_length = u32 n, wf_fstream = f'\<rparr>"
    have eq: "w\<lparr>wd_files := fs, wd_zone := z\<rparr> = w\<lparr>wd_zone := z, wd_files := fs\<rparr>" for fs by simp
    have "wad_ok (w\<lparr>wd_files := wd_files w @ [?wf], wd_zone := z\<rparr>)" using wad_more_files [OF z(2), of ?wf]
      unfolding eq by simp
    then show ?thesis using z f' by (intro disjI2 exI [of _ z] exI [of _ ?wf]) (simp add: W_StdC_OpenFile_def fo)
  qed
qed

text \<open>The blocks that \<open>W_AddFile\<close> frees: the directory, and the hash table if there is one.\<close>

definition hash_block :: "wads \<Rightarrow> bool" where
  "hash_block w \<longleftrightarrow> wd_lumphash w = 0 \<or> (\<exists>m. heap (wd_zone w) (wd_lumphash w) = Some (m, PU_STATIC, None))"

lemma free_lumphash_wad:
  assumes "wad_ok w" "hash_block w"
  shows "\<exists>z. free_lumphash w = Inr (w\<lparr>wd_zone := z\<rparr>) \<and> wad_ok (w\<lparr>wd_zone := z\<rparr>) \<and> zarch z = warch w \<and> zcells z = zcells (wd_zone w)"
proof (cases "wd_lumphash w = 0")
  case True
  then show ?thesis using assms(1) by (intro exI [of _ "wd_zone w"]) (simp add: free_lumphash_def)
next
  case False
  then obtain m where "heap (wd_zone w) (wd_lumphash w) = Some (m, PU_STATIC, None)" using assms(2) by (auto simp: hash_block_def)
  from wad_free [OF assms(1) this] show ?thesis using False by (auto simp: free_lumphash_def)
qed

lemma wad_ok_lumphash [simp]: "wad_ok (w\<lparr>wd_lumphash := h\<rparr>) \<longleftrightarrow> wad_ok w"
  by (simp add: wad_ok_def cached_ok_def cache_def lump_bytes_def numlumps_def)

lemma fill_lumps_ok:
  assumes w: "wad_ok w" and num: "numlumps w + int (length fs) \<le> INT_MAX" and k: "k < length (wd_files w)"
    and z: "zone_ok z" "zarch z = warch w" "mainzone z = mainzone (wd_zone w)"
    and c: "\<And>i. i < length (wd_lumps w) \<Longrightarrow> zcells z (cache_cell (warch w) new i) = cache w i"
    and h: "\<And>i m t. i < length (wd_lumps w) \<Longrightarrow> cache w i \<noteq> 0 \<Longrightarrow> heap (wd_zone w) (cache w i) = Some (m, t, Some (wcell w i)) \<Longrightarrow>
      heap z (cache w i) = Some (m, t, Some (cache_cell (warch w) new i))"
    and n: "\<And>i. i < length fs \<Longrightarrow> zcells z (cache_cell (warch w) new (length (wd_lumps w) + i)) = 0"
  defines "w' \<equiv> w\<lparr>wd_zone := z, wd_lumpinfo := new, wd_lumps := wd_lumps w @ map2 (fill_lump k) fs (replicate (length fs) empty_lump)\<rparr>"
  shows "wad_ok w'" "\<And>i. i < length (wd_lumps w) \<Longrightarrow> cache w' i = cache w i"
    "\<And>i. i < length fs \<Longrightarrow> cache w' (length (wd_lumps w) + i) = 0"
proof -
  let ?l = "length (wd_lumps w)"
  show c1: "cache w' i = cache w i" if "i < ?l" for i using c [OF that] by (simp add: w'_def cache_def z)
  show c2: "cache w' (?l + i) = 0" if "i < length fs" for i using n [OF that] by (simp add: w'_def cache_def z)
  have "cached_ok w' j \<and> li_wad_file (wd_lumps w' ! j) < length (wd_files w')" if j: "j < ?l + length fs" for j
  proof (cases "j < ?l")
    case True
    have o: "cached_ok w j" "li_wad_file (wd_lumps w ! j) < length (wd_files w)" using w True by (auto simp: wad_ok_def)
    have l: "wd_lumps w' ! j = wd_lumps w ! j" "lump_bytes w' j = lump_bytes w j"
      using True by (simp_all add: w'_def nth_append lump_bytes_def Let_def)
    have "cached_ok w' j" using o(1) h [OF True] unfolding cached_ok_def c1 [OF True] l
      by (auto simp: w'_def z)
    then show ?thesis using o(2) l(1) by (simp add: w'_def)
  next
    case False
    then obtain i where i: "j = ?l + i" "i < length fs" using j le_Suc_ex [of ?l j] by auto
    have "wd_lumps w' ! j = fill_lump k (fs ! i) empty_lump" using i by (simp add: w'_def nth_append)
    then show ?thesis using c2 [OF i(2)] i(1) k by (simp add: cached_ok_def fill_lump_def w'_def)
  qed
  then show "wad_ok w'" using w z num by (simp add: wad_ok_def w'_def numlumps_def)
qed

lemma add_lumps_ok:
  assumes w: "wad_ok w" and num: "numlumps w + int (length fs) \<le> INT_MAX" and new: "new \<noteq> 0" and k: "k < length (wd_files w)"
    and apart: "\<And>i j. i < length (wd_lumps w) + length fs \<Longrightarrow> j < length (wd_lumps w) \<Longrightarrow> cache_cell (warch w) new i \<noteq> wcell w j"
    and f: "heap (wd_zone w) fileinfo = Some (m, t, None)" and hb: "hash_block w" "fileinfo \<noteq> wd_lumphash w"
  shows "\<exists>w'. add_lumps k (numlumps w + int (length fs)) new fileinfo (Inr fs) w = Inr w' \<and> wad_ok w' \<and> wd_lumphash w' = 0 \<and>
    wd_files w' = wd_files w \<and> wd_lumps w' = wd_lumps w @ map2 (fill_lump k) fs (replicate (length fs) empty_lump) \<and>
    (\<forall>i<length (wd_lumps w). cache w' i = cache w i) \<and> (\<forall>i<length fs. cache w' (length (wd_lumps w) + i) = 0)"
proof -
  let ?l = "length (wd_lumps w)" and ?n = "length fs"
  obtain z where z: "ExtendLumpInfo (numlumps w + int ?n) new w =
       Inr (w\<lparr>wd_zone := z, wd_lumpinfo := new, wd_lumps := wd_lumps w @ replicate ?n empty_lump\<rparr>)"
    "zone_ok z" "zarch z = warch w" "mainzone z = mainzone (wd_zone w)"
    and c: "\<And>i. i < ?l \<Longrightarrow> zcells z (cache_cell (warch w) new i) = cache w i"
    and h: "\<And>i m t. i < ?l \<Longrightarrow> cache w i \<noteq> 0 \<Longrightarrow> heap (wd_zone w) (cache w i) = Some (m, t, Some (wcell w i)) \<Longrightarrow>
        heap z (cache w i) = Some (m, t, Some (cache_cell (warch w) new i))"
    and s: "\<And>q m t. heap (wd_zone w) q = Some (m, t, None) \<Longrightarrow> heap z q = Some (m, t, None)"
    using ExtendLumpInfo_ok [OF w num new apart] by auto
  let ?z = "clear_cells new [?l..<?l + ?n] z"
  have zc: "zcells ?z (cache_cell (warch w) new i) = (if ?l \<le> i \<and> i < ?l + ?n then 0 else zcells z (cache_cell (warch w) new i))" for i
    by (auto simp: clear_cells_simps z(3))
  define w2 where "w2 = w\<lparr>wd_zone := ?z, wd_lumpinfo := new, wd_lumps := wd_lumps w @ map2 (fill_lump k) fs (replicate ?n empty_lump)\<rparr>"
  have w2: "wad_ok w2" "\<And>i. i < ?l \<Longrightarrow> cache w2 i = cache w i" "\<And>i. i < ?n \<Longrightarrow> cache w2 (?l + i) = 0"
    unfolding w2_def by (rule fill_lumps_ok [OF w num k]; simp add: clear_cells_simps(1-4) z(2-4) zc c h)+
  have f2: "heap (wd_zone w2) fileinfo = Some (m, t, None)" using s [OF f] by (simp add: w2_def clear_cells_simps)
  obtain z3 where z3: "Z_Free fileinfo (wd_zone w2) = Inr z3" "wad_ok (w2\<lparr>wd_zone := z3\<rparr>)"
    "heap z3 = (heap (wd_zone w2))(fileinfo := None)" "zarch z3 = warch w2" "zcells z3 = zcells (wd_zone w2)"
    using wad_free [OF w2(1) f2] by blast
  have "hash_block (w2\<lparr>wd_zone := z3\<rparr>)"
    using hb s unfolding hash_block_def z3(3) by (auto simp: w2_def z3(3) clear_cells_simps)
  from free_lumphash_wad [OF z3(2) this] obtain z4 where z4: "free_lumphash (w2\<lparr>wd_zone := z3\<rparr>) = Inr (w2\<lparr>wd_zone := z4\<rparr>)"
    "wad_ok (w2\<lparr>wd_zone := z4\<rparr>)" "zarch z4 = zarch z3" "zcells z4 = zcells z3" by auto
  let ?w = "w2\<lparr>wd_zone := z4, wd_lumphash := 0\<rparr>"
  have "add_lumps k (numlumps w + int ?n) new fileinfo (Inr fs) w = Inr ?w"
    using z(1) z3(1) z4(1) by (simp add: add_lumps_def Let_def w2_def)
  moreover have "cache ?w i = cache w2 i" for i using z3(4,5) z4(3,4) by (simp add: cache_def)
  ultimately show ?thesis using z4(2) w2(2,3) by (intro exI [of _ ?w]) (simp add: w2_def)
qed

lemma wad_directory_ok:
  assumes w: "wad_ok w" and k: "k < length (wd_files w)" "file_readable (wf_fstream (wd_files w ! k))"
    and img: "wad_image (f_data (wf_fstream (wd_files w ! k))) num ofs"
  shows "wad_directory k w = Some (Inl alloc_failed) \<or>
    (\<exists>fileinfo m z fs. wad_directory k w = Some (Inr (int num, fileinfo,
        take (16 * num) (drop ofs (f_data (wf_fstream (wd_files w ! k)))), w\<lparr>wd_zone := z, wd_files := fs\<rparr>)) \<and>
      wad_ok (w\<lparr>wd_zone := z, wd_files := fs\<rparr>) \<and> same_files (wd_files w) fs \<and> zarch z = warch w \<and>
      heap z fileinfo = Some (m, PU_STATIC, None) \<and> (\<forall>j. cache (w\<lparr>wd_zone := z\<rparr>) j \<in> {0, cache w j}) \<and>
      (\<forall>q\<in>kept (heap (wd_zone w)). q \<noteq> fileinfo \<and> heap z q = heap (wd_zone w) q))"
proof -
  let ?d = "f_data (wf_fstream (wd_files w ! k))"
  have d: "12 \<le> length ?d" "take 4 ?d \<in> {map of_char ''IWAD'', map of_char ''PWAD''}" "LONG (drop 4 ?d) = int num"
    "LONG (drop 8 ?d) = int ofs" "ofs + 16 * num \<le> length ?d" "16 * int num \<le> INT_MAX - 64" "int ofs \<le> INT_MAX"
    using img by (simp_all add: wad_image_def)
  obtain fs1 where r1: "W_Read k 0 12 w = (12, take 12 ?d, w\<lparr>wd_files := fs1\<rparr>)" "same_files (wd_files w) fs1"
    using W_Read_ok [OF k, of 0 12] d(1) by (auto simp: INT_MAX_def)
  have hd: "LONG (drop 4 (take 12 ?d)) = int num" "LONG (drop 8 (take 12 ?d)) = int ofs" "length (take 12 ?d) = 12"
    using d LONG_take [of 8 "drop 4 ?d"] LONG_take [of 4 "drop 8 ?d"] by (simp_all add: drop_take)
  have l: "i32 (int num * 16) = int num * 16" "0 \<le> int num * 16" "int num * 16 \<le> INT_MAX - 64" "int num * 16 \<le> INT_MAX"
    using d(6) by (auto intro!: i32_id simp: is_i32_def INT_MIN_def INT_MAX_def)
  let ?w1 = "w\<lparr>wd_files := fs1\<rparr>"
  have files: "wad_ok (v\<lparr>wd_files := gs\<rparr>)" if v: "wad_ok v" and gs: "same_files (wd_files v) gs" for v gs
  proof -
    have "cached_ok (v\<lparr>wd_files := gs\<rparr>) j" if j: "j < length (wd_lumps v)" for j
      by (rule cached_keep [of v]) (use v gs j in \<open>auto simp: wad_ok_def cache_def intro!: same_files_bytes\<close>)
    then show ?thesis using v gs by (auto simp: wad_ok_def numlumps_def same_files_def)
  qed
  have w1: "wad_ok ?w1" by (rule files [OF w r1(2)])
  have tk: "take 4 (take 12 ?d) = take 4 ?d" by simp
  have e: "wad_directory k w = bindO (Z_Malloc (int num * 16) PU_STATIC None (wd_zone w)) (\<lambda>(fileinfo, z).
      let (_, bs, w) = W_Read k (int ofs) (int num * 16) (?w1\<lparr>wd_zone := z\<rparr>) in Some (Inr (int num, fileinfo, bs, w)))"
    using d(2) hd by (auto simp: wad_directory_def r1(1) Let_def tk l(1) simp del: take_take)
  show ?thesis
  proof (cases "Z_Malloc (int num * 16) PU_STATIC None (wd_zone w) = Some (Inl alloc_failed)")
    case True
    then show ?thesis by (simp add: e)
  next
    case False
    obtain p z m where z: "Z_Malloc (int num * 16) PU_STATIC None (wd_zone w) = Some (Inr (p, z))"
      "wad_ok (?w1\<lparr>wd_zone := z\<rparr>)" "heap z p = Some (m, PU_STATIC, None)" "zarch z = warch w"
      "\<forall>j. cache (?w1\<lparr>wd_zone := z\<rparr>) j \<in> {0, cache ?w1 j}" "\<forall>q\<in>kept (heap (wd_zone w)). q \<noteq> p \<and> heap z q = heap (wd_zone w) q"
      using wad_alloc [OF w1 l(2,3)] False by auto
    let ?w2 = "?w1\<lparr>wd_zone := z\<rparr>"
    have k2: "k < length (wd_files ?w2)" "file_readable (wf_fstream (wd_files ?w2 ! k))"
      "f_data (wf_fstream (wd_files ?w2 ! k)) = ?d" using k r1(2) by (simp_all add: same_files_def)
    have o: "int ofs + int num * 16 \<le> int (length (f_data (wf_fstream (wd_files ?w2 ! k))))" unfolding k2(3) using d(5) by simp
    have n: "nat (int num * 16) = 16 * num" by simp
    obtain fs2 where r2: "W_Read k (int ofs) (int num * 16) ?w2 = (int num * 16, take (16 * num) (drop ofs ?d), ?w2\<lparr>wd_files := fs2\<rparr>)"
      "same_files (wd_files ?w2) fs2"
      using W_Read_ok [OF k2(1,2) _ d(7) l(2,4) o] unfolding k2(3) n by auto
    have "same_files (wd_files w) fs2" using r1(2) r2(2) by (simp add: same_files_def)
    moreover have "wad_ok (?w2\<lparr>wd_files := fs2\<rparr>)" by (rule files [OF z(2) r2(2)])
    moreover have "?w2\<lparr>wd_files := fs2\<rparr> = w\<lparr>wd_zone := z, wd_files := fs2\<rparr>" by simp
    moreover have "\<forall>j. cache (w\<lparr>wd_zone := z\<rparr>) j \<in> {0, cache w j}" using z(5) by (simp add: cache_def)
    ultimately show ?thesis using z(1,3,4,6) r2(1)
      by (intro disjI2 exI [of _ p] exI [of _ m] exI [of _ z] exI [of _ fs2]) (simp add: e)
  qed
qed

lemma cache_zone: "zarch z = warch w \<Longrightarrow> cache (w\<lparr>wd_files := fs, wd_zone := z\<rparr>) j = cache (w\<lparr>wd_zone := z\<rparr>) j"
  by (simp add: cache_def)

text \<open>
  C31. Adding a WAD file: \<open>W_AddFile\<close> of a file with a complete directory, on a device whose driver reads it and under a name that
  \<open>fopen\<close> opens for reading, appends one lump per entry of the directory, in order, with
  the position, the size and the name of the entry, or reports that the zone is exhausted.
  The lumps that were there keep their numbers, and what they have in the cache stays valid
  although the array of lumps moves; the hash table is dropped.
\<close>

theorem W_AddFile_correct:
  assumes "wad_ok w" "hash_block w" "readable_wad_name fn" "wad_image (f_data f) num ofs"
    "numlumps w + int num \<le> INT_MAX" "new \<noteq> 0"
    "\<forall>i<length (wd_lumps w) + num. \<forall>j<length (wd_lumps w). cache_cell (warch w) new i \<noteq> wcell w j"
    "driver_reads (f_drv f)" "f_size f = int (length (f_data f))"
  shows "W_AddFile fn (Some f) new w = Some (Inl alloc_failed) \<or>
    (\<exists>w'. W_AddFile fn (Some f) new w = Some (Inr (Some (length (wd_files w)), w')) \<and> wad_ok w' \<and> wd_lumphash w' = 0 \<and>
       take (length (wd_lumps w)) (wd_lumps w') = wd_lumps w \<and> length (wd_lumps w') = length (wd_lumps w) + num \<and>
       (\<forall>i<num. dir_lump (length (wd_files w)) (take 16 (drop (ofs + 16 * i) (f_data f))) (wd_lumps w' ! (length (wd_lumps w) + i)) \<and>
          cache w' (length (wd_lumps w) + i) = 0) \<and>
       (\<forall>j<length (wd_lumps w). cache w' j \<in> {0, cache w j}))"
proof -
  let ?l = "length (wd_lumps w)" and ?k = "length (wd_files w)"
  have nm: "CHR ''r'' \<in> set fn \<or> CHR ''w'' \<notin> set fn" "\<not> length fn < 3"
    "strcasecmp (map of_char (drop (length fn - 3) fn)) (map of_char ''wad'') = 0"
    using assms(3) by (simp_all add: readable_wad_name_def)
  from W_StdC_OpenFile_ok [OF assms(1) nm(1) assms(8,9)] show ?thesis
  proof (elim disjE exE conjE)
    assume "W_StdC_OpenFile fn (Some f) w = Some (Inl alloc_failed)"
    then show ?thesis by (simp add: W_AddFile_def)
  next
    fix z wf
    let ?w1 = "w\<lparr>wd_files := wd_files w @ [wf], wd_zone := z\<rparr>"
    assume op: "W_StdC_OpenFile fn (Some f) w = Some (Inr (Some ?k, ?w1))" and w1: "wad_ok ?w1" and za: "zarch z = warch w"
      and wf: "f_data (wf_fstream wf) = f_data f" "file_readable (wf_fstream wf)"
      and c1: "\<forall>j. cache (w\<lparr>wd_zone := z\<rparr>) j \<in> {0, cache w j}"
      and k1: "\<forall>q\<in>kept (heap (wd_zone w)). heap z q = heap (wd_zone w) q"
    have add: "W_AddFile fn (Some f) new w = bindO (wad_directory ?k ?w1) (\<lambda>(num, fileinfo, bs, w).
        Some (bindE (add_lumps ?k (i32 (numlumps w + num)) new fileinfo (read_dir (nat num) bs) w) (\<lambda>w. Inr (Some ?k, w))))"
      using nm by (simp add: W_AddFile_def op)
    have h1: "?k < length (wd_files ?w1)" "file_readable (wf_fstream (wd_files ?w1 ! ?k))"
      "wad_image (f_data (wf_fstream (wd_files ?w1 ! ?k))) num ofs" using wf assms(4) by simp_all
    have fd: "f_data (wf_fstream (wd_files ?w1 ! ?k)) = f_data f" using wf by simp
    from wad_directory_ok [OF w1 h1, unfolded fd] show ?thesis
    proof (elim disjE exE conjE)
      assume "wad_directory ?k ?w1 = Some (Inl alloc_failed)"
      then show ?thesis by (simp add: add)
    next
      fix fileinfo m z2 fs
      let ?w2 = "?w1\<lparr>wd_zone := z2, wd_files := fs\<rparr>"
      let ?bs = "take (16 * num) (drop ofs (f_data f))"
      assume dir: "wad_directory ?k ?w1 = Some (Inr (int num, fileinfo, ?bs, ?w2))" and w2: "wad_ok ?w2"
        and sf: "same_files (wd_files ?w1) fs" and za2: "zarch z2 = warch ?w1" and hf: "heap z2 fileinfo = Some (m, PU_STATIC, None)"
        and c2: "\<forall>j. cache (?w1\<lparr>wd_zone := z2\<rparr>) j \<in> {0, cache ?w1 j}"
        and k2: "\<forall>q\<in>kept (heap (wd_zone ?w1)). q \<noteq> fileinfo \<and> heap z2 q = heap (wd_zone ?w1) q"
      let ?fl = "\<lambda>i. \<lparr>fl_filepos = LONG (drop (16 * i) ?bs), fl_size = LONG (drop (16 * i + 4) ?bs),
        fl_name = take 8 (drop (16 * i + 8) ?bs)\<rparr>"
      let ?fs = "map ?fl [0..<num]"
      have im: "ofs + 16 * num \<le> length (f_data f)" using assms(4) by (simp add: wad_image_def)
      then have rd: "read_dir num ?bs = Inr ?fs" by (intro read_dir_ok) simp
      have static: "PU_STATIC < PU_PURGELEVEL" by (simp add: PU_defs)
      have hb: "hash_block ?w2" "fileinfo \<noteq> wd_lumphash ?w2"
      proof -
        show "hash_block ?w2" using assms(2) k1 k2 static unfolding hash_block_def by (force simp: kept_def)
        have "wd_lumphash w = 0 \<or> wd_lumphash w \<in> kept (heap (wd_zone ?w1))"
          using assms(2) k1 static unfolding hash_block_def by (force simp: kept_def)
        moreover have "fileinfo \<noteq> 0" using block_not_null [of z2 fileinfo] hf w2 by (auto simp: wad_ok_def)
        ultimately show "fileinfo \<noteq> wd_lumphash ?w2" using k2 by auto
      qed
      have nl: "numlumps ?w2 + int (length ?fs) \<le> INT_MAX" using assms(5) by (simp add: numlumps_def)
      have kk: "?k < length (wd_files ?w2)" using sf by (simp add: same_files_def)
      have ap: "cache_cell (warch ?w2) new i \<noteq> wcell ?w2 j" if "i < length (wd_lumps ?w2) + length ?fs" "j < length (wd_lumps ?w2)" for i j
        using assms(7) that za za2 by simp
      have hf2: "heap (wd_zone ?w2) fileinfo = Some (m, PU_STATIC, None)" using hf by simp
      from add_lumps_ok [OF w2 nl assms(6) kk ap hf2 hb] obtain w' where
        w': "add_lumps ?k (numlumps ?w2 + int (length ?fs)) new fileinfo (Inr ?fs) ?w2 = Inr w'" "wad_ok w'" "wd_lumphash w' = 0"
        "wd_lumps w' = wd_lumps w @ map2 (fill_lump ?k) ?fs (replicate num empty_lump)"
        "\<forall>i<?l. cache w' i = cache ?w2 i" "\<forall>i<num. cache w' (?l + i) = 0" by auto
      have i: "i32 (numlumps ?w2 + int num) = numlumps ?w2 + int (length ?fs)"
        using nl by (intro trans [OF i32_id]) (simp_all add: is_i32_def INT_MIN_def numlumps_def)
      have "W_AddFile fn (Some f) new w = Some (Inr (Some ?k, w'))"
        using w'(1) by (simp only: add dir bindO_simps case_prod_conv i rd nat_int bindE_simps)
      moreover have "dir_lump ?k (take 16 (drop (ofs + 16 * i) (f_data f))) (wd_lumps w' ! (?l + i))" if "i < num" for i
      proof -
        have l: "wd_lumps w' ! (?l + i) = fill_lump ?k (?fl i) empty_lump" using that by (simp add: w'(4) nth_append)
        have s: "take n (drop (16 * i + a) ?bs) = take n (drop a (take 16 (drop (ofs + 16 * i) (f_data f))))" if "a + n \<le> 16" for a n
          using that \<open>i < num\<close> im by (simp add: drop_take min_def add.commute add.left_commute)
        have L: "LONG (drop (16 * i + a) ?bs) = LONG (drop a (take 16 (drop (ofs + 16 * i) (f_data f))))" if "a + 4 \<le> 16" for a
          using arg_cong [OF s [OF that], of LONG] by (simp only: LONG_take)
        have "length (take 8 (drop (16 * i + 8) ?bs)) = 8" using \<open>i < num\<close> im by simp
        then show ?thesis using L [of 0] L [of 4] s [of 8 8] strncpy_zeros [of 8 "take 8 (drop (16 * i + 8) ?bs)"]
          unfolding l dir_lump_def fill_lump_def empty_lump_def by (simp add: Let_def)
      qed
      moreover have "cache w' j \<in> {0, cache w j}" if "j < ?l" for j
      proof -
        have "cache w' j = cache (?w1\<lparr>wd_zone := z2\<rparr>) j" using w'(5) that by (simp add: cache_def)
        moreover have "cache ?w1 j = cache (w\<lparr>wd_zone := z\<rparr>) j" by (simp add: cache_def)
        ultimately show ?thesis using c1 c2 by (metis insertE insertI1 insertI2 singletonD)
      qed
      ultimately show ?thesis using w'(2,3,4,6) by (intro disjI2 exI [of _ w']) simp
    qed
  qed
qed


theorem W_AddFile_correct_witness:
  "W_AddFile ''dir/demo.wad'' (Some (wf_fstream demo_wad_file)) 6000 demo_wads = Some (Inl alloc_failed) \<or>
     (\<exists>w'. W_AddFile ''dir/demo.wad'' (Some (wf_fstream demo_wad_file)) 6000 demo_wads = Some (Inr (Some 1, w')) \<and> wad_ok w' \<and>
        map li_name (wd_lumps w') = [[68, 69, 77, 79, 0, 0, 0, 0], [100, 69, 77, 79, 0, 0, 0, 0]])"
proof -
  have n: "readable_wad_name ''dir/demo.wad''" unfolding readable_wad_name_def by code_simp
  have i: "wad_image (f_data (wf_fstream demo_wad_file)) 1 16"
    by (simp add: wad_image_def demo_wad_file_def LONG_def INT_MAX_def i32_def signed_take_bit_int_eq_self)
  have h: "hash_block demo_wads" by (simp add: hash_block_def demo_wads_def)
  have l: "wd_lumps demo_wads = [demo_lump]" "wd_lumpinfo demo_wads = 5000" "numlumps demo_wads = 1" "warch demo_wads = LP64"
    "length (wd_files demo_wads) = 1" by (simp_all add: demo_wads_def numlumps_def small_zone_free)
  have a: "\<forall>i<length (wd_lumps demo_wads) + 1. \<forall>j<length (wd_lumps demo_wads). cache_cell (warch demo_wads) 6000 i \<noteq> wcell demo_wads j"
    by (simp add: l cache_cell_def)
  have nl: "numlumps demo_wads + int 1 \<le> INT_MAX" by (simp add: l INT_MAX_def)
  have ne: "(6000 :: int) \<noteq> 0" by simp
  have dr: "driver_reads (f_drv (wf_fstream demo_wad_file))"
    "f_size (wf_fstream demo_wad_file) = int (length (f_data (wf_fstream demo_wad_file)))"
    by (simp_all add: demo_wad_file_def memory_driver_ok)
  from W_AddFile_correct [OF demo_wads_ok(1) h n i nl ne a dr] show ?thesis
  proof (elim disjE exE conjE)
    fix w' assume r: "W_AddFile ''dir/demo.wad'' (Some (wf_fstream demo_wad_file)) 6000 demo_wads = Some (Inr (Some (length (wd_files demo_wads)), w'))"
      and o: "wad_ok w'" and t: "take (length (wd_lumps demo_wads)) (wd_lumps w') = wd_lumps demo_wads"
      and n: "length (wd_lumps w') = length (wd_lumps demo_wads) + 1"
      and d: "\<forall>i<1. dir_lump (length (wd_files demo_wads)) (take 16 (drop (16 + 16 * i) (f_data (wf_fstream demo_wad_file))))
          (wd_lumps w' ! (length (wd_lumps demo_wads) + i)) \<and> cache w' (length (wd_lumps demo_wads) + i) = 0"
    obtain l1 l2 where w: "wd_lumps w' = [l1, l2]" using n by (auto simp: l length_Suc_conv)
    have "li_name l1 = [68, 69, 77, 79, 0, 0, 0, 0]" using t by (simp add: w l demo_lump_def)
    moreover have "li_name l2 = [100, 69, 77, 79, 0, 0, 0, 0]" using d by (simp add: w l dir_lump_def demo_wad_file_def) (simp add: numeral_eq_Suc)
    ultimately show ?thesis using r o w l(5) by auto
  qed simp_all
qed


end
