(* ===== verification/Clip.thy ===== *)
theory Clip
  imports Prelude
begin

text \<open>
  Clipping of walls by columns (\<^verbatim>\<open>r_bsp.c\<close>): the renderer goes from front to back and keeps
  the columns that solid walls have covered in the array \<open>solidsegs\<close>. A call draws the
  columns of its range that are still open; the calls of \<open>R_StoreWallRange\<close> are the trace of
  ranges that an operation returns.
\<close>

section \<open>Operations\<close>

record cliprange_t =
  cr_first :: int
  cr_last :: int

definition MAXSEGS :: nat where "MAXSEGS = 32"

text \<open>\<open>newend\<close> is an index of the array.\<close>

record clip =
  solidsegs :: "cliprange_t list"
  newend :: nat

definition R_ClearClipSegs :: "int \<Rightarrow> clip \<Rightarrow> clip" where
  "R_ClearClipSegs viewwidth c =
     c\<lparr>solidsegs := (solidsegs c)[0 := \<lparr>cr_first = - 0x7fffffff, cr_last = - 1\<rparr>, 1 := \<lparr>cr_first = viewwidth, cr_last = 0x7fffffff\<rparr>],
       newend := 2\<rparr>"

text \<open>The loops run to the end of the array at most; beyond it is other memory.\<close>

function find_start :: "int \<Rightarrow> cliprange_t list \<Rightarrow> nat \<Rightarrow> nat result" where
  "find_start x segs i =
     (if i \<ge> length segs then Inl Bad_Access
      else if cr_last (segs ! i) < x then find_start x segs (Suc i) else Inr i)"
  by auto
termination by (relation "measure (\<lambda>(x, segs, i). length segs - i)") auto

text \<open>
  The fragments between \<open>next\<close> and the posts after it, up to the column \<open>stop\<close>. Result: the
  ranges, the post that was reached, and whether it contains \<open>stop\<close>.
\<close>

function fragments :: "int \<Rightarrow> cliprange_t list \<Rightarrow> nat \<Rightarrow> ((int \<times> int) list \<times> nat \<times> bool) result" where
  "fragments stop segs next =
     (if Suc next \<ge> length segs then Inl Bad_Access
      else if stop \<ge> i32 (cr_first (segs ! Suc next) - 1)
      then (let r = (i32 (cr_last (segs ! next) + 1), i32 (cr_first (segs ! Suc next) - 1))
            in if stop \<le> cr_last (segs ! Suc next) then Inr ([r], Suc next, True)
               else bindE (fragments stop segs (Suc next)) (\<lambda>(rs, n, b). Inr (r # rs, n, b)))
      else Inr ([], next, False))"
  by auto
termination by (relation "measure (\<lambda>(stop, segs, next). length segs - next)") auto

text \<open>Moving the posts from \<open>start\<close> on up by one.\<close>

definition insert_post :: "nat \<Rightarrow> cliprange_t \<Rightarrow> clip \<Rightarrow> clip result" where
  "insert_post start post c =
     (if newend c \<ge> length (solidsegs c) \<or> newend c < start then Inl Bad_Access
      else Inr (c\<lparr>solidsegs := take start (solidsegs c) @ [post] @ take (newend c - start) (drop start (solidsegs c)) @
                    drop (Suc (newend c)) (solidsegs c),
                  newend := Suc (newend c)\<rparr>))"

text \<open>\<open>while (next++ != newend) *++start = *next\<close>, which also copies the post at \<open>newend\<close>.\<close>

definition crunch :: "nat \<Rightarrow> nat \<Rightarrow> clip \<Rightarrow> clip result" where
  "crunch start next c =
     (if newend c \<ge> length (solidsegs c) \<or> newend c < next then Inl Bad_Access
      else let n = newend c - next; segs = solidsegs c
           in Inr (c\<lparr>solidsegs := take (Suc start) segs @ take n (drop (Suc next) segs) @ drop (Suc start + n) segs,
                     newend := Suc (start + n)\<rparr>))"

definition set_post :: "nat \<Rightarrow> (cliprange_t \<Rightarrow> cliprange_t) \<Rightarrow> clip \<Rightarrow> clip" where
  "set_post i f c = c\<lparr>solidsegs := (solidsegs c)[i := f (solidsegs c ! i)]\<rparr>"

text \<open>The part of the range that is not above \<open>start\<close>; \<open>upper\<close> has been stored before.\<close>

definition clip_below :: "nat \<Rightarrow> int \<Rightarrow> (int \<times> int) list \<Rightarrow> clip \<Rightarrow> ((int \<times> int) list \<times> clip) result" where
  "clip_below start stop upper c =
     (if stop \<le> cr_last (solidsegs c ! start) then Inr (upper, c)
      else bindE (fragments stop (solidsegs c) start) (\<lambda>(rs, next, inside).
        let segs = solidsegs c;
            (rs, c) = (if inside then (upper @ rs, set_post start (\<lambda>p. p\<lparr>cr_last := cr_last (segs ! next)\<rparr>) c)
                       else (upper @ rs @ [(i32 (cr_last (segs ! next) + 1), stop)],
                             set_post start (\<lambda>p. p\<lparr>cr_last := stop\<rparr>) c))
        in if next = start then Inr (rs, c) else bindE (crunch start next c) (\<lambda>c. Inr (rs, c))))"

definition R_ClipSolidWallSegment :: "int \<Rightarrow> int \<Rightarrow> clip \<Rightarrow> ((int \<times> int) list \<times> clip) result" where
  "R_ClipSolidWallSegment first stop c =
     bindE (find_start (i32 (first - 1)) (solidsegs c) 0) (\<lambda>start.
     let post = solidsegs c ! start
     in if first < cr_first post \<and> stop < i32 (cr_first post - 1)
        then bindE (insert_post start \<lparr>cr_first = first, cr_last = stop\<rparr> c) (\<lambda>c. Inr ([(first, stop)], c))
        else if first < cr_first post
        then clip_below start stop [(first, i32 (cr_first post - 1))] (set_post start (\<lambda>p. p\<lparr>cr_first := first\<rparr>) c)
        else clip_below start stop [] c)"

definition R_ClipPassWallSegment :: "int \<Rightarrow> int \<Rightarrow> clip \<Rightarrow> (int \<times> int) list result" where
  "R_ClipPassWallSegment first stop c =
     bindE (find_start (i32 (first - 1)) (solidsegs c) 0) (\<lambda>start.
     let segs = solidsegs c; post = segs ! start
     in if first < cr_first post \<and> stop < i32 (cr_first post - 1) then Inr [(first, stop)]
        else
          let above = (if first < cr_first post then [(first, i32 (cr_first post - 1))] else [])
          in if stop \<le> cr_last post then Inr above
             else bindE (fragments stop segs start) (\<lambda>(rs, next, inside).
               Inr (if inside then above @ rs else above @ rs @ [(i32 (cr_last (segs ! next) + 1), stop)])))"

text \<open>The end of \<open>R_CheckBBox\<close>: is a column of the range from \<open>sx1\<close> to \<open>sx2\<close> open?\<close>

definition span_open :: "int \<Rightarrow> int \<Rightarrow> clip \<Rightarrow> bool result" where
  "span_open sx1 sx2 c =
     bindE (find_start sx2 (solidsegs c) 0) (\<lambda>start.
     let post = solidsegs c ! start
     in Inr (\<not> (sx1 \<ge> cr_first post \<and> sx2 \<le> cr_last post)))"

declare find_start.simps [simp del] fragments.simps [simp del]

section \<open>Posts and columns\<close>

definition covered :: "cliprange_t list \<Rightarrow> int set" where
  "covered ps = (\<Union>p\<in>set ps. {cr_first p..cr_last p})"

definition columns :: "(int \<times> int) list \<Rightarrow> int set" where
  "columns rs = (\<Union>(a, b)\<in>set rs. {a..b})"

lemma covered_simps [simp]:
  "covered [] = {}" "covered (p # ps) = {cr_first p..cr_last p} \<union> covered ps" "covered (ps @ qs) = covered ps \<union> covered qs"
  by (auto simp: covered_def)

lemma columns_simps [simp]:
  "columns [] = {}" "columns ((a, b) # rs) = {a..b} \<union> columns rs" "columns (rs @ ss) = columns rs \<union> columns ss"
  by (auto simp: columns_def)

text \<open>Ranges that are not empty, in order and do not overlap.\<close>

definition proper :: "(int \<times> int) list \<Rightarrow> bool" where
  "proper rs \<longleftrightarrow> (\<forall>r\<in>set rs. fst r \<le> snd r) \<and> sorted_wrt (\<lambda>r s. snd r < fst s) rs"

lemma proper_Cons: "proper (r # rs) \<longleftrightarrow> fst r \<le> snd r \<and> (\<forall>s\<in>set rs. snd r < fst s) \<and> proper rs"
  by (auto simp: proper_def)

lemma proper_fst:
  assumes "proper rs" "r \<in> set rs"
  shows "fst r \<in> columns rs"
  unfolding columns_def using assms by (intro UN_I [of r]) (auto simp: proper_def split: prod.splits)

text \<open>The posts in order, with at least one open column between neighbours.\<close>

definition gapped :: "cliprange_t list \<Rightarrow> bool" where
  "gapped ps \<longleftrightarrow> (\<forall>p\<in>set ps. - 0x7fffffff \<le> cr_first p \<and> cr_first p \<le> cr_last p \<and> cr_last p \<le> 0x7fffffff) \<and>
     sorted_wrt (\<lambda>p q. cr_last p + 1 < cr_first q) ps"

definition posts_ok :: "cliprange_t list \<Rightarrow> bool" where
  "posts_ok ps \<longleftrightarrow> ps \<noteq> [] \<and> gapped ps \<and> cr_first (hd ps) = - 0x7fffffff \<and> cr_last (List.last ps) = 0x7fffffff"

lemma gapped_Cons: "gapped (p # ps) \<longleftrightarrow> - 0x7fffffff \<le> cr_first p \<and> cr_first p \<le> cr_last p \<and> cr_last p \<le> 0x7fffffff \<and>
    (\<forall>q\<in>set ps. cr_last p + 1 < cr_first q) \<and> gapped ps"
  by (auto simp: gapped_def)

lemma gapped_append: "gapped (ps @ qs) \<longleftrightarrow> gapped ps \<and> gapped qs \<and> (\<forall>p\<in>set ps. \<forall>q\<in>set qs. cr_last p + 1 < cr_first q)"
  by (auto simp: gapped_def sorted_wrt_append)

lemma i32_pred: "- 0x7fffffff \<le> x \<Longrightarrow> x \<le> 0x7fffffff \<Longrightarrow> i32 (x - 1) = x - 1"
  by (rule i32_id) (simp add: is_i32_iff)

lemma i32_succ: "- 0x7fffffff \<le> x \<Longrightarrow> x < 0x7fffffff \<Longrightarrow> i32 (x + 1) = x + 1"
  by (rule i32_id) (simp add: is_i32_iff)

lemma find_start_at:
  "\<forall>a\<in>set ps. cr_last a < x \<Longrightarrow> x \<le> cr_last p \<Longrightarrow> find_start x (qs @ ps @ p # rs) (length qs) = Inr (length qs + length ps)"
proof (induction ps arbitrary: qs)
  case Nil
  then show ?case by (subst find_start.simps) simp
next
  case (Cons a ps)
  have "find_start x ((qs @ [a]) @ ps @ p # rs) (length (qs @ [a])) = Inr (length (qs @ [a]) + length ps)"
    using Cons.prems by (intro Cons.IH) simp_all
  then show ?case using Cons.prems by (subst find_start.simps) simp
qed

lemma split_posts:
  assumes "posts_ok ps" "x \<le> 0x7fffffff"
  obtains qs p rs where "ps = qs @ p # rs" "\<forall>a\<in>set qs. cr_last a < x" "x \<le> cr_last p"
proof -
  have "\<exists>p\<in>set ps. x \<le> cr_last p" using assms by (intro bexI [of _ "List.last ps"]) (auto simp: posts_ok_def)
  from split_list_first_prop [OF this] show thesis using that by fastforce
qed

lemma find_start_posts:
  assumes "\<forall>a\<in>set qs. cr_last a < x" "x \<le> cr_last p"
  shows "find_start x ((qs @ p # rs) @ junk) 0 = Inr (length qs)"
  using find_start_at [OF assms, of "[]" "rs @ junk"] by simp

section \<open>The fragments between posts\<close>

text \<open>
  The posts \<open>ds\<close> that the loop steps over, and what it draws when the rest up to \<open>stop\<close> is
  added.
\<close>

definition with_rest :: "int \<Rightarrow> cliprange_t \<Rightarrow> bool \<Rightarrow> (int \<times> int) list \<Rightarrow> (int \<times> int) list" where
  "with_rest stop q inside rs = (if inside then rs else rs @ [(cr_last q + 1, stop)])"

lemma fragments_ok:
  assumes "gapped (p # ps)" "cr_last p < stop" "stop \<le> cr_last (List.last (p # ps))"
  shows "\<exists>rs ds es inside. fragments stop (qs @ (p # ps) @ junk) (length qs) = Inr (rs, length qs + length ds, inside) \<and>
    ps = ds @ es \<and> proper (with_rest stop (List.last (p # ds)) inside rs) \<and>
    columns (with_rest stop (List.last (p # ds)) inside rs) = {cr_last p<..stop} - covered ds \<and>
    (if inside then ds \<noteq> [] \<and> cr_first (List.last ds) \<le> stop + 1 \<and> stop \<le> cr_last (List.last ds)
     else cr_last (List.last (p # ds)) < stop \<and> (\<forall>e\<in>set es. stop + 1 < cr_first e))"
  using assms
proof (induction ps arbitrary: p qs)
  case Nil
  then show ?case by simp
next
  case (Cons q ps)
  let ?segs = "qs @ p # q # ps @ junk" and ?r = "(cr_last p + 1, cr_first q - 1)"
  have g: "cr_last p + 1 < cr_first q" "cr_first q \<le> cr_last q" "gapped (q # ps)" "- 0x7fffffff \<le> cr_last p" "cr_last q \<le> 0x7fffffff"
    using Cons.prems(1) by (auto simp: gapped_Cons)
  have nth: "?segs ! length qs = p" "?segs ! Suc (length qs) = q" by (simp_all add: nth_append)
  have i: "i32 (cr_first q - 1) = cr_first q - 1" "i32 (cr_last p + 1) = cr_last p + 1"
    using g by (auto intro!: i32_pred i32_succ)
  have u: "fragments stop ?segs (length qs) =
      (if stop \<ge> cr_first q - 1
       then if stop \<le> cr_last q then Inr ([?r], Suc (length qs), True)
            else bindE (fragments stop ?segs (Suc (length qs))) (\<lambda>(rs, n, b). Inr (?r # rs, n, b))
       else Inr ([], length qs, False))"
    by (subst fragments.simps) (simp only: nth i Let_def, simp)
  consider (before) "stop < cr_first q - 1" | (within) "cr_first q - 1 \<le> stop" "stop \<le> cr_last q" | (beyond) "cr_last q < stop"
    using g by linarith
  then show ?case
  proof cases
    case before
    have after: "\<forall>e\<in>set (q # ps). stop + 1 < cr_first e" using before g(3) g(2) by (auto simp: gapped_Cons)
    show ?thesis
      apply (rule exI [of _ "[]"], rule exI [of _ "[]"], rule exI [of _ "q # ps"], rule exI [of _ False])
      using after before Cons.prems(2) by (auto simp: u with_rest_def proper_def)
  next
    case within
    have "{cr_last p + 1..cr_first q - 1} = {cr_last p<..stop} - {cr_first q..cr_last q}" using within g by auto
    then show ?thesis using within g
      by (intro exI [of _ "[?r]"] exI [of _ "[q]"] exI [of _ ps] exI [of _ True]) (simp add: u with_rest_def proper_def)
  next
    case beyond
    have "stop \<le> cr_last (List.last (q # ps))" using Cons.prems(3) by simp
    from Cons.IH [OF g(3) beyond this, of "qs @ [p]"] obtain rs ds es inside where
      r: "fragments stop ?segs (Suc (length qs)) = Inr (rs, Suc (length qs) + length ds, inside)" "ps = ds @ es"
      and pr: "proper (with_rest stop (List.last (q # ds)) inside rs)"
      and c: "columns (with_rest stop (List.last (q # ds)) inside rs) = {cr_last q<..stop} - covered ds"
      and e: "if inside then ds \<noteq> [] \<and> cr_first (List.last ds) \<le> stop + 1 \<and> stop \<le> cr_last (List.last ds)
        else cr_last (List.last (q # ds)) < stop \<and> (\<forall>e\<in>set es. stop + 1 < cr_first e)" by auto
    have w: "with_rest stop (List.last (p # q # ds)) inside (?r # rs) = ?r # with_rest stop (List.last (q # ds)) inside rs"
      by (simp add: with_rest_def)
    have "cr_last q < fst s" if "s \<in> set (with_rest stop (List.last (q # ds)) inside rs)" for s
      using proper_fst [OF pr that] unfolding c by simp
    then have "proper (?r # with_rest stop (List.last (q # ds)) inside rs)"
      using pr g by (fastforce simp: proper_Cons)
    moreover have "{cr_last p + 1..cr_first q - 1} \<union> ({cr_last q<..stop} - covered ds) = {cr_last p<..stop} - covered (q # ds)"
    proof -
      have "x \<notin> covered ds" if "x \<le> cr_last q" for x using g(3) r(2) that by (force simp: covered_def gapped_Cons)
      then show ?thesis using g(1,2) beyond by auto
    qed
    moreover have "fragments stop ?segs (length qs) = Inr (?r # rs, length qs + length (q # ds), inside)"
      unfolding u using r(1) beyond g(1,2) by simp
    ultimately show ?thesis
      apply -
      apply (rule exI [of _ "?r # rs"], rule exI [of _ "q # ds"], rule exI [of _ es], rule exI [of _ inside])
      using r(2) e by (simp only: w columns_simps c) (simp split: if_splits)
  qed
qed

section \<open>The operations on the posts\<close>

text \<open>
  The array holds the posts and, behind the post that ends with the largest column, junk:
  \<open>crunch\<close> copies one post too many and leaves \<open>newend\<close> one too far.
\<close>

fun live :: "cliprange_t list \<Rightarrow> cliprange_t list" where
  "live [] = []"
| "live (p # ps) = p # (if cr_last p = 0x7fffffff then [] else live ps)"

definition clip_ok :: "clip \<Rightarrow> bool" where
  "clip_ok c \<longleftrightarrow> length (solidsegs c) = MAXSEGS \<and> newend c \<le> MAXSEGS \<and>
     posts_ok (live (solidsegs c)) \<and> length (live (solidsegs c)) \<le> newend c"

lemma live_posts:
  assumes "posts_ok ps"
  shows "live (ps @ junk) = ps"
proof -
  have "gapped ps \<Longrightarrow> ps \<noteq> [] \<Longrightarrow> cr_last (List.last ps) = 0x7fffffff \<Longrightarrow> live (ps @ junk) = ps"
  proof (induction ps)
    case (Cons p ps)
    then show ?case by (cases ps) (auto simp: gapped_Cons)
  qed simp
  then show ?thesis using assms by (simp add: posts_ok_def)
qed

lemma live_prefix: "\<exists>junk. ps = live ps @ junk"
  by (induction ps) auto

text \<open>What an operation with the range from \<open>first\<close> to \<open>stop\<close> draws.\<close>

definition draws :: "int \<Rightarrow> int \<Rightarrow> int set \<Rightarrow> (int \<times> int) list \<Rightarrow> bool" where
  "draws first stop cov rs \<longleftrightarrow> proper rs \<and> columns rs = {first..stop} - cov"

text \<open>The first post that touches the range, extended to it.\<close>

definition widen :: "int \<Rightarrow> cliprange_t \<Rightarrow> cliprange_t" where
  "widen first p = (if first < cr_first p then p\<lparr>cr_first := first\<rparr> else p)"

definition fragment_above :: "int \<Rightarrow> cliprange_t \<Rightarrow> (int \<times> int) list" where
  "fragment_above first p = (if first < cr_first p then [(first, cr_first p - 1)] else [])"

lemma widen_simps [simp]:
  "cr_last (widen first p) = cr_last p" "cr_first (widen first p) = min first (cr_first p)"
  by (simp_all add: widen_def)

lemma posts_bounds:
  assumes "posts_ok (qs @ p # ps)"
  shows "gapped (p # ps)" "- 0x7fffffff \<le> cr_first p" "cr_first p \<le> cr_last p" "cr_last p \<le> 0x7fffffff"
    "cr_last (List.last (p # ps)) = 0x7fffffff" "qs = [] \<Longrightarrow> cr_first p = - 0x7fffffff"
  using assms by (auto simp: posts_ok_def gapped_append gapped_Cons)

lemma posts_widen:
  assumes ok: "posts_ok (qs @ p # ps)" and q: "\<forall>a\<in>set qs. cr_last a < first - 1" and f: "- 0x7fffffff < first"
  shows "posts_ok (qs @ widen first p # ps)"
proof -
  note b = posts_bounds [OF ok]
  have "widen first p = p" if "qs = []" using b(6) [OF that] f by (simp add: widen_def)
  moreover have "gapped (qs @ widen first p # ps)" using ok q f by (auto simp: posts_ok_def gapped_append gapped_Cons)
  ultimately show ?thesis using ok by (cases qs) (auto simp: posts_ok_def)
qed

lemma posts_insert:
  assumes ok: "posts_ok (qs @ p # ps)" and q: "\<forall>a\<in>set qs. cr_last a < first - 1"
    and r: "- 0x7fffffff < first" "first \<le> stop" "stop < cr_first p - 1"
  shows "posts_ok (qs @ \<lparr>cr_first = first, cr_last = stop\<rparr> # p # ps)"
proof -
  note b = posts_bounds [OF ok]
  have "qs \<noteq> []" using b(6) r by auto
  moreover have "\<forall>x\<in>set ps. cr_last p + 1 < cr_first x" using b(1) by (simp add: gapped_Cons)
  ultimately show ?thesis using ok q r b by (fastforce simp: posts_ok_def gapped_append gapped_Cons)
qed

lemma posts_merge:
  assumes ok: "posts_ok (qs @ p # ds @ es)" and l: "cr_last p < l" "l \<le> 0x7fffffff"
    and e: "if es = [] then l = 0x7fffffff else \<forall>e\<in>set es. l + 1 < cr_first e"
  shows "posts_ok (qs @ p\<lparr>cr_last := l\<rparr> # es)"
proof -
  have "gapped (qs @ p\<lparr>cr_last := l\<rparr> # es)" using ok l e
    by (auto simp: posts_ok_def gapped_append gapped_Cons split: if_splits)
  then show ?thesis using ok e by (cases qs; cases es) (auto simp: posts_ok_def split: if_splits)
qed

lemma draws_above:
  assumes ok: "posts_ok (qs @ p # ps)" and q: "\<forall>a\<in>set qs. cr_last a < first - 1"
    and rs: "proper rs" "columns rs = {cr_last p<..stop} - covered ds" and ps: "ps = ds @ es" "\<forall>e\<in>set es. stop < cr_first e"
    and r: "first - 1 \<le> cr_last p" "first \<le> stop" "cr_last p \<le> stop"
  shows "draws first stop (covered (qs @ p # ps)) (fragment_above first p @ rs)"
proof -
  note b = posts_bounds [OF ok]
  have "cr_last p < fst s" if "s \<in> set rs" for s using proper_fst [OF rs(1) that] by (simp add: rs(2))
  then have "proper (fragment_above first p @ rs)" using rs(1) b(3) by (fastforce simp: fragment_above_def proper_Cons)
  moreover have "columns (fragment_above first p @ rs) = {first..stop} - covered (qs @ p # ps)"
  proof -
    have 1: "x \<notin> covered qs" if "first \<le> x" for x using q that by (force simp: covered_def)
    have 2: "x \<notin> covered es" if "x \<le> stop" for x using ps(2) that by (force simp: covered_def)
    have 3: "x \<notin> covered ds" if "x \<le> cr_last p" for x using b(1) ps(1) that by (force simp: covered_def gapped_Cons)
    have "columns (fragment_above first p) = {first..<cr_first p}" by (auto simp: fragment_above_def)
    then show ?thesis using 1 2 3 r b(3) unfolding columns_simps covered_simps rs(2) ps(1) by auto
  qed
  ultimately show ?thesis by (simp add: draws_def)
qed

lemma set_post_at: "solidsegs c = qs @ p # rs \<Longrightarrow> set_post (length qs) f c = c\<lparr>solidsegs := qs @ f p # rs\<rparr>"
  by (simp add: set_post_def nth_append list_update_append)

text \<open>The posts \<open>ps\<close> in the array, and what an operation promises of them.\<close>

definition holds_posts :: "cliprange_t list \<Rightarrow> clip \<Rightarrow> bool" where
  "holds_posts ps c \<longleftrightarrow> (\<exists>junk. solidsegs c = ps @ junk) \<and> posts_ok ps \<and> length ps \<le> newend c \<and>
     length (solidsegs c) = MAXSEGS \<and> newend c \<le> MAXSEGS"

lemma clip_ok_holds: "clip_ok c \<longleftrightarrow> holds_posts (live (solidsegs c)) c"
  using live_prefix [of "solidsegs c"] by (auto simp: clip_ok_def holds_posts_def)

lemma holds_live: "holds_posts ps c \<Longrightarrow> live (solidsegs c) = ps"
  by (auto simp: holds_posts_def live_posts)

lemma holds_clip_ok: "holds_posts ps c \<Longrightarrow> clip_ok c"
  by (simp add: clip_ok_holds holds_live)

lemma insert_post_ok:
  assumes h: "holds_posts (qs @ ps) c" and room: "newend c < MAXSEGS" and ok: "posts_ok (qs @ post # ps)"
  obtains c' where "insert_post (length qs) post c = Inr c'" "holds_posts (qs @ post # ps) c'" "newend c' = Suc (newend c)"
proof -
  obtain junk where s: "solidsegs c = qs @ ps @ junk" using h by (auto simp: holds_posts_def)
  define k where "k = newend c - length (qs @ ps)"
  have n: "newend c = length qs + length ps + k" using h by (simp add: holds_posts_def k_def)
  have l: "length qs + length ps + length junk = MAXSEGS" using h s by (simp add: holds_posts_def)
  let ?c = "c\<lparr>solidsegs := qs @ post # ps @ take k junk @ drop (Suc k) junk, newend := Suc (newend c)\<rparr>"
  have "insert_post (length qs) post c = Inr ?c" using room l by (simp add: insert_post_def s n)
  moreover have "holds_posts (qs @ post # ps) ?c" using room l n ok by (simp add: holds_posts_def)
  ultimately show thesis using that by simp
qed

lemma crunch_ok:
  assumes s: "solidsegs c = qs @ p # ds @ es @ junk" and l: "length (solidsegs c) = MAXSEGS"
    and n: "length (qs @ p # ds @ es) \<le> newend c" "newend c < MAXSEGS" and d: "ds \<noteq> []" and ok: "posts_ok (qs @ p # es)"
  obtains c' where "crunch (length qs) (length qs + length ds) c = Inr c'" "holds_posts (qs @ p # es) c'" "newend c' + length ds = Suc (newend c)"
proof -
  define k where "k = newend c - (length qs + length ds) - length es"
  have k: "newend c - (length qs + length ds) = length es + k" "newend c = length qs + length ds + length es + k"
    using n by (simp_all add: k_def)
  have j: "length qs + Suc (length ds + length es + length junk) = MAXSEGS" using l s by simp
  let ?c = "c\<lparr>solidsegs := qs @ p # es @ take k junk @ drop (length es + k) (ds @ es @ junk), newend := Suc (length qs + (length es + k))\<rparr>"
  have "crunch (length qs) (length qs + length ds) c = Inr ?c"
    using n(2) j unfolding crunch_def Let_def k(1) s by (simp add: k(2))
  moreover have "1 \<le> k" using n(1) k(2) by simp
  then have "holds_posts (qs @ p # es) ?c" using n(2) j d ok k(2) by (cases ds) (auto simp: holds_posts_def)
  moreover have "newend ?c + length ds = Suc (newend c)" by (simp add: k(2))
  ultimately show thesis using that by simp
qed

lemma covered_outside:
  assumes "posts_ok (qs @ p # ps)" "\<forall>a\<in>set qs. cr_last a < first - 1"
  shows "first \<le> x \<Longrightarrow> x \<notin> covered qs" "x \<le> cr_last p \<Longrightarrow> x \<notin> covered ps"
proof -
  show "x \<notin> covered qs" if "first \<le> x" using assms(2) that by (force simp: covered_def)
  show "x \<notin> covered ps" if "x \<le> cr_last p"
    using posts_bounds(1) [OF assms(1)] that by (force simp: covered_def gapped_Cons)
qed

lemma draws_insert:
  assumes ok: "posts_ok (qs @ p # ps)" and q: "\<forall>a\<in>set qs. cr_last a < first - 1" and r: "first \<le> stop" "stop < cr_first p - 1"
  shows "draws first stop (covered (qs @ p # ps)) [(first, stop)]"
  using covered_outside [OF ok q] posts_bounds(3) [OF ok] r by (force simp: draws_def proper_def)

lemma draws_within:
  assumes ok: "posts_ok (qs @ p # ps)" and q: "\<forall>a\<in>set qs. cr_last a < first - 1"
    and r: "first \<le> stop" "first < cr_first p \<longrightarrow> cr_first p - 1 \<le> stop" "stop \<le> cr_last p"
  shows "draws first stop (covered (qs @ p # ps)) (fragment_above first p)"
  using covered_outside [OF ok q] posts_bounds(3) [OF ok] r by (force simp: draws_def proper_def fragment_above_def)

text \<open>The range of an operation, and the first post that touches it.\<close>

definition column_range :: "int \<Rightarrow> int \<Rightarrow> bool" where
  "column_range first stop \<longleftrightarrow> 0 \<le> first \<and> first \<le> stop \<and> stop < 0x7fffffff"

lemma touching_post:
  assumes "posts_ok ps" "column_range first stop"
  obtains qs p rs where "ps = qs @ p # rs" "\<forall>a\<in>set qs. cr_last a < first - 1" "first - 1 \<le> cr_last p"
    "i32 (first - 1) = first - 1" "i32 (cr_first p - 1) = cr_first p - 1"
    "\<And>junk. find_start (first - 1) (ps @ junk) 0 = Inr (length qs)" "\<And>junk. (ps @ junk) ! length qs = p"
proof -
  have f: "first - 1 \<le> 0x7fffffff" using assms(2) by (simp add: column_range_def)
  obtain qs p rs where s: "ps = qs @ p # rs" "\<forall>a\<in>set qs. cr_last a < first - 1" "first - 1 \<le> cr_last p"
    using split_posts [OF assms(1) f] .
  have "i32 (first - 1) = first - 1" "i32 (cr_first p - 1) = cr_first p - 1"
    using posts_bounds(2-4) [of qs p rs] assms s(1) by (auto intro!: i32_pred simp: column_range_def)
  then show thesis using that [OF s] find_start_posts [OF s(2,3)] by (simp add: s(1) nth_append)
qed

lemma fragments_agree:
  "length segs' = length segs \<Longrightarrow> cr_last (segs' ! next) = cr_last (segs ! next) \<Longrightarrow> \<forall>i>next. segs' ! i = segs ! i \<Longrightarrow>
    fragments stop segs' next = fragments stop segs next"
proof (induction stop segs "next" rule: fragments.induct)
  case (1 stop segs n)
  then show ?case by (subst (1 2) fragments.simps) (auto simp: Let_def)
qed

lemma gapped_last:
  assumes "gapped ps" "p \<in> set ps"
  shows "cr_last p \<le> cr_last (List.last ps)" "cr_last (List.last ps) \<le> 0x7fffffff" "cr_first p \<le> cr_last p"
proof -
  have "p = List.last ps \<or> p \<in> set (butlast ps)" using assms(2) by (cases ps rule: rev_cases) auto
  moreover have "gapped (butlast ps @ [List.last ps])" using assms by (cases ps rule: rev_cases) auto
  ultimately show "cr_last p \<le> cr_last (List.last ps)" "cr_last (List.last ps) \<le> 0x7fffffff"
    by (force simp: gapped_append gapped_Cons)+
  show "cr_first p \<le> cr_last p" using assms by (simp add: gapped_def)
qed

text \<open>The fragments behind the post, as both operations use them.\<close>

lemma fragments_behind:
  assumes ok: "posts_ok (qs @ p # ps)" and q: "\<forall>a\<in>set qs. cr_last a < first - 1"
    and r: "column_range first stop" "first - 1 \<le> cr_last p" "cr_last p < stop"
  obtains rs ds es inside l where
    "\<And>p'. cr_last p' = cr_last p \<Longrightarrow> fragments stop (qs @ p' # ps @ junk) (length qs) = Inr (rs, length qs + length ds, inside)"
    "ps = ds @ es"
    "draws first stop (covered (qs @ p # ps)) (fragment_above first p @ with_rest stop (List.last (p # ds)) inside rs)"
    "l = (if inside then cr_last (List.last ds) else stop)" "stop \<le> l" "cr_last p < l" "l \<le> 0x7fffffff"
    "if es = [] then l = 0x7fffffff else \<forall>e\<in>set es. l + 1 < cr_first e" "{stop<..l} \<subseteq> covered ds" "covered ds \<subseteq> {cr_last p<..l}"
    "inside \<Longrightarrow> ds \<noteq> []" "\<not> inside \<Longrightarrow> i32 (cr_last (List.last (p # ds)) + 1) = cr_last (List.last (p # ds)) + 1"
proof -
  note b = posts_bounds [OF ok]
  have st: "stop \<le> cr_last (List.last (p # ps))" using b(5) r(1) by (simp add: column_range_def)
  obtain rs ds es inside where f: "fragments stop (qs @ (p # ps) @ junk) (length qs) = Inr (rs, length qs + length ds, inside)"
    and e: "ps = ds @ es" and d: "proper (with_rest stop (List.last (p # ds)) inside rs)"
      "columns (with_rest stop (List.last (p # ds)) inside rs) = {cr_last p<..stop} - covered ds"
    and i: "if inside then ds \<noteq> [] \<and> cr_first (List.last ds) \<le> stop + 1 \<and> stop \<le> cr_last (List.last ds)
      else cr_last (List.last (p # ds)) < stop \<and> (\<forall>e\<in>set es. stop + 1 < cr_first e)"
    using fragments_ok [OF b(1) r(3) st, of qs junk] by blast
  define l where "l = (if inside then cr_last (List.last ds) else stop)"
  have g: "gapped (p # ds)" "gapped es" "\<forall>x\<in>set (p # ds). \<forall>e\<in>set es. cr_last x + 1 < cr_first e"
    using b(1) gapped_append [of "p # ds" es] by (auto simp: e)
  note top = gapped_last [OF g(1)]
  have lst: "List.last (p # ds) \<in> set (p # ds)" by simp
  have l: "stop \<le> l" "l \<le> 0x7fffffff" using i r(1) top(2) [of p] by (auto simp: l_def column_range_def split: if_splits)
  have after: "\<forall>e\<in>set es. l + 1 < cr_first e" using i g(3) by (auto simp: l_def split: if_splits)
  have "es = [] \<Longrightarrow> l = 0x7fffffff" using i b(5) r(1) by (auto simp: l_def e column_range_def split: if_splits)
  moreover have "draws first stop (covered (qs @ p # ps)) (fragment_above first p @ with_rest stop (List.last (p # ds)) inside rs)"
    using draws_above [OF ok q d e] after l(1) r by (fastforce simp: column_range_def)
  moreover have "{stop<..l} \<subseteq> covered ds" 
    using i by (cases inside) (auto simp: l_def covered_def intro!: bexI [of _ "List.last ds"])
  moreover have "covered ds \<subseteq> {cr_last p<..l}"
  proof -
    have "cr_last p < cr_first x \<and> cr_last x \<le> l" if "x \<in> set ds" for x
      using g(1) top(1) [of x] that i by (auto simp: gapped_Cons l_def split: if_splits)
    then show ?thesis by (force simp: covered_def)
  qed
  moreover have "i32 (cr_last (List.last (p # ds)) + 1) = cr_last (List.last (p # ds)) + 1" if "\<not> inside"
  proof (rule i32_succ)
    show "- 0x7fffffff \<le> cr_last (List.last (p # ds))" using top(1) [of p] b(2,3) by simp
    show "cr_last (List.last (p # ds)) < 0x7fffffff" using that i l by (simp add: l_def)
  qed
  moreover have "fragments stop (qs @ p' # ps @ junk) (length qs) = Inr (rs, length qs + length ds, inside)"
    if "cr_last p' = cr_last p" for p'
    using f fragments_agree [of "qs @ p' # ps @ junk" "qs @ p # ps @ junk" "length qs" stop] that
    by (simp add: nth_append nth_Cons')
  ultimately show thesis using that [OF _ e _ l_def] l after i r(3) by (auto split: if_splits)
qed

lemma covered_merge:
  assumes ok: "posts_ok (qs @ p # ds @ es)" and r: "first - 1 \<le> cr_last p" "cr_last p < stop" "stop \<le> l"
    and d: "{stop<..l} \<subseteq> covered ds" "covered ds \<subseteq> {cr_last p<..l}"
  shows "covered (qs @ (widen first p)\<lparr>cr_last := l\<rparr> # es) = covered (qs @ p # ds @ es) \<union> {first..stop}"
proof -
  have "{min first (cr_first p)..l} = {cr_first p..cr_last p} \<union> covered ds \<union> {first..stop}"
    using d r posts_bounds(3) [OF ok] by (auto simp: min_def split: if_splits) force+
  then show ?thesis by auto
qed

lemma clip_touching:
  assumes "clip_ok c" "column_range first stop"
  obtains qs p ps junk where "solidsegs c = qs @ p # ps @ junk" "live (solidsegs c) = qs @ p # ps" "posts_ok (qs @ p # ps)"
    "\<forall>a\<in>set qs. cr_last a < first - 1" "first - 1 \<le> cr_last p" "first \<le> stop" "- 0x7fffffff < first"
    "i32 (first - 1) = first - 1" "i32 (cr_first p - 1) = cr_first p - 1"
    "find_start (first - 1) (qs @ p # ps @ junk) 0 = Inr (length qs)"
proof -
  obtain junk where s: "solidsegs c = live (solidsegs c) @ junk" and ok: "posts_ok (live (solidsegs c))"
    using assms(1) by (auto simp: clip_ok_holds holds_posts_def)
  obtain qs p ps where p: "live (solidsegs c) = qs @ p # ps" "\<forall>a\<in>set qs. cr_last a < first - 1" "first - 1 \<le> cr_last p"
    "i32 (first - 1) = first - 1" "i32 (cr_first p - 1) = cr_first p - 1"
    "\<And>junk. find_start (first - 1) (live (solidsegs c) @ junk) 0 = Inr (length qs)" using touching_post [OF ok assms(2)] by metis
  have "solidsegs c = qs @ p # ps @ junk" using s unfolding p(1) by simp
  moreover have "posts_ok (qs @ p # ps)" using ok unfolding p(1) .
  moreover have "find_start (first - 1) (qs @ p # ps @ junk) 0 = Inr (length qs)" using p(6) [of junk] unfolding p(1) by simp
  ultimately show thesis using that [OF _ p(1)] p(2-5) assms(2) by (simp add: column_range_def)
qed

text \<open>The three ways in which the range can lie to the post.\<close>

lemma range_cases [consumes 1, case_names ins within beyond]:
  assumes "first \<le> stop"
  obtains "first < cr_first p" "stop < cr_first p - 1"
    | "\<not> (first < cr_first p \<and> stop < cr_first p - 1)" "first < cr_first p \<longrightarrow> cr_first p - 1 \<le> stop" "stop \<le> cr_last p"
    | "\<not> (first < cr_first p \<and> stop < cr_first p - 1)" "cr_last p < stop"
  by linarith

lemma R_ClipPassWallSegment_draws:
  assumes ok: "clip_ok c" and r: "column_range first stop"
  shows "\<exists>rs. R_ClipPassWallSegment first stop c = Inr rs \<and> draws first stop (covered (live (solidsegs c))) rs"
  using ok r
proof (cases rule: clip_touching)
  case (1 qs p ps junk)
  note unf = R_ClipPassWallSegment_def 1(2) [unfolded 1(1)] 1(1,8-10)
  from 1(6) show ?thesis
  proof (cases rule: range_cases [where p = p])
    case ins
    then show ?thesis using draws_insert [OF 1(3,4,6)] by (simp add: unf)
  next
    case within
    then show ?thesis using draws_within [OF 1(3,4,6)] by (auto simp: unf fragment_above_def)
  next
    case beyond
    obtain rs ds es inside where
      fr: "\<And>p'. cr_last p' = cr_last p \<Longrightarrow> fragments stop (qs @ p' # ps @ junk) (length qs) = Inr (rs, length qs + length ds, inside)"
      and e: "ps = ds @ es"
      and d: "draws first stop (covered (qs @ p # ps)) (fragment_above first p @ with_rest stop (List.last (p # ds)) inside rs)"
      and w: "\<not> inside \<Longrightarrow> i32 (cr_last (List.last (p # ds)) + 1) = cr_last (List.last (p # ds)) + 1"
      using fragments_behind [OF 1(3,4) r 1(5) beyond(2), of junk] by metis
    have "(qs @ p # ps @ junk) ! (length qs + length ds) = List.last (p # ds)"
      by (simp add: e nth_append last_conv_nth nth_Cons')
    then show ?thesis using d beyond w fr [of p] by (auto simp: unf fragment_above_def with_rest_def)
  qed
qed

text \<open>The result of drawing a solid range.\<close>

definition blocks :: "int \<Rightarrow> int \<Rightarrow> clip \<Rightarrow> (int \<times> int) list \<Rightarrow> clip \<Rightarrow> bool" where
  "blocks first stop c rs c' \<longleftrightarrow> clip_ok c' \<and> draws first stop (covered (live (solidsegs c))) rs \<and>
     covered (live (solidsegs c')) = covered (live (solidsegs c)) \<union> {first..stop} \<and> newend c' \<le> Suc (newend c)"

lemma blocksI:
  assumes "holds_posts ps c" "holds_posts ps' c'" "draws first stop (covered ps) rs"
    "covered ps' = covered ps \<union> {first..stop}" "newend c' \<le> Suc (newend c)"
  shows "blocks first stop c rs c'"
  unfolding blocks_def holds_live [OF assms(1)] holds_live [OF assms(2)] using assms holds_clip_ok by simp

lemma clip_below_blocks:
  assumes s: "solidsegs c = qs @ p # ps @ junk" and h: "holds_posts (qs @ p # ps) c" and wok: "posts_ok (qs @ widen first p # ps)"
    and q: "\<forall>a\<in>set qs. cr_last a < first - 1" and r: "column_range first stop" "first - 1 \<le> cr_last p" "cr_last p < stop"
    and room: "newend c < MAXSEGS"
  shows "\<exists>rs c'. clip_below (length qs) stop (fragment_above first p) (c\<lparr>solidsegs := qs @ widen first p # ps @ junk\<rparr>) = Inr (rs, c') \<and>
    blocks first stop c rs c'"
proof -
  have ok: "posts_ok (qs @ p # ps)" using h by (simp add: holds_posts_def)
  obtain rs ds es inside l where
    fr: "\<And>p'. cr_last p' = cr_last p \<Longrightarrow> fragments stop (qs @ p' # ps @ junk) (length qs) = Inr (rs, length qs + length ds, inside)"
    and e: "ps = ds @ es"
    and d: "draws first stop (covered (qs @ p # ps)) (fragment_above first p @ with_rest stop (List.last (p # ds)) inside rs)"
    and l: "l = (if inside then cr_last (List.last ds) else stop)" "stop \<le> l" "cr_last p < l" "l \<le> 0x7fffffff"
      "if es = [] then l = 0x7fffffff else \<forall>e\<in>set es. l + 1 < cr_first e"
    and cov: "{stop<..l} \<subseteq> covered ds" "covered ds \<subseteq> {cr_last p<..l}" and ne: "inside \<Longrightarrow> ds \<noteq> []"
    and w: "\<not> inside \<Longrightarrow> i32 (cr_last (List.last (p # ds)) + 1) = cr_last (List.last (p # ds)) + 1"
    by (rule fragments_behind [OF ok q r, of junk], rule that; assumption)
  let ?rs = "fragment_above first p @ with_rest stop (List.last (p # ds)) inside rs" and ?p = "(widen first p)\<lparr>cr_last := l\<rparr>"
  let ?c = "c\<lparr>solidsegs := qs @ widen first p # ps @ junk\<rparr>" and ?d = "c\<lparr>solidsegs := qs @ ?p # ds @ es @ junk\<rparr>"
  have "cr_last ((qs @ widen first p # ps @ junk) ! (length qs + length ds)) = cr_last (List.last (p # ds))"
    by (simp add: e nth_append last_conv_nth nth_Cons')
  then have run: "clip_below (length qs) stop (fragment_above first p) ?c =
      (if ds = [] then Inr (?rs, ?d) else bindE (crunch (length qs) (length qs + length ds) ?d) (\<lambda>c. Inr (?rs, c)))"
    using r(3) w fr [of "widen first p"] ne by (auto simp: clip_below_def set_post_at with_rest_def l(1) e)
  have ok': "posts_ok (qs @ ?p # es)" using posts_merge [of qs "widen first p" ds es l] wok l by (simp add: e)
  have cov': "covered (qs @ ?p # es) = covered (qs @ p # ps) \<union> {first..stop}"
    using covered_merge [OF ok [unfolded e] r(2,3) l(2) cov] by (simp add: e)
  have len: "length (qs @ ?p # ds @ es) \<le> newend c" "length (solidsegs ?d) = MAXSEGS" using h s by (simp_all add: holds_posts_def e)
  have fin: "blocks first stop c ?rs c'" if "holds_posts (qs @ ?p # es) c'" "newend c' \<le> newend c" for c'
    using that(2) by (intro blocksI [OF h that(1) d cov']) simp
  show ?thesis
  proof (cases "ds = []")
    case True
    have "blocks first stop c ?rs ?d" using True len ok' room by (intro fin) (auto simp: holds_posts_def)
    then show ?thesis using True run by auto
  next
    case False
    obtain c' where c': "crunch (length qs) (length qs + length ds) ?d = Inr c'" "holds_posts (qs @ ?p # es) c'"
      "newend c' + length ds = Suc (newend c)"
      using crunch_ok [of ?d qs ?p ds es junk] len room False ok' by auto
    moreover have "newend c' \<le> newend c" using c'(3) False by (cases ds) simp_all
    ultimately show ?thesis using False run fin by auto
  qed
qed

lemma R_ClipSolidWallSegment_blocks:
  assumes ok: "clip_ok c" and r: "column_range first stop" and room: "newend c < MAXSEGS"
  shows "\<exists>rs c'. R_ClipSolidWallSegment first stop c = Inr (rs, c') \<and> blocks first stop c rs c'"
  using ok r
proof (cases rule: clip_touching)
  case (1 qs p ps junk)
  have h: "holds_posts (qs @ p # ps) c" using ok by (simp add: clip_ok_holds 1(2))
  have wok: "posts_ok (qs @ widen first p # ps)" by (rule posts_widen [OF 1(3,4,7)])
  note unf = R_ClipSolidWallSegment_def 1(1,8-10)
  let ?c = "c\<lparr>solidsegs := qs @ widen first p # ps @ junk\<rparr>"
  have un: "R_ClipSolidWallSegment first stop c = clip_below (length qs) stop (fragment_above first p) ?c"
    if "\<not> (first < cr_first p \<and> stop < cr_first p - 1)"
  proof -
    have "c\<lparr>solidsegs := qs @ p # ps @ junk\<rparr> = c" by (simp add: 1(1) [symmetric])
    note this [simp]
    show ?thesis using that by (simp add: unf fragment_above_def widen_def set_post_at)
  qed
  from 1(6) show ?thesis
  proof (cases rule: range_cases [where p = p])
    case ins
    obtain c' where c': "insert_post (length qs) \<lparr>cr_first = first, cr_last = stop\<rparr> c = Inr c'"
      "holds_posts (qs @ \<lparr>cr_first = first, cr_last = stop\<rparr> # p # ps) c'" "newend c' = Suc (newend c)"
      using insert_post_ok [OF h room posts_insert [OF 1(3,4,7,6) ins(2)]] by blast
    have "blocks first stop c [(first, stop)] c'"
      using c'(3) by (intro blocksI [OF h c'(2) draws_insert [OF 1(3,4,6) ins(2)]]) auto
    then show ?thesis using ins c'(1) by (simp add: unf)
  next
    case within
    have h': "holds_posts (qs @ widen first p # ps) ?c" using h wok 1(1) by (simp add: holds_posts_def)
    have "covered (qs @ widen first p # ps) = covered (qs @ p # ps) \<union> {first..stop}"
      using within posts_bounds(3) [OF 1(3)] 1(6) by (auto simp: min_def)
    then have "blocks first stop c (fragment_above first p) ?c"
      by (intro blocksI [OF h h' draws_within [OF 1(3,4,6) within(2,3)]]) simp_all
    then show ?thesis using within(3) un [OF within(1)] by (auto simp: clip_below_def)
  next
    case beyond
    show ?thesis unfolding un [OF beyond(1)] by (rule clip_below_blocks [OF 1(1) h wok 1(4) r 1(5) beyond(2) room])
  qed
qed

lemma span_open_iff:
  assumes ok: "clip_ok c" and r: "column_range sx1 sx2"
  shows "span_open sx1 sx2 c = Inr (\<not> {sx1..sx2} \<subseteq> covered (live (solidsegs c)))"
proof -
  obtain junk where s: "solidsegs c = live (solidsegs c) @ junk" and ok': "posts_ok (live (solidsegs c))"
    using ok by (auto simp: clip_ok_holds holds_posts_def)
  have "sx2 \<le> 0x7fffffff" using r by (simp add: column_range_def)
  from split_posts [OF ok' this] obtain qs p ps where
    p: "live (solidsegs c) = qs @ p # ps" "\<forall>a\<in>set qs. cr_last a < sx2" "sx2 \<le> cr_last p" .
  have po: "posts_ok (qs @ p # ps)" using ok' unfolding p(1) .
  have "cr_first p - 1 \<notin> covered qs" "cr_first p - 1 \<notin> covered ps"
    using po posts_bounds(1,3) [OF po] by (force simp: covered_def posts_ok_def gapped_append gapped_Cons)+
  then have gap: "cr_first p - 1 \<notin> covered (qs @ p # ps)" by simp
  have "sx2 \<in> covered (qs @ p # ps) \<longleftrightarrow> cr_first p \<le> sx2"
    using p(2,3) posts_bounds(1,3) [OF po] by (force simp: covered_def gapped_Cons)
  then have "cr_first p \<le> sx1" if "{sx1..sx2} \<subseteq> covered (qs @ p # ps)"
    using that gap subsetD [OF that, of "cr_first p - 1"] subsetD [OF that, of sx2] r
    by (intro leI) (auto simp: column_range_def)
  then have "{sx1..sx2} \<subseteq> covered (qs @ p # ps) \<longleftrightarrow> cr_first p \<le> sx1 \<and> sx2 \<le> cr_last p" using p(3) by auto
  moreover have "find_start sx2 (solidsegs c) 0 = Inr (length qs)" "solidsegs c ! length qs = p"
    using find_start_posts [OF p(2,3), of ps junk] s unfolding p(1) by (simp_all add: nth_append)
  ultimately show ?thesis by (simp add: span_open_def p(1))
qed

section \<open>The clipper as an interface\<close>

text \<open>
  What the renderer relies on: a state with the set of covered columns, an operation that draws
  the open columns of a range and covers it, and a limit on how often it may be called.
\<close>

locale column_clipper =
  fixes solid :: "int \<Rightarrow> int \<Rightarrow> 's \<Rightarrow> ((int \<times> int) list \<times> 's) result"
    and cov :: "'s \<Rightarrow> int set" and ok :: "'s \<Rightarrow> bool" and room :: "'s \<Rightarrow> nat"
  assumes solid_ok: "ok c \<Longrightarrow> column_range a b \<Longrightarrow> 0 < room c \<Longrightarrow>
    \<exists>rs c'. solid a b c = Inr (rs, c') \<and> ok c' \<and> draws a b (cov c) rs \<and> cov c' = cov c \<union> {a..b} \<and> room c \<le> Suc (room c')"

text \<open>The solid walls of a frame, from front to back.\<close>

fun draw_walls :: "(int \<Rightarrow> int \<Rightarrow> 's \<Rightarrow> ((int \<times> int) list \<times> 's) result) \<Rightarrow> (int \<times> int) list \<Rightarrow> 's \<Rightarrow> ((int \<times> int) list \<times> 's) result" where
  "draw_walls solid [] c = Inr ([], c)"
| "draw_walls solid ((a, b) # ws) c =
     bindE (solid a b c) (\<lambda>(rs, c). bindE (draw_walls solid ws c) (\<lambda>(ss, c). Inr (rs @ ss, c)))"

text \<open>No column is in two of the ranges.\<close>

definition once :: "(int \<times> int) list \<Rightarrow> bool" where
  "once rs \<longleftrightarrow> sorted_wrt (\<lambda>r s. {fst r..snd r} \<inter> {fst s..snd s} = {}) rs"

lemma columns_disjoint: "columns rs \<inter> columns ss = {} \<longleftrightarrow> (\<forall>r\<in>set rs. \<forall>s\<in>set ss. {fst r..snd r} \<inter> {fst s..snd s} = {})"
  unfolding columns_def case_prod_beta by blast

lemma once_append: "once (rs @ ss) \<longleftrightarrow> once rs \<and> once ss \<and> columns rs \<inter> columns ss = {}"
  unfolding columns_disjoint once_def sorted_wrt_append by blast

lemma proper_once:
  assumes "proper rs"
  shows "once rs"
  unfolding once_def
proof (rule sorted_wrt_mono_rel)
  show "sorted_wrt (\<lambda>r s. snd r < fst s) rs" using assms by (simp add: proper_def)
qed auto

context column_clipper
begin

lemma draw_walls_once:
  assumes "ok c" "\<forall>(a, b)\<in>set ws. column_range a b" "length ws \<le> room c"
  shows "\<exists>rs c'. draw_walls solid ws c = Inr (rs, c') \<and> ok c' \<and> once rs \<and> columns rs = columns ws - cov c \<and> cov c' = cov c \<union> columns ws"
  using assms
proof (induction ws arbitrary: c)
  case Nil
  then show ?case by (simp add: once_def)
next
  case (Cons w ws)
  obtain a b where w: "w = (a, b)" by fastforce
  obtain rs c' where s: "solid a b c = Inr (rs, c')" "ok c'" "draws a b (cov c) rs" "cov c' = cov c \<union> {a..b}" "room c \<le> Suc (room c')"
    using solid_ok [of c a b] Cons.prems by (auto simp: w)
  obtain ss c'' where t: "draw_walls solid ws c' = Inr (ss, c'')" "ok c''" "once ss" "columns ss = columns ws - cov c'"
    "cov c'' = cov c' \<union> columns ws" using Cons.IH [of c'] s Cons.prems by auto
  have "once (rs @ ss)" "columns (rs @ ss) = columns (w # ws) - cov c"
    using s(3,4) t(3,4) proper_once by (auto simp: once_append draws_def w)
  moreover have "cov c'' = cov c \<union> columns (w # ws)" using t(5) s(4) by (auto simp: w)
  ultimately show ?case using s(1) t(1,2) by (simp add: w)
qed

end

interpretation clipper: column_clipper R_ClipSolidWallSegment "\<lambda>c. covered (live (solidsegs c))" clip_ok "\<lambda>c. MAXSEGS - newend c"
proof
  show "\<exists>rs c'. R_ClipSolidWallSegment a b c = Inr (rs, c') \<and> clip_ok c' \<and> draws a b (covered (live (solidsegs c))) rs \<and>
      covered (live (solidsegs c')) = covered (live (solidsegs c)) \<union> {a..b} \<and> MAXSEGS - newend c \<le> Suc (MAXSEGS - newend c')"
    if "clip_ok c" "column_range a b" "0 < MAXSEGS - newend c" for a b c
  proof -
    have "newend c < MAXSEGS" using that(3) by simp
    from R_ClipSolidWallSegment_blocks [OF that(1,2) this] show ?thesis unfolding blocks_def by fastforce
  qed
qed

lemma R_ClearClipSegs_ok:
  assumes "0 < viewwidth" "viewwidth \<le> 0x7fffffff" "length (solidsegs c) = MAXSEGS"
  shows "clip_ok (R_ClearClipSegs viewwidth c)" "live (solidsegs (R_ClearClipSegs viewwidth c)) =
    [\<lparr>cr_first = - 0x7fffffff, cr_last = - 1\<rparr>, \<lparr>cr_first = viewwidth, cr_last = 0x7fffffff\<rparr>]"
proof -
  obtain a b junk where s: "solidsegs c = a # b # junk" using assms(3)
    by (cases "solidsegs c"; cases "tl (solidsegs c)") (auto simp: MAXSEGS_def)
  show "clip_ok (R_ClearClipSegs viewwidth c)" "live (solidsegs (R_ClearClipSegs viewwidth c)) =
    [\<lparr>cr_first = - 0x7fffffff, cr_last = - 1\<rparr>, \<lparr>cr_first = viewwidth, cr_last = 0x7fffffff\<rparr>]"
    using assms by (simp_all add: R_ClearClipSegs_def clip_ok_def s posts_ok_def gapped_def MAXSEGS_def)
qed

section \<open>The end of the array\<close>

text \<open>A wall with an open column on either side takes a new entry.\<close>

lemma separate_wall:
  assumes ok: "clip_ok c" and r: "column_range first stop" and sep: "{first - 1..stop + 1} \<inter> covered (live (solidsegs c)) = {}"
  obtains qs ps where "live (solidsegs c) = qs @ ps"
    "R_ClipSolidWallSegment first stop c =
       bindE (insert_post (length qs) \<lparr>cr_first = first, cr_last = stop\<rparr> c) (\<lambda>c. Inr ([(first, stop)], c))"
    "posts_ok (qs @ \<lparr>cr_first = first, cr_last = stop\<rparr> # ps)"
  using ok r
proof (cases rule: clip_touching)
  case (1 qs p ps junk)
  have "max (cr_first p) (first - 1) \<notin> {first - 1..stop + 1} \<or> max (cr_first p) (first - 1) \<notin> {cr_first p..cr_last p}"
    using sep unfolding 1(2) by (auto simp add: Int_Un_distrib disjoint_iff)
  then have ins: "first < cr_first p" "stop < cr_first p - 1" using 1(5,6) posts_bounds(3) [OF 1(3)] by auto
  show thesis
  proof (rule that [OF 1(2)])
    show "R_ClipSolidWallSegment first stop c =
        bindE (insert_post (length qs) \<lparr>cr_first = first, cr_last = stop\<rparr> c) (\<lambda>c. Inr ([(first, stop)], c))"
      using ins by (simp add: R_ClipSolidWallSegment_def 1(1,8-10))
    show "posts_ok (qs @ \<lparr>cr_first = first, cr_last = stop\<rparr> # p # ps)" by (rule posts_insert [OF 1(3,4,7,6) ins(2)])
  qed
qed

lemma separate_wall_full:
  assumes "clip_ok c" "column_range first stop" "{first - 1..stop + 1} \<inter> covered (live (solidsegs c)) = {}" "newend c = MAXSEGS"
  shows "R_ClipSolidWallSegment first stop c = Inl Bad_Access"
proof -
  have "length (solidsegs c) = MAXSEGS" using assms(1) by (simp add: clip_ok_def)
  then show ?thesis using separate_wall [OF assms(1-3)] assms(4) by (metis bindE_simps(1) insert_post_def order_refl)
qed

lemma separate_wall_room:
  assumes "clip_ok c" "column_range first stop" "{first - 1..stop + 1} \<inter> covered (live (solidsegs c)) = {}" "newend c < MAXSEGS"
  obtains qs ps c' where "live (solidsegs c) = qs @ ps" "R_ClipSolidWallSegment first stop c = Inr ([(first, stop)], c')"
    "holds_posts (qs @ \<lparr>cr_first = first, cr_last = stop\<rparr> # ps) c'" "newend c' = Suc (newend c)"
proof -
  obtain qs ps where s: "live (solidsegs c) = qs @ ps"
    "R_ClipSolidWallSegment first stop c =
       bindE (insert_post (length qs) \<lparr>cr_first = first, cr_last = stop\<rparr> c) (\<lambda>c. Inr ([(first, stop)], c))"
    "posts_ok (qs @ \<lparr>cr_first = first, cr_last = stop\<rparr> # ps)" by (rule separate_wall [OF assms(1-3)])
  have h: "holds_posts (qs @ ps) c" using assms(1) by (simp add: clip_ok_holds s(1))
  obtain c' where "insert_post (length qs) \<lparr>cr_first = first, cr_last = stop\<rparr> c = Inr c'"
    "holds_posts (qs @ \<lparr>cr_first = first, cr_last = stop\<rparr> # ps) c'" "newend c' = Suc (newend c)"
    by (rule insert_post_ok [OF h assms(4) s(3)])
  then show thesis using that s(1,2) by simp
qed

text \<open>Walls of which no two touch.\<close>

definition apart :: "(int \<times> int) list \<Rightarrow> bool" where
  "apart ws \<longleftrightarrow> sorted_wrt (\<lambda>(a, b) (a', b'). b + 1 < a' \<or> b' + 1 < a) ws"

lemma separate_walls_overflow:
  assumes "clip_ok c" "\<forall>(a, b)\<in>set ws. column_range a b \<and> {a - 1..b + 1} \<inter> covered (live (solidsegs c)) = {}" "apart ws"
    "MAXSEGS - newend c < length ws"
  shows "draw_walls R_ClipSolidWallSegment ws c = Inl Bad_Access"
  using assms
proof (induction ws arbitrary: c)
  case (Cons w ws)
  obtain a b where w: "w = (a, b)" by fastforce
  have r: "column_range a b" and s: "{a - 1..b + 1} \<inter> covered (live (solidsegs c)) = {}" using Cons.prems(2) by (simp_all add: w)
  show ?case
  proof (cases "newend c < MAXSEGS")
    case False
    then have "newend c = MAXSEGS" using Cons.prems(1) by (simp add: clip_ok_def)
    then show ?thesis using separate_wall_full [OF Cons.prems(1) r s] by (simp add: w)
  next
    case True
    obtain qs ps c' where c': "live (solidsegs c) = qs @ ps" "R_ClipSolidWallSegment a b c = Inr ([(a, b)], c')"
      "holds_posts (qs @ \<lparr>cr_first = a, cr_last = b\<rparr> # ps) c'" "newend c' = Suc (newend c)"
      by (rule separate_wall_room [OF Cons.prems(1) r s True])
    have cv: "covered (live (solidsegs c')) = covered (live (solidsegs c)) \<union> {a..b}"
      unfolding holds_live [OF c'(3)] c'(1) by auto
    have "{x - 1..y + 1} \<inter> {a..b} = {}" if "(x, y) \<in> set ws" for x y
      using Cons.prems(3) that by (force simp: apart_def w)
    then have "\<forall>(x, y)\<in>set ws. column_range x y \<and> {x - 1..y + 1} \<inter> covered (live (solidsegs c')) = {}"
      using Cons.prems(2) unfolding cv Int_Un_distrib by auto
    moreover have "apart ws" using Cons.prems(3) by (simp add: apart_def)
    moreover have "MAXSEGS - newend c' < length ws" using Cons.prems(4) c'(4) True by simp
    ultimately have "draw_walls R_ClipSolidWallSegment ws c' = Inl Bad_Access" using Cons.IH holds_clip_ok [OF c'(3)] by blast
    then show ?thesis by (simp add: w c'(2))
  qed
qed simp

text \<open>
  Walls that fill the view from the left in pairs, the right one of a pair first: the array never
  needs more than three posts, but each pair moves \<open>newend\<close> up by one.
\<close>

definition wall_pair :: "nat \<Rightarrow> (int \<times> int) list" where
  "wall_pair i = [(3 * int i + 2, 3 * int i + 2), (3 * int i, 3 * int i + 1)]"

definition row_walls :: "nat \<Rightarrow> (int \<times> int) list" where
  "row_walls n = concat (map wall_pair [0..<n])"

definition row_posts :: "int \<Rightarrow> nat \<Rightarrow> cliprange_t list" where
  "row_posts viewwidth n = [\<lparr>cr_first = - 0x7fffffff, cr_last = 3 * int n - 1\<rparr>, \<lparr>cr_first = viewwidth, cr_last = 0x7fffffff\<rparr>]"

lemma draw_walls_append:
  "draw_walls solid (vs @ ws) c =
     bindE (draw_walls solid vs c) (\<lambda>(rs, c). bindE (draw_walls solid ws c) (\<lambda>(ss, c). Inr (rs @ ss, c)))"
proof (induction vs arbitrary: c)
  case Nil
  show ?case by (cases "draw_walls solid ws c") auto
next
  case (Cons v vs)
  obtain a b where v: "v = (a, b)" by fastforce
  show ?case
    by (cases "solid a b c") (auto simp: v Cons.IH bindE_assoc case_prod_unfold split: sum.splits)
qed

lemma wall_pair_left:
  assumes h: "holds_posts [p, \<lparr>cr_first = 3 * int n + 2, cr_last = 3 * int n + 2\<rparr>, q] c"
    and p: "p = \<lparr>cr_first = - 0x7fffffff, cr_last = 3 * int n - 1\<rparr>" and q: "q = \<lparr>cr_first = viewwidth, cr_last = 0x7fffffff\<rparr>"
    and v: "3 * int n + 3 < viewwidth" "viewwidth < 0x7fffffff"
  shows "newend c = MAXSEGS \<Longrightarrow> R_ClipSolidWallSegment (3 * int n) (3 * int n + 1) c = Inl Bad_Access"
    and "newend c < MAXSEGS \<Longrightarrow> \<exists>c'. R_ClipSolidWallSegment (3 * int n) (3 * int n + 1) c = Inr ([(3 * int n, 3 * int n + 1)], c') \<and>
      holds_posts (row_posts viewwidth (Suc n)) c' \<and> newend c' = newend c"
proof -
  let ?w = "\<lparr>cr_first = 3 * int n + 2, cr_last = 3 * int n + 2\<rparr>"
  obtain junk where s: "solidsegs c = p # ?w # q # junk" using h by (auto simp: holds_posts_def)
  have i: "i32 (3 * int n - 1) = 3 * int n - 1" "i32 (3 * int n) = 3 * int n" "i32 (1 + 3 * int n) = 1 + 3 * int n"
    using v by (auto intro!: i32_id simp: is_i32_iff)
  let ?p = "p\<lparr>cr_last := 3 * int n + 2\<rparr>"
  let ?c = "c\<lparr>solidsegs := [] @ ?p # [?w] @ [q] @ junk\<rparr>"
  have "find_start (3 * int n - 1) (solidsegs c) 0 = Inr 0" by (subst find_start.simps) (simp add: s p)
  moreover have "fragments (3 * int n + 1) (solidsegs c) 0 = Inr ([(3 * int n, 3 * int n + 1)], 1, True)"
    by (subst fragments.simps) (simp add: s p i)
  ultimately have run: "R_ClipSolidWallSegment (3 * int n) (3 * int n + 1) c =
      bindE (crunch (length ([] :: cliprange_t list)) (length ([] :: cliprange_t list) + length [?w]) ?c)
        (\<lambda>c. Inr ([(3 * int n, 3 * int n + 1)], c))"
    using i by (simp add: R_ClipSolidWallSegment_def clip_below_def Let_def set_post_def) (simp add: s p)
  have len: "length (solidsegs ?c) = MAXSEGS" "length ([] @ ?p # [?w] @ [q]) \<le> newend ?c"
    using h s by (simp_all add: holds_posts_def)
  show "R_ClipSolidWallSegment (3 * int n) (3 * int n + 1) c = Inl Bad_Access" if "newend c = MAXSEGS"
    using that len(1) unfolding run by (simp add: crunch_def)
  show "\<exists>c'. R_ClipSolidWallSegment (3 * int n) (3 * int n + 1) c = Inr ([(3 * int n, 3 * int n + 1)], c') \<and>
      holds_posts (row_posts viewwidth (Suc n)) c' \<and> newend c' = newend c" if r: "newend c < MAXSEGS"
  proof -
    have ok: "posts_ok ([] @ ?p # [q])" using v by (simp add: posts_ok_def gapped_Cons p q) (simp add: gapped_def)
    obtain c' where "crunch (length ([] :: cliprange_t list)) (length ([] :: cliprange_t list) + length [?w]) ?c = Inr c'"
      "holds_posts ([] @ ?p # [q]) c'" "newend c' + length [?w] = Suc (newend ?c)"
      by (rule crunch_ok [OF _ len(1) len(2) _ _ ok]) (use r in auto)
    then show ?thesis unfolding run by (simp add: row_posts_def p q add.commute)
  qed
qed

lemma draw_wall_pair:
  assumes h: "holds_posts (row_posts viewwidth n) c" and v: "3 * int n + 3 < viewwidth" "viewwidth < 0x7fffffff"
  shows "newend c = MAXSEGS - 1 \<Longrightarrow> draw_walls R_ClipSolidWallSegment (wall_pair n) c = Inl Bad_Access"
    and "newend c < MAXSEGS - 1 \<Longrightarrow> \<exists>c'. draw_walls R_ClipSolidWallSegment (wall_pair n) c = Inr (wall_pair n, c') \<and>
      holds_posts (row_posts viewwidth (Suc n)) c' \<and> newend c' = Suc (newend c)"
proof -
  have lv: "live (solidsegs c) = row_posts viewwidth n" by (rule holds_live [OF h])
  have sep: "{3 * int n + 2 - 1..3 * int n + 2 + 1} \<inter> covered (live (solidsegs c)) = {}"
    using v unfolding lv by (auto simp: row_posts_def)
  have r: "column_range (3 * int n + 2) (3 * int n + 2)" using v by (simp add: column_range_def)
  have c1: "\<exists>c'. R_ClipSolidWallSegment (3 * int n + 2) (3 * int n + 2) c = Inr ([(3 * int n + 2, 3 * int n + 2)], c') \<and>
      holds_posts [\<lparr>cr_first = - 0x7fffffff, cr_last = 3 * int n - 1\<rparr>, \<lparr>cr_first = 3 * int n + 2, cr_last = 3 * int n + 2\<rparr>,
        \<lparr>cr_first = viewwidth, cr_last = 0x7fffffff\<rparr>] c' \<and> newend c' = Suc (newend c)" if room: "newend c < MAXSEGS"
  proof -
    obtain qs ps c' where c': "live (solidsegs c) = qs @ ps"
      "R_ClipSolidWallSegment (3 * int n + 2) (3 * int n + 2) c = Inr ([(3 * int n + 2, 3 * int n + 2)], c')"
      "holds_posts (qs @ \<lparr>cr_first = 3 * int n + 2, cr_last = 3 * int n + 2\<rparr> # ps) c'" "newend c' = Suc (newend c)"
      by (rule separate_wall_room [OF holds_clip_ok [OF h] r sep room])
    have g: "posts_ok (qs @ \<lparr>cr_first = 3 * int n + 2, cr_last = 3 * int n + 2\<rparr> # ps)" using c'(3) by (simp add: holds_posts_def)
    have "qs = [\<lparr>cr_first = - 0x7fffffff, cr_last = 3 * int n - 1\<rparr>] \<and> ps = [\<lparr>cr_first = viewwidth, cr_last = 0x7fffffff\<rparr>]"
      using c'(1) g v unfolding lv
      by (auto simp: row_posts_def Cons_eq_append_conv posts_ok_def gapped_append gapped_Cons)
    then show ?thesis using c' by simp
  qed
  have m: "MAXSEGS = 32" by (simp add: MAXSEGS_def)
  show "draw_walls R_ClipSolidWallSegment (wall_pair n) c = Inl Bad_Access" if "newend c = MAXSEGS - 1"
  proof -
    have "newend c < MAXSEGS" using that m by simp
    moreover have "Suc (newend c) = MAXSEGS" using that m by simp
    ultimately obtain c' where "R_ClipSolidWallSegment (3 * int n + 2) (3 * int n + 2) c = Inr ([(3 * int n + 2, 3 * int n + 2)], c')"
      "R_ClipSolidWallSegment (3 * int n) (3 * int n + 1) c' = Inl Bad_Access"
      using c1 wall_pair_left(1) [OF _ refl refl v] by auto
    then show ?thesis by (simp add: wall_pair_def)
  qed
  show "\<exists>c'. draw_walls R_ClipSolidWallSegment (wall_pair n) c = Inr (wall_pair n, c') \<and>
      holds_posts (row_posts viewwidth (Suc n)) c' \<and> newend c' = Suc (newend c)" if "newend c < MAXSEGS - 1"
  proof -
    have "newend c < MAXSEGS" "Suc (newend c) < MAXSEGS" using that by simp_all
    then obtain c' where c': "R_ClipSolidWallSegment (3 * int n + 2) (3 * int n + 2) c = Inr ([(3 * int n + 2, 3 * int n + 2)], c')"
      "holds_posts [\<lparr>cr_first = - 0x7fffffff, cr_last = 3 * int n - 1\<rparr>, \<lparr>cr_first = 3 * int n + 2, cr_last = 3 * int n + 2\<rparr>,
        \<lparr>cr_first = viewwidth, cr_last = 0x7fffffff\<rparr>] c'" "newend c' = Suc (newend c)" "newend c' < MAXSEGS"
      using c1 by auto
    from wall_pair_left(2) [OF c'(2) refl refl v c'(4)] c'(1,3) show ?thesis by (auto simp: wall_pair_def)
  qed
qed

lemma row_walls_Suc: "row_walls (Suc n) = row_walls n @ wall_pair n"
  by (simp add: row_walls_def)

lemma draw_row_walls:
  assumes "0 < viewwidth" "viewwidth < 0x7fffffff" "length (solidsegs c) = MAXSEGS" "3 * int n < viewwidth" "n \<le> 29"
  shows "\<exists>c'. draw_walls R_ClipSolidWallSegment (row_walls n) (R_ClearClipSegs viewwidth c) = Inr (row_walls n, c') \<and>
    holds_posts (row_posts viewwidth n) c' \<and> newend c' = n + 2"
  using assms(4,5)
proof (induction n)
  case 0
  have "holds_posts (row_posts viewwidth 0) (R_ClearClipSegs viewwidth c)"
    using R_ClearClipSegs_ok [OF assms(1) _ assms(3)] assms(2) by (simp add: clip_ok_holds row_posts_def)
  then show ?case by (simp add: row_walls_def) (simp add: R_ClearClipSegs_def)
next
  case (Suc n)
  then obtain c' where c': "draw_walls R_ClipSolidWallSegment (row_walls n) (R_ClearClipSegs viewwidth c) = Inr (row_walls n, c')"
    "holds_posts (row_posts viewwidth n) c'" "newend c' = n + 2" by auto
  have "newend c' < MAXSEGS - 1" using c'(3) Suc.prems(2) by (simp add: MAXSEGS_def)
  with draw_wall_pair(2) [OF c'(2) _ assms(2)] Suc.prems(1) obtain c'' where
    "draw_walls R_ClipSolidWallSegment (wall_pair n) c' = Inr (wall_pair n, c'')"
    "holds_posts (row_posts viewwidth (Suc n)) c''" "newend c'' = Suc (newend c')" by auto
  then show ?case using c' by (simp add: row_walls_Suc draw_walls_append)
qed

lemma columns_row_walls: "columns (row_walls n) = {0..<3 * int n}"
proof (induction n)
  case (Suc n)
  have "columns (wall_pair n) = {3 * int n..<3 * int n + 3}" by (auto simp: wall_pair_def)
  then show ?case using Suc by (auto simp: row_walls_Suc)
qed (simp add: row_walls_def)

lemma row_walls_overflow:
  assumes "0 < viewwidth" "viewwidth < 0x7fffffff" "length (solidsegs c) = MAXSEGS" "90 < viewwidth"
  shows "draw_walls R_ClipSolidWallSegment (row_walls (30 + m)) (R_ClearClipSegs viewwidth c) = Inl Bad_Access"
proof (induction m)
  case 0
  obtain c' where c': "draw_walls R_ClipSolidWallSegment (row_walls 29) (R_ClearClipSegs viewwidth c) = Inr (row_walls 29, c')"
    "holds_posts (row_posts viewwidth 29) c'" "newend c' = 29 + 2" using draw_row_walls [OF assms(1-3), of 29] assms(4) by auto
  have "draw_walls R_ClipSolidWallSegment (wall_pair 29) c' = Inl Bad_Access"
    using draw_wall_pair(1) [OF c'(2) _ assms(2)] c'(3) assms(4) by (simp add: MAXSEGS_def)
  then have "draw_walls R_ClipSolidWallSegment (row_walls 29 @ wall_pair 29) (R_ClearClipSegs viewwidth c) = Inl Bad_Access"
    by (simp add: draw_walls_append c'(1))
  then show ?case using row_walls_Suc [of 29] by simp
next
  case (Suc m)
  then show ?case using row_walls_Suc [of "30 + m"] by (simp only: add_Suc_right draw_walls_append bindE_simps)
qed

section \<open>Properties\<close>

definition zero_clip :: clip where
  "zero_clip = \<lparr>solidsegs = replicate MAXSEGS \<lparr>cr_first = 0, cr_last = 0\<rparr>, newend = 0\<rparr>"

text \<open>
  C33: on well-formed posts with a free entry in the array, \<open>R_ClipSolidWallSegment\<close> returns, stores
  exactly the columns of its range that were open, as ranges that are not empty, in order and
  disjoint, covers the range, keeps the posts well formed and takes at most one entry;
  \<open>R_ClipPassWallSegment\<close> stores the same columns; and the test at the end of \<open>R_CheckBBox\<close>
  succeeds exactly when a column of the span is open.
\<close>

theorem wall_clipping_correct:
  assumes "clip_ok c" "column_range first stop" "newend c < MAXSEGS"
  shows "(\<exists>rs c'. R_ClipSolidWallSegment first stop c = Inr (rs, c') \<and> proper rs \<and> columns rs = {first..stop} - covered (live (solidsegs c)) \<and>
      clip_ok c' \<and> covered (live (solidsegs c')) = covered (live (solidsegs c)) \<union> {first..stop} \<and> newend c' \<le> Suc (newend c)) \<and>
    (\<exists>rs. R_ClipPassWallSegment first stop c = Inr rs \<and> proper rs \<and> columns rs = {first..stop} - covered (live (solidsegs c))) \<and>
    span_open first stop c = Inr (\<not> {first..stop} \<subseteq> covered (live (solidsegs c)))"
  using R_ClipSolidWallSegment_blocks [OF assms] R_ClipPassWallSegment_draws [OF assms(1,2)] span_open_iff [OF assms(1,2)]
  by (auto simp: blocks_def draws_def)

text \<open>A view of 320 columns in which the columns 100 to 199 are covered already.\<close>

definition demo_clip :: clip where
  "demo_clip = R_ClearClipSegs 320 zero_clip\<lparr>solidsegs := [\<lparr>cr_first = - 0x7fffffff, cr_last = - 1\<rparr>, \<lparr>cr_first = 100, cr_last = 199\<rparr>,
     \<lparr>cr_first = 320, cr_last = 0x7fffffff\<rparr>] @ replicate 29 \<lparr>cr_first = 0, cr_last = 0\<rparr>, newend := 3\<rparr>"

lemma demo_clip_ok: "clip_ok demo_clip" "newend demo_clip < MAXSEGS" "column_range 50 250"
  by code_simp+

theorem wall_clipping_correct_witness:
  "R_ClipSolidWallSegment 50 250 demo_clip =
      Inr ([(50, 99), (200, 250)], demo_clip\<lparr>solidsegs := (solidsegs demo_clip)[1 := \<lparr>cr_first = 50, cr_last = 250\<rparr>]\<rparr>) \<and>
    (\<exists>rs. R_ClipPassWallSegment 50 250 demo_clip = Inr rs \<and> proper rs \<and> columns rs = {50..250} - covered (live (solidsegs demo_clip)))"
proof
  show "R_ClipSolidWallSegment 50 250 demo_clip =
      Inr ([(50, 99), (200, 250)], demo_clip\<lparr>solidsegs := (solidsegs demo_clip)[1 := \<lparr>cr_first = 50, cr_last = 250\<rparr>]\<rparr>)" by code_simp
  show "\<exists>rs. R_ClipPassWallSegment 50 250 demo_clip = Inr rs \<and> proper rs \<and> columns rs = {50..250} - covered (live (solidsegs demo_clip))"
    using wall_clipping_correct [OF demo_clip_ok(1,3,2)] by blast
qed

text \<open>
  C34: up to 30 solid walls, clipped one after the other into a cleared view, are drawn without
  touching memory outside of \<open>solidsegs\<close>; no column is drawn twice, and the columns drawn are
  all columns of the walls within the view.
\<close>

theorem solid_walls_drawn_once:
  assumes "0 < viewwidth" "viewwidth < 0x7fffffff" "length (solidsegs c) = MAXSEGS"
    "\<forall>(a, b)\<in>set ws. 0 \<le> a \<and> a \<le> b \<and> b < viewwidth" "length ws \<le> 30"
  shows "\<exists>rs c'. draw_walls R_ClipSolidWallSegment ws (R_ClearClipSegs viewwidth c) = Inr (rs, c') \<and> once rs \<and> columns rs = columns ws"
proof -
  note ok = R_ClearClipSegs_ok [OF assms(1) _ assms(3)]
  have "length ws \<le> MAXSEGS - newend (R_ClearClipSegs viewwidth c)"
    using assms(5) by (simp add: R_ClearClipSegs_def MAXSEGS_def)
  moreover have "\<forall>(a, b)\<in>set ws. column_range a b" using assms(2,4) by (auto simp: column_range_def)
  moreover have "columns ws \<inter> covered (live (solidsegs (R_ClearClipSegs viewwidth c))) = {}"
    using assms(2,4) ok(2) by (force simp: columns_def)
  ultimately show ?thesis using clipper.draw_walls_once [OF ok(1)] assms(2) by fastforce
qed

theorem solid_walls_drawn_once_witness:
  "\<exists>rs c'. draw_walls R_ClipSolidWallSegment [(10, 20), (5, 30), (0, 319)] (R_ClearClipSegs 320 zero_clip) = Inr (rs, c') \<and> once rs \<and>
     columns rs = columns [(10, 20), (5, 30), (0, 319)]"
  by (rule solid_walls_drawn_once) (simp_all add: zero_clip_def)

text \<open>
  C35: the array is too small. More than 30 solid walls in the view, of which no two touch and none touches the edge of
  the view, always write behind \<open>solidsegs\<close>, in whatever order they come. And since the loop that removes posts copies
  one entry too many and leaves \<open>newend\<close> one too far, a view without a gap can do so as well: a
  row of \<open>n\<close> pairs of walls, which never needs more than three posts and of which two remain, leaves \<open>newend\<close> at \<open>n + 2\<close>, and the
  30th pair runs out of the array.
\<close>

theorem solidsegs_overflow:
  assumes "0 < viewwidth" "viewwidth < 0x7fffffff" "length (solidsegs c) = MAXSEGS"
    "\<forall>(a, b)\<in>set ws. 0 < a \<and> a \<le> b \<and> b + 1 < viewwidth" "apart ws" "30 < length ws"
    "3 * int n < viewwidth"
  shows "draw_walls R_ClipSolidWallSegment ws (R_ClearClipSegs viewwidth c) = Inl Bad_Access \<and>
    (if n \<le> 29
     then \<exists>rs c'. draw_walls R_ClipSolidWallSegment (row_walls n) (R_ClearClipSegs viewwidth c) = Inr (rs, c') \<and>
       columns rs = {0..<3 * int n} \<and> length (live (solidsegs c')) = 2 \<and> newend c' = n + 2
     else draw_walls R_ClipSolidWallSegment (row_walls n) (R_ClearClipSegs viewwidth c) = Inl Bad_Access)"
proof -
  note ok = R_ClearClipSegs_ok [OF assms(1) _ assms(3)]
  have "draw_walls R_ClipSolidWallSegment ws (R_ClearClipSegs viewwidth c) = Inl Bad_Access"
  proof (rule separate_walls_overflow [OF ok(1) _ assms(5)])
    show "\<forall>(a, b)\<in>set ws. column_range a b \<and> {a - 1..b + 1} \<inter> covered (live (solidsegs (R_ClearClipSegs viewwidth c))) = {}"
      using assms(2,4) ok(2) by (auto simp: column_range_def)
    show "MAXSEGS - newend (R_ClearClipSegs viewwidth c) < length ws"
      using assms(6) by (simp add: R_ClearClipSegs_def MAXSEGS_def)
  qed (use assms(2) in simp)
  moreover have "\<exists>rs c'. draw_walls R_ClipSolidWallSegment (row_walls n) (R_ClearClipSegs viewwidth c) = Inr (rs, c') \<and>
      columns rs = {0..<3 * int n} \<and> length (live (solidsegs c')) = 2 \<and> newend c' = n + 2" if "n \<le> 29"
    using draw_row_walls [OF assms(1-3,7) that] columns_row_walls [of n] holds_live by (fastforce simp: row_posts_def)
  moreover have "draw_walls R_ClipSolidWallSegment (row_walls n) (R_ClearClipSegs viewwidth c) = Inl Bad_Access" if "\<not> n \<le> 29"
    using row_walls_overflow [OF assms(1-3), of "n - 30"] that assms(7) by simp
  ultimately show ?thesis by simp
qed

text \<open>31 walls of one column in a view of 320 columns, from right to left, and a row of 40 pairs.\<close>

theorem solidsegs_overflow_witness:
  "draw_walls R_ClipSolidWallSegment (map (\<lambda>i. (2 * int i, 2 * int i)) (rev [1..<32])) (R_ClearClipSegs 320 zero_clip) = Inl Bad_Access \<and>
   draw_walls R_ClipSolidWallSegment (row_walls 40) (R_ClearClipSegs 320 zero_clip) = Inl Bad_Access"
proof -
  let ?ws = "map (\<lambda>i. (2 * int i, 2 * int i)) (rev [1..<32])"
  have "apart ?ws" unfolding apart_def by code_simp
  moreover have "\<forall>(a, b)\<in>set ?ws. 0 < a \<and> a \<le> b \<and> b + 1 < 320" by auto
  ultimately show ?thesis using solidsegs_overflow [of 320 zero_clip ?ws 40] by (simp add: zero_clip_def)
qed

end
