(* ===== verification/Things.thy ===== *)
theory Things
  imports Level Player
begin

text \<open>
  The things of a level and the lists they are linked in: \<^verbatim>\<open>p_maputl.c\<close> (positions, the
  iterator over a block), \<^verbatim>\<open>r_main.c\<close> (the subsector of a point) and \<^verbatim>\<open>p_mobj.c\<close> (removal).
  Every thing is in the list of its sector, unless it has \<open>MF_NOSECTOR\<close>, and in the list of its
  block of the block map, unless it has \<open>MF_NOBLOCKMAP\<close> or is off the map.
\<close>

section \<open>State\<close>

definition MF_SPECIAL :: int where "MF_SPECIAL = 1"
definition MF_NOSECTOR :: int where "MF_NOSECTOR = 8"
definition MF_NOBLOCKMAP :: int where "MF_NOBLOCKMAP = 16"
definition MF_DROPPED :: int where "MF_DROPPED = 0x20000"
definition MF_SHADOW :: int where "MF_SHADOW = 0x40000"
definition MF_COUNTITEM :: int where "MF_COUNTITEM = 0x800000"

definition MAPBLOCKSHIFT :: nat where "MAPBLOCKSHIFT = FRACBITS + 7"
definition NF_SUBSECTOR :: int where "NF_SUBSECTOR = 0x8000"
definition ITEMQUESIZE :: nat where "ITEMQUESIZE = 128"

text \<open>A sector is its index in the table.\<close>

record subsector_t =
  ss_sector :: nat
  ss_numlines :: int
  ss_firstline :: int

record node_t =
  nd_x :: int
  nd_y :: int
  nd_dx :: int
  nd_dy :: int
  nd_bbox :: "int list \<times> int list"
  nd_children :: "int \<times> int"

text \<open>
  The level with what the play simulation keeps beside it: the BSP tree, the block map, the
  queue of items that will come back, the players, the settings of the game, and the sounds
  that were started and stopped (origin and number; \<open>- 1\<close> to stop). The table of
  subsectors is a block of the zone at \<open>w_subsectors_at\<close>.
\<close>

record world =
  w_level :: level
  w_subsectors_at :: int
  w_subsectors :: "subsector_t list"
  w_nodes :: "node_t list"
  w_bmaporgx :: int
  w_bmaporgy :: int
  w_bmapwidth :: int
  w_bmapheight :: int
  w_blocklinks :: "int list"
  w_itemrespawnque :: "mapthing_t list"
  w_itemrespawntime :: "int list"
  w_iquehead :: nat
  w_iquetail :: nat
  w_leveltime :: int
  w_players :: "player_t list"
  w_consoleplayer :: int
  w_gameskill :: int
  w_netgame :: bool
  w_deathmatch :: int
  w_commercial :: bool
  w_sounds :: "(int \<times> int) list"

definition mobj_at :: "int \<Rightarrow> world \<Rightarrow> mobj_t option" where
  "mobj_at p w = (case lv_body (w_level w) p of B_mobj t \<Rightarrow> if p = 0 then None else Some t | _ \<Rightarrow> None)"

definition get_mobj :: "int \<Rightarrow> world \<Rightarrow> mobj_t result" where
  "get_mobj p w = (case mobj_at p w of None \<Rightarrow> Inl Bad_Access | Some t \<Rightarrow> Inr t)"

definition upd_mobj :: "int \<Rightarrow> (mobj_t \<Rightarrow> mobj_t) \<Rightarrow> world \<Rightarrow> world result" where
  "upd_mobj p f w = bindE (get_mobj p w) (\<lambda>t. Inr (w\<lparr>w_level := set_body p (B_mobj (f t)) (w_level w)\<rparr>))"

definition sizeof_subsector :: "arch \<Rightarrow> int" where
  "sizeof_subsector a = 2 * sizeof_ptr a"

definition subsector_addr :: "nat \<Rightarrow> world \<Rightarrow> int" where
  "subsector_addr i w = w_subsectors_at w + int i * sizeof_subsector (larch (w_level w))"

text \<open>\<open>ss->sector\<close> for the address of a subsector.\<close>

definition sector_of :: "int \<Rightarrow> world \<Rightarrow> nat result" where
  "sector_of ss w =
     (let d = ss - w_subsectors_at w; s = sizeof_subsector (larch (w_level w))
      in if 0 \<le> d \<and> d mod s = 0 \<and> nat (d div s) < length (w_subsectors w)
         then Inr (ss_sector (w_subsectors w ! nat (d div s))) else Inl Bad_Access)"

definition thinglist :: "nat \<Rightarrow> world \<Rightarrow> int" where
  "thinglist i w = sc_thinglist (lv_sectors (w_level w) ! i)"

definition set_thinglist :: "nat \<Rightarrow> int \<Rightarrow> world \<Rightarrow> world result" where
  "set_thinglist i p w =
     (if i < length (lv_sectors (w_level w))
      then Inr (w\<lparr>w_level := (w_level w)\<lparr>lv_sectors := (lv_sectors (w_level w))[i := (lv_sectors (w_level w) ! i)\<lparr>sc_thinglist := p\<rparr>]\<rparr>\<rparr>)
      else Inl Bad_Access)"

section \<open>The subsector of a point\<close>

definition R_PointOnSide :: "int \<Rightarrow> int \<Rightarrow> node_t \<Rightarrow> bool" where
  "R_PointOnSide x y node =
     (if nd_dx node = 0
      then (if x \<le> nd_x node then nd_dy node > 0 else nd_dy node < 0)
      else if nd_dy node = 0
      then (if y \<le> nd_y node then nd_dx node < 0 else nd_dx node > 0)
      else
        let dx = i32 (x - nd_x node);
            dy = i32 (y - nd_y node)
        in if (nd_dy node XOR nd_dx node XOR dx XOR dy) < 0 then (nd_dy node XOR dx) < 0
           else
             let left = FixedMul (drop_bit FRACBITS (nd_dy node)) dx;
                 right = FixedMul dy (drop_bit FRACBITS (nd_dx node))
             in \<not> right < left)"

text \<open>The descent does not end if the nodes form a cycle.\<close>

partial_function (option) point_loop :: "int \<Rightarrow> int \<Rightarrow> int \<Rightarrow> world \<Rightarrow> nat result option" where
  "point_loop x y nodenum w =
     (if nodenum AND NF_SUBSECTOR \<noteq> 0 then Some (Inr (nat (nodenum AND NOT NF_SUBSECTOR)))
      else if nodenum < 0 \<or> nat nodenum \<ge> length (w_nodes w) then Some (Inl Bad_Access)
      else
        let node = w_nodes w ! nat nodenum
        in point_loop x y (if R_PointOnSide x y node then snd (nd_children node) else fst (nd_children node)) w)"

definition R_PointInSubsector :: "int \<Rightarrow> int \<Rightarrow> world \<Rightarrow> nat result option" where
  "R_PointInSubsector x y w =
     (if w_nodes w = [] then Some (Inr 0) else point_loop x y (int (length (w_nodes w)) - 1) w)"

section \<open>Positions\<close>

text \<open>The two pairs of links of a thing.\<close>

record links =
  nx :: "mobj_t \<Rightarrow> int"
  pv :: "mobj_t \<Rightarrow> int"
  set_nx :: "int \<Rightarrow> mobj_t \<Rightarrow> mobj_t"
  set_pv :: "int \<Rightarrow> mobj_t \<Rightarrow> mobj_t"

definition slinks :: links where
  "slinks = \<lparr>nx = mo_snext, pv = mo_sprev, set_nx = (\<lambda>p t. t\<lparr>mo_snext := p\<rparr>), set_pv = (\<lambda>p t. t\<lparr>mo_sprev := p\<rparr>)\<rparr>"

definition blinks :: links where
  "blinks = \<lparr>nx = mo_bnext, pv = mo_bprev, set_nx = (\<lambda>p t. t\<lparr>mo_bnext := p\<rparr>), set_pv = (\<lambda>p t. t\<lparr>mo_bprev := p\<rparr>)\<rparr>"

text \<open>
  Taking a thing out of a list; \<open>set_head\<close> stores the head when the thing was the first. And
  putting it in front of the list that starts with \<open>head\<close>.
\<close>

definition link_out :: "links \<Rightarrow> (int \<Rightarrow> world \<Rightarrow> world result) \<Rightarrow> int \<Rightarrow> world \<Rightarrow> world result" where
  "link_out l set_head thing w =
     bindE (get_mobj thing w) (\<lambda>t.
     bindE (if nx l t \<noteq> 0 then upd_mobj (nx l t) (set_pv l (pv l t)) w else Inr w) (\<lambda>w.
     bindE (get_mobj thing w) (\<lambda>t.
     if pv l t \<noteq> 0 then upd_mobj (pv l t) (set_nx l (nx l t)) w else set_head (nx l t) w)))"

definition link_in :: "links \<Rightarrow> int \<Rightarrow> int \<Rightarrow> world \<Rightarrow> world result" where
  "link_in l head thing w =
     bindE (upd_mobj thing (set_pv l 0) w) (\<lambda>w.
     bindE (upd_mobj thing (set_nx l head) w) (\<lambda>w.
     if head \<noteq> 0 then upd_mobj head (set_pv l thing) w else Inr w))"

text \<open>The block of a thing, if it is on the map. Width and height are shorts, so the index does not overflow.\<close>

definition block_of :: "mobj_t \<Rightarrow> world \<Rightarrow> nat option" where
  "block_of t w =
     (let blockx = drop_bit MAPBLOCKSHIFT (i32 (mo_x t - w_bmaporgx w));
          blocky = drop_bit MAPBLOCKSHIFT (i32 (mo_y t - w_bmaporgy w))
      in if 0 \<le> blockx \<and> blockx < w_bmapwidth w \<and> 0 \<le> blocky \<and> blocky < w_bmapheight w
         then Some (nat (blocky * w_bmapwidth w + blockx)) else None)"

definition set_block :: "nat \<Rightarrow> int \<Rightarrow> world \<Rightarrow> world result" where
  "set_block b p w =
     (if b < length (w_blocklinks w) then Inr (w\<lparr>w_blocklinks := (w_blocklinks w)[b := p]\<rparr>) else Inl Bad_Access)"

definition P_UnsetThingPosition :: "int \<Rightarrow> world \<Rightarrow> world result" where
  "P_UnsetThingPosition thing w =
     bindE (get_mobj thing w) (\<lambda>t.
     bindE (if mo_flags t AND MF_NOSECTOR = 0
            then link_out slinks (\<lambda>p w. bindE (sector_of (mo_subsector t) w) (\<lambda>s. set_thinglist s p w)) thing w
            else Inr w) (\<lambda>w.
     if mo_flags t AND MF_NOBLOCKMAP = 0
     then link_out blinks (\<lambda>p w. case block_of t w of Some b \<Rightarrow> set_block b p w | None \<Rightarrow> Inr w) thing w
     else Inr w))"

definition P_SetThingPosition :: "int \<Rightarrow> world \<Rightarrow> world result option" where
  "P_SetThingPosition thing w =
     bindO (Some (get_mobj thing w)) (\<lambda>t.
     bindO (R_PointInSubsector (mo_x t) (mo_y t) w) (\<lambda>ss.
     Some (
       bindE (upd_mobj thing (\<lambda>t. t\<lparr>mo_subsector := subsector_addr ss w\<rparr>) w) (\<lambda>w.
       bindE (if mo_flags t AND MF_NOSECTOR = 0
              then bindE (sector_of (subsector_addr ss w) w) (\<lambda>sec.
                   bindE (link_in slinks (thinglist sec w) thing w) (\<lambda>w. set_thinglist sec thing w))
              else Inr w) (\<lambda>w.
       if mo_flags t AND MF_NOBLOCKMAP = 0
       then (case block_of t w of
               Some b \<Rightarrow>
                 if b < length (w_blocklinks w)
                 then bindE (link_in blinks (w_blocklinks w ! b) thing w) (\<lambda>w. set_block b thing w)
                 else Inl Bad_Access
             | None \<Rightarrow> upd_mobj thing (\<lambda>t. t\<lparr>mo_bnext := 0, mo_bprev := 0\<rparr>) w)
       else Inr w)))))"

text \<open>
  The things of a block, in the order of the list, until the function says stop. The function
  may change the state and with it the list; it need not end then.
\<close>

partial_function (option) block_things_loop ::
  "(int \<Rightarrow> world \<Rightarrow> (bool \<times> world) result) \<Rightarrow> int \<Rightarrow> world \<Rightarrow> (bool \<times> world) result option" where
  "block_things_loop func mobj w =
     (if mobj = 0 then Some (Inr (True, w))
      else
        (case func mobj w of
           Inl e \<Rightarrow> Some (Inl e)
         | Inr (go, w) \<Rightarrow>
             if \<not> go then Some (Inr (False, w))
             else (case get_mobj mobj w of Inl e \<Rightarrow> Some (Inl e) | Inr t \<Rightarrow> block_things_loop func (mo_bnext t) w)))"

definition P_BlockThingsIterator ::
  "int \<Rightarrow> int \<Rightarrow> (int \<Rightarrow> world \<Rightarrow> (bool \<times> world) result) \<Rightarrow> world \<Rightarrow> (bool \<times> world) result option" where
  "P_BlockThingsIterator x y func w =
     (if x < 0 \<or> y < 0 \<or> x \<ge> w_bmapwidth w \<or> y \<ge> w_bmapheight w then Some (Inr (True, w))
      else if nat (y * w_bmapwidth w + x) \<ge> length (w_blocklinks w) then Some (Inl Bad_Access)
      else block_things_loop func (w_blocklinks w ! nat (y * w_bmapwidth w + x)) w)"

definition P_AproxDistance :: "arch \<Rightarrow> int \<Rightarrow> int \<Rightarrow> int" where
  "P_AproxDistance arch dx dy =
     (let dx = i32 (abs_long arch dx);
          dy = i32 (abs_long arch dy)
      in if dx < dy then i32 (i32 (dx + dy) - drop_bit 1 dx) else i32 (i32 (dx + dy) - drop_bit 1 dy))"

section \<open>Removal\<close>

definition MT_INV :: int where "MT_INV = 56"
definition MT_INS :: int where "MT_INS = 58"

definition queue_respawn :: "mobj_t \<Rightarrow> world \<Rightarrow> world" where
  "queue_respawn t w =
     (let head = w_iquehead w;
          w = w\<lparr>w_itemrespawnque := (w_itemrespawnque w)[head := mo_spawnpoint t],
                w_itemrespawntime := (w_itemrespawntime w)[head := w_leveltime w],
                w_iquehead := Suc head mod ITEMQUESIZE\<rparr>
      in if w_iquehead w = w_iquetail w then w\<lparr>w_iquetail := Suc (w_iquetail w) mod ITEMQUESIZE\<rparr> else w)"

definition P_RemoveMobj :: "int \<Rightarrow> world \<Rightarrow> world result" where
  "P_RemoveMobj mobj w =
     bindE (get_mobj mobj w) (\<lambda>t.
     let w = (if mo_flags t AND MF_SPECIAL \<noteq> 0 \<and> mo_flags t AND MF_DROPPED = 0 \<and> mo_type t \<noteq> MT_INV \<and> mo_type t \<noteq> MT_INS
              then queue_respawn t w else w)
     in bindE (P_UnsetThingPosition mobj w) (\<lambda>w.
        Inr (w\<lparr>w_sounds := w_sounds w @ [(mobj, - 1)], w_level := P_RemoveThinker mobj (w_level w)\<rparr>)))"

end
