(* ===== verification/Thing_Links.thy ===== *)
theory Thing_Links
  imports Things
begin

text \<open>
  The lists of things are what they should be: \<open>P_SetThingPosition\<close> puts a thing in front of the list of its
  sector and of its block, \<open>P_UnsetThingPosition\<close> takes exactly this thing out, and the iterator visits the list.
  The lemmas on one pair of links are proved once, in the locale \<open>thing_links\<close>, for both.
\<close>

section \<open>Lists of things\<close>

text \<open>The links from \<open>q\<close> (behind \<open>p\<close>) over the things of the list to \<open>q'\<close> (behind \<open>p'\<close>).\<close>

primrec seg :: "links \<Rightarrow> (int \<Rightarrow> mobj_t option) \<Rightarrow> int \<Rightarrow> int \<Rightarrow> int list \<Rightarrow> int \<Rightarrow> int \<Rightarrow> bool" where
  "seg l m p q [] p' q' \<longleftrightarrow> p = p' \<and> q = q'"
| "seg l m p q (x # xs) p' q' \<longleftrightarrow> q = x \<and> x \<noteq> 0 \<and> (\<exists>t. m x = Some t \<and> pv l t = p \<and> seg l m x (nx l t) xs p' q')"

definition chain :: "links \<Rightarrow> (int \<Rightarrow> mobj_t option) \<Rightarrow> int \<Rightarrow> int list \<Rightarrow> bool" where
  "chain l m q xs \<longleftrightarrow> (\<exists>p. seg l m 0 q xs p 0)"

definition link_pair :: "links \<Rightarrow> mobj_t \<Rightarrow> int \<times> int" where "link_pair l t = (nx l t, pv l t)"

lemma seg_cong:
  assumes "\<And>x. x \<in> set xs \<Longrightarrow> map_option (link_pair l) (m' x) = map_option (link_pair l) (m x)"
  shows "seg l m' p q xs p' q' \<longleftrightarrow> seg l m p q xs p' q'"
  using assms
proof (induction xs arbitrary: p q)
  case (Cons x xs)
  have "map_option (link_pair l) (m' x) = map_option (link_pair l) (m x)" using Cons.prems by simp
  then show ?case using Cons by (cases "m x"; cases "m' x") (auto simp: link_pair_def)
qed simp

lemma chain_cong:
  assumes "\<And>x. x \<in> set xs \<Longrightarrow> map_option (link_pair l) (m' x) = map_option (link_pair l) (m x)"
  shows "chain l m' q xs \<longleftrightarrow> chain l m q xs"
  unfolding chain_def by (intro arg_cong [where f = Ex] ext seg_cong assms)

lemma seg_append: "seg l m p q (xs @ ys) p' q' \<longleftrightarrow> (\<exists>a b. seg l m p q xs a b \<and> seg l m a b ys p' q')"
  by (induction xs arbitrary: p q) auto

lemma seg_same: "x \<notin> set xs \<Longrightarrow> seg l (m(x := t)) p q xs p' q' \<longleftrightarrow> seg l m p q xs p' q'"
  by (rule seg_cong) auto

lemma seg_mem: "seg l m p q xs p' q' \<Longrightarrow> x \<in> set xs \<Longrightarrow> x \<noteq> 0 \<and> m x \<noteq> None"
  by (induction xs arbitrary: p q) auto

text \<open>A thing without its links.\<close>

definition core :: "links \<Rightarrow> mobj_t \<Rightarrow> mobj_t" where
  "core l t = set_pv l 0 (set_nx l 0 t)"

text \<open>The only difference between two states: some of the links of the things in \<open>X\<close>.\<close>

definition bare :: "world \<Rightarrow> world" where
  "bare w = w\<lparr>w_level := (w_level w)\<lparr>lv_body := (\<lambda>_. No_Body)\<rparr>\<rparr>"

definition relinked :: "links \<Rightarrow> int set \<Rightarrow> world \<Rightarrow> world \<Rightarrow> bool" where
  "relinked l X w w' \<longleftrightarrow> bare w' = bare w \<and>
     (\<forall>p. map_option (core l) (mobj_at p w') = map_option (core l) (mobj_at p w)) \<and> (\<forall>p. p \<notin> X \<longrightarrow> mobj_at p w' = mobj_at p w)"

lemma relinked_refl [simp]: "relinked l X w w"
  by (simp add: relinked_def)

lemma relinked_trans: "relinked l X w w' \<Longrightarrow> relinked l X w' w'' \<Longrightarrow> relinked l X w w''"
  by (auto simp: relinked_def)

definition put_mobj :: "int \<Rightarrow> mobj_t \<Rightarrow> world \<Rightarrow> world" where
  "put_mobj p t w = w\<lparr>w_level := set_body p (B_mobj t) (w_level w)\<rparr>"

lemma upd_mobj_eq: "mobj_at p w = Some t \<Longrightarrow> upd_mobj p f w = Inr (put_mobj p (f t) w)"
  by (simp add: upd_mobj_def get_mobj_def put_mobj_def)

lemma get_mobj_eq: "mobj_at p w = Some t \<Longrightarrow> get_mobj p w = Inr t"
  by (simp add: get_mobj_def)

lemma mobj_at_nz: "mobj_at p w = Some t \<Longrightarrow> p \<noteq> 0"
  by (auto simp: mobj_at_def split: body.splits if_splits)

lemma mobj_at_put: "p \<noteq> 0 \<Longrightarrow> (\<lambda>q. mobj_at q (put_mobj p t w)) = (\<lambda>q. mobj_at q w)(p := Some t)"
  by (auto simp: mobj_at_def put_mobj_def)

lemma relinked_put: "mobj_at p w = Some t \<Longrightarrow> core l t' = core l t \<Longrightarrow> p \<in> X \<Longrightarrow> relinked l X w (put_mobj p t' w)"
  using mobj_at_put [of p t' w] mobj_at_nz [of p w t]
  by (auto simp: relinked_def bare_def put_mobj_def set_body_def fun_eq_iff)

text \<open>
  The lists of the things in \<open>L\<close>: a thing is in the list that \<open>place\<close> says, once, and the links
  are those of the lists.
\<close>

definition members :: "(mobj_t \<Rightarrow> nat option) \<Rightarrow> world \<Rightarrow> int set \<Rightarrow> nat \<Rightarrow> int set" where
  "members place w L i = {x \<in> L. \<exists>t. mobj_at x w = Some t \<and> place t = Some i}"

definition listed :: "links \<Rightarrow> (mobj_t \<Rightarrow> nat option) \<Rightarrow> (nat \<Rightarrow> int) \<Rightarrow> nat \<Rightarrow> world \<Rightarrow> int set \<Rightarrow> (nat \<Rightarrow> int list) \<Rightarrow> bool" where
  "listed l place head n w L S \<longleftrightarrow>
     (\<forall>i<n. distinct (S i) \<and> set (S i) = members place w L i \<and> chain l (\<lambda>p. mobj_at p w) (head i) (S i))"

lemma members_cong:
  assumes "\<And>p. p \<in> L \<Longrightarrow> map_option place' (mobj_at p w') = map_option place (mobj_at p w)"
  shows "members place' w' L = members place w L"
proof -
  have "(\<exists>t. mobj_at x w' = Some t \<and> place' t = Some i) \<longleftrightarrow> (\<exists>t. mobj_at x w = Some t \<and> place t = Some i)" if "x \<in> L" for x i
    using assms [OF that] by (cases "mobj_at x w"; cases "mobj_at x w'") auto
  then show ?thesis by (auto simp: members_def fun_eq_iff)
qed

lemma relinked_map:
  assumes "relinked l X w w'" "\<And>t t'. core l t' = core l t \<Longrightarrow> f t' = f t"
  shows "map_option f (mobj_at p w') = map_option f (mobj_at p w)"
proof -
  have "map_option (core l) (mobj_at p w') = map_option (core l) (mobj_at p w)" using assms(1) by (simp add: relinked_def)
  then show ?thesis by (cases "mobj_at p w"; cases "mobj_at p w'") (auto intro: assms(2))
qed

lemma listed_frame:
  assumes "listed l place head n w L S" "\<And>p. p \<in> L \<Longrightarrow> map_option (link_pair l) (mobj_at p w') = map_option (link_pair l) (mobj_at p w)"
    "\<And>p. p \<in> L \<Longrightarrow> map_option place' (mobj_at p w') = map_option place (mobj_at p w)" "\<And>i. i < n \<Longrightarrow> head' i = head i"
  shows "listed l place' head' n w' L S"
  unfolding listed_def
proof (intro allI impI)
  fix i assume i: "i < n"
  then have li: "distinct (S i)" "set (S i) = members place w L i" "chain l (\<lambda>p. mobj_at p w) (head i) (S i)"
    using assms(1) by (auto simp: listed_def)
  have "chain l (\<lambda>p. mobj_at p w') (head i) (S i)" using li(2,3) assms(2) by (subst chain_cong) (auto simp: members_def)
  then show "distinct (S i) \<and> set (S i) = members place' w' L i \<and> chain l (\<lambda>p. mobj_at p w') (head' i) (S i)"
    using li assms(4) [OF i] members_cong [OF assms(3)] by simp
qed

locale thing_links =
  fixes l :: links
  assumes nx_set_nx [simp]: "nx l (set_nx l a t) = a" and pv_set_nx [simp]: "pv l (set_nx l a t) = pv l t"
    and nx_set_pv [simp]: "nx l (set_pv l a t) = nx l t" and pv_set_pv [simp]: "pv l (set_pv l a t) = a"
    and core_set_nx [simp]: "core l (set_nx l a t) = core l t" and core_set_pv [simp]: "core l (set_pv l a t) = core l t"
begin

lemma seg_front:
  assumes "seg l m x b ys p' 0" "distinct ys"
  shows "\<exists>p'. seg l (if b \<noteq> 0 then m(b := map_option (set_pv l a) (m b)) else m) a b ys p' 0"
proof (cases ys)
  case (Cons y zs)
  then show ?thesis using assms by (auto simp: seg_same)
qed (use assms in auto)

lemma seg_back:
  assumes "seg l m p q xs a x" "distinct xs" "xs \<noteq> []"
  shows "seg l (m(a := map_option (set_nx l b) (m a))) p q xs a b"
proof -
  obtain zs z where z: "xs = zs @ [z]" using assms(3) by (cases xs rule: rev_cases) auto
  then show ?thesis using assms by (fastforce simp: seg_append seg_same)
qed

lemma link_in_ok:
  assumes c: "chain l (\<lambda>p. mobj_at p w) head xs" and x: "x \<notin> set xs" "mobj_at x w = Some t" and d: "distinct xs"
  shows "\<exists>w'. link_in l head x w = Inr w' \<and> relinked l (set (x # xs)) w w' \<and> chain l (\<lambda>p. mobj_at p w') x (x # xs)"
proof -
  note nz = mobj_at_nz [OF x(2)]
  let ?t = "set_nx l head (set_pv l 0 t)" and ?u = "put_mobj x (set_pv l 0 t) w"
  define v where "v = put_mobj x ?t ?u"
  have u: "mobj_at x ?u = Some (set_pv l 0 t)" by (simp add: fun_cong [OF mobj_at_put] nz)
  have v: "(\<lambda>p. mobj_at p v) = (\<lambda>p. mobj_at p w)(x := Some ?t)" by (simp add: v_def mobj_at_put nz)
  have r: "relinked l (set (x # xs)) w v"
    unfolding v_def using relinked_trans [OF relinked_put [OF x(2)] relinked_put [OF u]] by simp
  have step: "link_in l head x w = (if head \<noteq> 0 then upd_mobj head (set_pv l x) v else Inr v)"
    using x(2) nz u by (simp add: link_in_def upd_mobj_eq v_def)
  from c obtain e where e: "seg l (\<lambda>p. mobj_at p w) 0 head xs e 0" by (auto simp: chain_def)
  have "seg l (\<lambda>p. mobj_at p v) 0 head xs e 0" using e x(1) by (simp add: v seg_same)
  from seg_front [OF this d, of x] obtain e' where
    e': "seg l (if head \<noteq> 0 then (\<lambda>p. mobj_at p v)(head := map_option (set_pv l x) (mobj_at head v)) else (\<lambda>p. mobj_at p v)) x head xs e' 0"
    by blast
  show ?thesis
  proof (cases "head = 0")
    case True
    then show ?thesis using e' step r nz fun_cong [OF v, of x] by (auto simp: chain_def)
  next
    case False
    then obtain th where th: "mobj_at head v = Some th" "head \<noteq> x" "head \<in> set xs"
      using e x(1) fun_cong [OF v, of head] by (cases xs) auto
    let ?w = "put_mobj head (set_pv l x th) v"
    have w: "(\<lambda>p. mobj_at p ?w) = (\<lambda>p. mobj_at p v)(head := Some (set_pv l x th))" by (simp add: mobj_at_put False)
    have "relinked l (set (x # xs)) w ?w" by (rule relinked_trans [OF r relinked_put [OF th(1)]]) (simp_all add: th(3))
    moreover have "chain l (\<lambda>p. mobj_at p ?w) x (x # xs)"
      unfolding w using e' th False nz fun_cong [OF v, of x] by (auto simp: chain_def)
    ultimately show ?thesis using step th False by (simp add: upd_mobj_eq)
  qed
qed

lemma link_out_ok:
  assumes c: "chain l (\<lambda>p. mobj_at p w) head (xs @ x # ys)" and d: "distinct (xs @ x # ys)"
  shows "\<exists>w' q. relinked l (set (xs @ ys)) w w' \<and>
    (if xs = [] then link_out l set_head x w = set_head q w' \<and> chain l (\<lambda>p. mobj_at p w') q ys
     else link_out l set_head x w = Inr w' \<and> chain l (\<lambda>p. mobj_at p w') head (xs @ ys))"
proof -
  obtain a e t where s: "seg l (\<lambda>p. mobj_at p w) 0 head xs a x" "x \<noteq> 0" "mobj_at x w = Some t" "pv l t = a"
    "seg l (\<lambda>p. mobj_at p w) x (nx l t) ys e 0" using c by (auto simp: chain_def seg_append)
  define b where "b = nx l t"
  have bx: "b \<noteq> x" and bm: "b \<noteq> 0 \<Longrightarrow> \<exists>tb. mobj_at b w = Some tb \<and> b \<in> set ys"
    using s(2,5) d unfolding b_def [symmetric] by (cases ys; fastforce)+
  define v where "v = (if b \<noteq> 0 then put_mobj b (set_pv l a (the (mobj_at b w))) w else w)"
  have rv: "relinked l (set (xs @ ys)) w v" using bm relinked_put [of b w _ l] by (auto simp: v_def)
  have v: "(\<lambda>p. mobj_at p v) = (if b \<noteq> 0 then (\<lambda>p. mobj_at p w)(b := map_option (set_pv l a) (mobj_at b w)) else (\<lambda>p. mobj_at p w))"
    using bm by (auto simp: v_def mobj_at_put)
  obtain e' where ys: "seg l (\<lambda>p. mobj_at p v) a b ys e' 0" using seg_front [OF s(5), of a] d unfolding v b_def [symmetric] by auto
  have xv: "mobj_at x v = Some t" using fun_cong [OF v, of x] s(3) bx by (simp split: if_splits)
  have run: "link_out l set_head x w = (if a \<noteq> 0 then upd_mobj a (set_nx l b) v else set_head b v)"
    using s(3,4) xv bm by (auto simp: link_out_def get_mobj_eq upd_mobj_eq v_def b_def split: if_splits)
  have "b \<notin> set xs" if "b \<noteq> 0" using bm [OF that] d by auto
  then have xs: "seg l (\<lambda>p. mobj_at p v) 0 head xs a x" using s(1) unfolding v by (simp add: seg_same)
  show ?thesis
  proof (cases "xs = []")
    case True
    then have "a = 0" using s(1) by simp
    then show ?thesis using True run rv ys by (auto simp: chain_def)
  next
    case False
    obtain zs where z: "xs = zs @ [a]" using xs False by (cases xs rule: rev_cases) (auto simp: seg_append)
    obtain ta where ta: "mobj_at a v = Some ta" "a \<noteq> 0" using seg_mem [OF xs, of a] by (auto simp: z)
    let ?w = "put_mobj a (set_nx l b ta) v"
    have w: "(\<lambda>p. mobj_at p ?w) = (\<lambda>p. mobj_at p v)(a := Some (set_nx l b ta))" using ta by (simp add: mobj_at_put)
    have "relinked l (set (xs @ ys)) w ?w" by (rule relinked_trans [OF rv relinked_put [OF ta(1)]]) (simp_all add: z)
    moreover have "seg l (\<lambda>p. mobj_at p ?w) 0 head xs a b" using seg_back [OF xs _ False, of b] d ta unfolding w by simp
    moreover have "seg l (\<lambda>p. mobj_at p ?w) a b ys e' 0" unfolding w using ys d z by (simp add: seg_same)
    ultimately show ?thesis using run ta False by (auto simp: chain_def seg_append upd_mobj_eq)
  qed
qed

lemma listed_in:
  assumes li: "listed l place head n w L S" and x: "x \<notin> L" "mobj_at x w = Some t" "place t = Some i" "i < n"
    and pl: "\<And>t t'. core l t' = core l t \<Longrightarrow> place t' = place t"
  shows "\<exists>w'. link_in l (head i) x w = Inr w' \<and> relinked l (insert x (members place w L i)) w w' \<and>
    listed l place (head(i := x)) n w' (insert x L) (S(i := x # S i))"
proof -
  have i: "distinct (S i)" "set (S i) \<subseteq> L" "set (S i) = members place w L i" "chain l (\<lambda>p. mobj_at p w) (head i) (S i)" using li x(4) by (auto simp: listed_def members_def)
  obtain w' where w': "link_in l (head i) x w = Inr w'" "relinked l (set (x # S i)) w w'" "chain l (\<lambda>p. mobj_at p w') x (x # S i)"
    using link_in_ok [OF i(4) _ x(2) i(1)] i(2) x(1) by blast
  have mem: "members place w' (insert x L) = (members place w L)(i := insert x (members place w L i))"
    using members_cong [of "insert x L" place w' place w, OF relinked_map [OF w'(2) pl]] x(2,3) by (auto simp: members_def fun_eq_iff)
  have "listed l place (head(i := x)) n w' (insert x L) (S(i := x # S i))"
    unfolding listed_def
  proof (intro allI impI)
    fix j assume j: "j < n"
    have lj: "distinct (S j)" "set (S j) = members place w L j" "chain l (\<lambda>p. mobj_at p w) (head j) (S j)"
      using li j by (auto simp: listed_def)
    show "distinct ((S(i := x # S i)) j) \<and> set ((S(i := x # S i)) j) = members place w' (insert x L) j \<and>
      chain l (\<lambda>p. mobj_at p w') ((head(i := x)) j) ((S(i := x # S i)) j)"
    proof (cases "j = i")
      case True
      then show ?thesis using lj w'(3) mem x(1) by (auto simp: members_def)
    next
      case False
      have "p \<notin> set (x # S i)" if "p \<in> set (S j)" for p
        using that lj(2) li x(1,4) False by (auto simp: members_def listed_def)
      then have "chain l (\<lambda>p. mobj_at p w') (head j) (S j)"
        using lj(3) w'(2) by (subst chain_cong) (auto simp: relinked_def)
      then show ?thesis using lj mem False by simp
    qed
  qed
  moreover have "relinked l (insert x (members place w L i)) w w'" using w'(2) i(3) by simp
  ultimately show ?thesis using w'(1) by blast
qed

lemma listed_out:
  assumes li: "listed l place head n w L S" and x: "x \<in> L" "mobj_at x w = Some t" "place t = Some i" "i < n"
    and pl: "\<And>t t'. core l t' = core l t \<Longrightarrow> place t' = place t"
  shows "\<exists>w' q. relinked l (members place w L i) w w' \<and> listed l place (head(i := q)) n w' (L - {x}) (S(i := remove1 x (S i))) \<and>
    (link_out l set_head x w = Inr w' \<and> q = head i \<or> link_out l set_head x w = set_head q w')"
proof -
  have i: "distinct (S i)" "set (S i) = members place w L i" "chain l (\<lambda>p. mobj_at p w) (head i) (S i)" using li x(4) by (auto simp: listed_def)
  have "x \<in> set (S i)" using i(2) x by (auto simp: members_def)
  then obtain xs ys where xs: "S i = xs @ x # ys" "x \<notin> set xs" by (metis split_list_first)
  obtain w' q where r: "relinked l (set (xs @ ys)) w w'" and
    d: "if xs = [] then link_out l set_head x w = set_head q w' \<and> chain l (\<lambda>p. mobj_at p w') q ys
     else link_out l set_head x w = Inr w' \<and> chain l (\<lambda>p. mobj_at p w') (head i) (xs @ ys)"
    using link_out_ok [of w "head i" xs x ys set_head] i(1,3) xs(1) by auto
  define q' where "q' = (if xs = [] then q else head i)"
  have rem: "remove1 x (S i) = xs @ ys" using xs by (simp add: remove1_append)
  have mem: "members place w' (L - {x}) = (members place w L)(i := members place w L i - {x})"
    using members_cong [of "L - {x}" place w' place w, OF relinked_map [OF r pl]] x(2,3) by (auto simp: members_def fun_eq_iff)
  have "listed l place (head(i := q')) n w' (L - {x}) (S(i := remove1 x (S i)))"
    unfolding listed_def
  proof (intro allI impI)
    fix j assume j: "j < n"
    have lj: "distinct (S j)" "set (S j) = members place w L j" "chain l (\<lambda>p. mobj_at p w) (head j) (S j)"
      using li j by (auto simp: listed_def)
    show "distinct ((S(i := remove1 x (S i))) j) \<and> set ((S(i := remove1 x (S i))) j) = members place w' (L - {x}) j \<and>
      chain l (\<lambda>p. mobj_at p w') ((head(i := q')) j) ((S(i := remove1 x (S i))) j)"
    proof (cases "j = i")
      case True
      have "distinct (xs @ ys)" "set (xs @ ys) = members place w L i - {x}" using i(1) i(2) [symmetric] xs by auto
      moreover have "chain l (\<lambda>p. mobj_at p w') q' (xs @ ys)" using d by (auto simp: q'_def)
      ultimately show ?thesis using True mem rem by simp
    next
      case False
      have "p \<notin> set (xs @ ys)" if "p \<in> set (S j)" for p
      proof -
        have "p \<notin> set (S i)" using that False unfolding lj(2) i(2) by (auto simp: members_def)
        then show ?thesis by (simp add: xs(1))
      qed
      then have "chain l (\<lambda>p. mobj_at p w') (head j) (S j)"
        using lj(3) r by (subst chain_cong) (auto simp: relinked_def)
      then show ?thesis using lj mem False by simp
    qed
  qed
  moreover have "relinked l (members place w L i) w w'" using r i(2) xs(1) by (auto simp: relinked_def)
  moreover have "link_out l set_head x w = Inr w' \<and> q' = head i \<or> link_out l set_head x w = set_head q' w'"
    using d by (simp add: q'_def split: if_splits)
  ultimately show ?thesis by blast
qed

end

interpretation sl: thing_links slinks
  by unfold_locales (simp_all add: slinks_def core_def)

interpretation bl: thing_links blinks
  by unfold_locales (simp_all add: blinks_def core_def)

section \<open>The lists of the sectors and of the blocks\<close>

definition place_s :: "world \<Rightarrow> mobj_t \<Rightarrow> nat option" where
  "place_s w t = (if mo_flags t AND MF_NOSECTOR = 0
     then (case sector_of (mo_subsector t) w of Inr s \<Rightarrow> Some s | Inl _ \<Rightarrow> None) else None)"

definition place_b :: "world \<Rightarrow> mobj_t \<Rightarrow> nat option" where
  "place_b w t = (if mo_flags t AND MF_NOBLOCKMAP = 0 then block_of t w else None)"

definition sector_lists :: "world \<Rightarrow> int set \<Rightarrow> (nat \<Rightarrow> int list) \<Rightarrow> bool" where
  "sector_lists w L S \<longleftrightarrow> listed slinks (place_s w) (\<lambda>i. thinglist i w) (length (lv_sectors (w_level w))) w L S"

definition block_lists :: "world \<Rightarrow> int set \<Rightarrow> (nat \<Rightarrow> int list) \<Rightarrow> bool" where
  "block_lists w L B \<longleftrightarrow> listed blinks (place_b w) (\<lambda>b. w_blocklinks w ! b) (length (w_blocklinks w)) w L B"

text \<open>A thing that has been placed: it has a sector, and no links if it is off the block map.\<close>

definition placed :: "world \<Rightarrow> mobj_t \<Rightarrow> bool" where
  "placed w t \<longleftrightarrow> (\<exists>s. sector_of (mo_subsector t) w = Inr s \<and> s < length (lv_sectors (w_level w))) \<and>
     (mo_flags t AND MF_NOBLOCKMAP = 0 \<and> block_of t w = None \<longrightarrow> mo_bnext t = 0 \<and> mo_bprev t = 0)"

definition bmap_ok :: "world \<Rightarrow> bool" where
  "bmap_ok w \<longleftrightarrow> 0 \<le> w_bmapwidth w \<and> 0 \<le> w_bmapheight w \<and> int (length (w_blocklinks w)) = w_bmapwidth w * w_bmapheight w"

definition things_linked :: "world \<Rightarrow> int set \<Rightarrow> (nat \<Rightarrow> int list) \<Rightarrow> (nat \<Rightarrow> int list) \<Rightarrow> bool" where
  "things_linked w L S B \<longleftrightarrow> bmap_ok w \<and> (\<forall>x\<in>L. \<exists>t. mobj_at x w = Some t \<and> placed w t) \<and> sector_lists w L S \<and> block_lists w L B"

lemma block_of_less:
  assumes "bmap_ok w" "block_of t w = Some b"
  shows "b < length (w_blocklinks w)"
proof -
  define x y where "x = drop_bit MAPBLOCKSHIFT (i32 (mo_x t - w_bmaporgx w))" and "y = drop_bit MAPBLOCKSHIFT (i32 (mo_y t - w_bmaporgy w))"
  then have xy: "0 \<le> x" "x < w_bmapwidth w" "0 \<le> y" "y < w_bmapheight w" "b = nat (y * w_bmapwidth w + x)"
    using assms(2) unfolding block_of_def Let_def x_def [symmetric] y_def [symmetric] by (simp_all split: if_splits)
  have "y * w_bmapwidth w + x < (y + 1) * w_bmapwidth w" using xy by (simp add: algebra_simps)
  also have "\<dots> \<le> w_bmapheight w * w_bmapwidth w" using xy by (intro mult_right_mono) simp_all
  finally have "int b < int (length (w_blocklinks w))" using assms(1) xy by (simp add: bmap_ok_def mult.commute)
  then show ?thesis by simp
qed

text \<open>What the two halves of the operations leave alone.\<close>

definition bare_sectors :: "world \<Rightarrow> world" where
  "bare_sectors w = w\<lparr>w_level := (w_level w)\<lparr>lv_body := (\<lambda>_. No_Body), lv_sectors := map (\<lambda>s. s\<lparr>sc_thinglist := 0\<rparr>) (lv_sectors (w_level w))\<rparr>\<rparr>"

definition bare_blocks :: "world \<Rightarrow> world" where
  "bare_blocks w = (bare w)\<lparr>w_blocklinks := map (\<lambda>_. 0) (w_blocklinks w)\<rparr>"

definition sframe :: "world \<Rightarrow> world \<Rightarrow> bool" where
  "sframe w w' \<longleftrightarrow> bare_sectors w' = bare_sectors w \<and>
     (\<forall>p. map_option (core slinks) (mobj_at p w') = map_option (core slinks) (mobj_at p w))"

definition bframe :: "world \<Rightarrow> world \<Rightarrow> bool" where
  "bframe w w' \<longleftrightarrow> bare_blocks w' = bare_blocks w \<and>
     (\<forall>p. map_option (core blinks) (mobj_at p w') = map_option (core blinks) (mobj_at p w))"

lemma core_fields:
  assumes "core slinks t' = core slinks t"
  shows "mo_flags t' = mo_flags t" "mo_subsector t' = mo_subsector t" "mo_x t' = mo_x t" "mo_y t' = mo_y t"
    "mo_bnext t' = mo_bnext t" "mo_bprev t' = mo_bprev t"
  using arg_cong [OF assms, of mo_flags] arg_cong [OF assms, of mo_subsector] arg_cong [OF assms, of mo_x]
    arg_cong [OF assms, of mo_y] arg_cong [OF assms, of mo_bnext] arg_cong [OF assms, of mo_bprev]
  by (simp_all add: core_def slinks_def)

lemma core_fields_b:
  assumes "core blinks t' = core blinks t"
  shows "mo_flags t' = mo_flags t" "mo_subsector t' = mo_subsector t" "mo_x t' = mo_x t" "mo_y t' = mo_y t"
    "mo_snext t' = mo_snext t" "mo_sprev t' = mo_sprev t"
  using arg_cong [OF assms, of mo_flags] arg_cong [OF assms, of mo_subsector] arg_cong [OF assms, of mo_x]
    arg_cong [OF assms, of mo_y] arg_cong [OF assms, of mo_snext] arg_cong [OF assms, of mo_sprev]
  by (simp_all add: core_def blinks_def)

text \<open>The fields that the place of a thing depends on.\<close>

definition geometry :: "world \<Rightarrow> int \<times> subsector_t list \<times> arch \<times> int \<times> int \<times> int \<times> int \<times> nat \<times> nat" where
  "geometry w = (w_subsectors_at w, w_subsectors w, larch (w_level w), w_bmaporgx w, w_bmaporgy w, w_bmapwidth w, w_bmapheight w,
     length (w_blocklinks w), length (lv_sectors (w_level w)))"

lemma geometry_place:
  assumes "geometry w' = geometry w"
  shows "place_s w' = place_s w" "place_b w' = place_b w" "bmap_ok w' = bmap_ok w" "block_of t w' = block_of t w"
    "sector_of a w' = sector_of a w" "length (w_blocklinks w') = length (w_blocklinks w)"
    "length (lv_sectors (w_level w')) = length (lv_sectors (w_level w))" "placed w' t = placed w t"
  using assms by (auto simp: geometry_def place_s_def place_b_def sector_of_def block_of_def bmap_ok_def placed_def fun_eq_iff Let_def)

lemma geometry_bare: "geometry (bare w) = geometry w" "geometry (bare_sectors w) = geometry w" "geometry (bare_blocks w) = geometry w"
  by (simp_all add: geometry_def bare_def bare_sectors_def bare_blocks_def)

lemma sframe_same:
  assumes "sframe w w'"
  shows "geometry w' = geometry w" "w_blocklinks w' = w_blocklinks w"
proof -
  have e: "bare_sectors w' = bare_sectors w" using assms by (simp add: sframe_def)
  show "geometry w' = geometry w" using arg_cong [OF e, of geometry] by (simp add: geometry_bare)
  show "w_blocklinks w' = w_blocklinks w" using arg_cong [OF e, of w_blocklinks] by (simp add: bare_sectors_def)
qed

lemma bframe_same:
  assumes "bframe w w'"
  shows "geometry w' = geometry w" "lv_sectors (w_level w') = lv_sectors (w_level w)"
proof -
  have e: "bare_blocks w' = bare_blocks w" using assms by (simp add: bframe_def)
  show "geometry w' = geometry w" using arg_cong [OF e, of geometry] by (simp add: geometry_bare)
  show "lv_sectors (w_level w') = lv_sectors (w_level w)"
    using arg_cong [OF e, of "\<lambda>w. lv_sectors (w_level w)"] by (simp add: bare_blocks_def bare_def)
qed

lemma relinked_sframe:
  assumes "relinked slinks X w w'"
  shows "sframe w w'" "thinglist i w' = thinglist i w"
proof -
  have e: "bare w' = bare w" using assms by (simp add: relinked_def)
  have "bare_sectors v = (bare v)\<lparr>w_level := (w_level (bare v))\<lparr>lv_sectors := map (\<lambda>s. s\<lparr>sc_thinglist := 0\<rparr>) (lv_sectors (w_level (bare v)))\<rparr>\<rparr>" for v
    by (simp add: bare_sectors_def bare_def)
  then show "sframe w w'" using assms e by (simp add: sframe_def relinked_def)
  have "thinglist i (bare v) = thinglist i v" for v by (simp add: thinglist_def bare_def)
  from this [of w'] this [of w] show "thinglist i w' = thinglist i w" by (simp add: e)
qed

lemma relinked_bframe:
  assumes "relinked blinks X w w'"
  shows "bframe w w'" "w_blocklinks w' = w_blocklinks w"
proof -
  have e: "bare w' = bare w" using assms by (simp add: relinked_def)
  show b: "w_blocklinks w' = w_blocklinks w" using arg_cong [OF e, of w_blocklinks] by (simp add: bare_def)
  show "bframe w w'" using assms by (simp add: bframe_def relinked_def bare_blocks_def b)
qed

lemma set_thinglist_ok:
  assumes "sframe w v" "i < length (lv_sectors (w_level w))"
  obtains w' where "set_thinglist i q v = Inr w'" "sframe w w'" "\<And>p. mobj_at p w' = mobj_at p v"
    "\<And>j. thinglist j w' = (if j = i then q else thinglist j v)"
proof -
  let ?ss = "lv_sectors (w_level v)"
  let ?w = "v\<lparr>w_level := (w_level v)\<lparr>lv_sectors := ?ss[i := (?ss ! i)\<lparr>sc_thinglist := q\<rparr>]\<rparr>\<rparr>"
  have i: "i < length ?ss" using assms geometry_place(7) [OF sframe_same(1)] by simp
  have "(map (\<lambda>s. s\<lparr>sc_thinglist := 0\<rparr>) ?ss)[i := (?ss ! i)\<lparr>sc_thinglist := 0\<rparr>] = map (\<lambda>s. s\<lparr>sc_thinglist := 0\<rparr>) ?ss"
    using i by (metis list_update_id nth_map)
  then have "bare_sectors ?w = bare_sectors v" by (simp add: bare_sectors_def map_update)
  then have "sframe w ?w" using assms(1) by (simp add: sframe_def mobj_at_def)
  moreover have "thinglist j ?w = (if j = i then q else thinglist j v)" for j using i by (simp add: thinglist_def)
  moreover have "set_thinglist i q v = Inr ?w" using i by (simp add: set_thinglist_def)
  ultimately show thesis using that [of ?w] by (simp add: mobj_at_def)
qed

lemma set_block_ok:
  assumes "bframe w v" "b < length (w_blocklinks w)"
  obtains w' where "set_block b q v = Inr w'" "bframe w w'" "\<And>p. mobj_at p w' = mobj_at p v" "w_blocklinks w' = (w_blocklinks v)[b := q]"
proof -
  let ?w = "v\<lparr>w_blocklinks := (w_blocklinks v)[b := q]\<rparr>"
  have b: "b < length (w_blocklinks v)" using assms geometry_place(6) [OF bframe_same(1)] by simp
  have "map (\<lambda>_. 0::int) ((w_blocklinks v)[b := q]) = map (\<lambda>_. 0) (w_blocklinks v)" by (simp add: map_replicate_const)
  then have "bare_blocks ?w = bare_blocks v" by (simp add: bare_blocks_def bare_def)
  then have "bframe w ?w" using assms(1) by (simp add: bframe_def mobj_at_def)
  then show thesis using that [of ?w] b by (simp add: set_block_def mobj_at_def)
qed

lemma place_s_core:
  assumes "core slinks t' = core slinks t"
  shows "place_s w t' = place_s w t" "place_b w t' = place_b w t" "link_pair blinks t' = link_pair blinks t" "placed w t' = placed w t"
  using core_fields [OF assms] by (simp_all add: place_s_def place_b_def block_of_def link_pair_def blinks_def placed_def)

lemma place_b_core:
  assumes "core blinks t' = core blinks t"
  shows "place_s w t' = place_s w t" "place_b w t' = place_b w t" "link_pair slinks t' = link_pair slinks t" "block_of t' w = block_of t w"
  using core_fields_b [OF assms] by (simp_all add: place_s_def place_b_def block_of_def link_pair_def slinks_def)

lemma listed_at_cong:
  assumes "listed l place head n w L S" "\<And>p. mobj_at p w' = mobj_at p w" "\<And>i. i < n \<Longrightarrow> head' i = head i"
  shows "listed l place head' n w' L S"
  by (rule listed_frame [OF assms(1)]) (simp_all add: assms(2,3))

lemma sector_out:
  assumes li: "sector_lists w L S" and x: "x \<in> L" "mobj_at x w = Some t" "mo_flags t AND MF_NOSECTOR = 0"
    "sector_of (mo_subsector t) w = Inr s" "s < length (lv_sectors (w_level w))"
  shows "\<exists>w'. link_out slinks (\<lambda>p w. bindE (sector_of (mo_subsector t) w) (\<lambda>s. set_thinglist s p w)) x w = Inr w' \<and> sframe w w' \<and>
    sector_lists w' (L - {x}) (S(s := remove1 x (S s)))"
proof -
  let ?h = "\<lambda>p w. bindE (sector_of (mo_subsector t) w) (\<lambda>s. set_thinglist s p w)" and ?hd = "\<lambda>i. thinglist i w"
  have "place_s w t = Some s" using x by (simp add: place_s_def)
  from sl.listed_out [OF li [unfolded sector_lists_def] x(1,2) this x(5) place_s_core(1), of ?h] obtain v q where
    r: "relinked slinks (members (place_s w) w L s) w v" and lv: "listed slinks (place_s w) (?hd(s := q)) (length (lv_sectors (w_level w))) v (L - {x}) (S(s := remove1 x (S s)))"
    and d: "link_out slinks ?h x w = Inr v \<and> q = ?hd s \<or> link_out slinks ?h x w = ?h q v" by blast
  have f: "sframe w v" by (rule relinked_sframe [OF r])
  have hv: "thinglist i v = ?hd i" for i by (rule relinked_sframe [OF r])
  from d show ?thesis
  proof
    assume a: "link_out slinks ?h x w = Inr v \<and> q = ?hd s"
    have "sector_lists v (L - {x}) (S(s := remove1 x (S s)))"
      unfolding sector_lists_def geometry_place [OF sframe_same(1) [OF f]] by (rule listed_at_cong [OF lv]) (simp_all add: hv a)
    then show ?thesis using a f by blast
  next
    assume a: "link_out slinks ?h x w = ?h q v"
    obtain w' where w': "set_thinglist s q v = Inr w'" "sframe w w'" "\<And>p. mobj_at p w' = mobj_at p v"
      "\<And>j. thinglist j w' = (if j = s then q else thinglist j v)" using set_thinglist_ok [OF f x(5)] by blast
    have "sector_lists w' (L - {x}) (S(s := remove1 x (S s)))"
      unfolding sector_lists_def geometry_place [OF sframe_same(1) [OF w'(2)]] by (rule listed_at_cong [OF lv]) (simp_all add: w'(3,4) hv)
    then show ?thesis using a w'(1,2) geometry_place(5) [OF sframe_same(1) [OF f]] x(4) by auto
  qed
qed

lemma block_out:
  assumes li: "block_lists w L B" and x: "x \<in> L" "mobj_at x w = Some t" "mo_flags t AND MF_NOBLOCKMAP = 0"
    "block_of t w = Some b" "b < length (w_blocklinks w)"
  shows "\<exists>w'. link_out blinks (\<lambda>p w. case block_of t w of Some b \<Rightarrow> set_block b p w | None \<Rightarrow> Inr w) x w = Inr w' \<and> bframe w w' \<and>
    block_lists w' (L - {x}) (B(b := remove1 x (B b))) \<and> (\<forall>p. p \<notin> members (place_b w) w L b \<longrightarrow> mobj_at p w' = mobj_at p w)"
proof -
  let ?h = "\<lambda>p w. case block_of t w of Some b \<Rightarrow> set_block b p w | None \<Rightarrow> Inr w" and ?hd = "\<lambda>i. w_blocklinks w ! i"
  have "place_b w t = Some b" using x by (simp add: place_b_def)
  from bl.listed_out [OF li [unfolded block_lists_def] x(1,2) this x(5) place_b_core(2), of ?h] obtain v q where
    r: "relinked blinks (members (place_b w) w L b) w v" and lv: "listed blinks (place_b w) (?hd(b := q)) (length (w_blocklinks w)) v (L - {x}) (B(b := remove1 x (B b)))"
    and d: "link_out blinks ?h x w = Inr v \<and> q = ?hd b \<or> link_out blinks ?h x w = ?h q v" by blast
  have f: "bframe w v" and hv: "w_blocklinks v = w_blocklinks w" using relinked_bframe [OF r] by blast+
  from d show ?thesis
  proof
    assume a: "link_out blinks ?h x w = Inr v \<and> q = ?hd b"
    have "block_lists v (L - {x}) (B(b := remove1 x (B b)))"
      unfolding block_lists_def geometry_place [OF bframe_same(1) [OF f]] by (rule listed_at_cong [OF lv]) (simp_all add: hv a)
    then show ?thesis using a f r by (auto simp: relinked_def)
  next
    assume a: "link_out blinks ?h x w = ?h q v"
    obtain w' where w': "set_block b q v = Inr w'" "bframe w w'" "\<And>p. mobj_at p w' = mobj_at p v" "w_blocklinks w' = (w_blocklinks v)[b := q]"
      using set_block_ok [OF f x(5)] by blast
    have "block_lists w' (L - {x}) (B(b := remove1 x (B b)))"
      unfolding block_lists_def geometry_place [OF bframe_same(1) [OF w'(2)]]
      by (rule listed_at_cong [OF lv]) (simp_all add: w'(3,4) hv x(5) nth_list_update)
    then show ?thesis using a w'(1-3) geometry_place(4) [OF bframe_same(1) [OF f]] x(4) r by (auto simp: relinked_def)
  qed
qed

lemma sector_in:
  assumes li: "sector_lists w L S" and x: "x \<notin> L" "mobj_at x w = Some t" "mo_flags t AND MF_NOSECTOR = 0"
    "sector_of (mo_subsector t) w = Inr s" "s < length (lv_sectors (w_level w))"
  shows "\<exists>w'. bindE (link_in slinks (thinglist s w) x w) (\<lambda>w. set_thinglist s x w) = Inr w' \<and> sframe w w' \<and>
    sector_lists w' (insert x L) (S(s := x # S s))"
proof -
  have "place_s w t = Some s" using x by (simp add: place_s_def)
  from sl.listed_in [OF li [unfolded sector_lists_def] x(1,2) this x(5) place_s_core(1)] obtain v where
    r: "link_in slinks (thinglist s w) x w = Inr v" "relinked slinks (insert x (members (place_s w) w L s)) w v" and
    lv: "listed slinks (place_s w) ((\<lambda>i. thinglist i w)(s := x)) (length (lv_sectors (w_level w))) v (insert x L) (S(s := x # S s))" by blast
  have f: "sframe w v" and hv: "thinglist i v = thinglist i w" for i using relinked_sframe [OF r(2)] by blast+
  obtain w' where w': "set_thinglist s x v = Inr w'" "sframe w w'" "\<And>p. mobj_at p w' = mobj_at p v"
    "\<And>j. thinglist j w' = (if j = s then x else thinglist j v)" using set_thinglist_ok [OF f x(5)] by blast
  have "sector_lists w' (insert x L) (S(s := x # S s))"
    unfolding sector_lists_def geometry_place [OF sframe_same(1) [OF w'(2)]] by (rule listed_at_cong [OF lv]) (simp_all add: w'(3,4) hv)
  then show ?thesis using r(1) w'(1,2) by auto
qed

lemma block_in:
  assumes li: "block_lists w L B" and x: "x \<notin> L" "mobj_at x w = Some t" "mo_flags t AND MF_NOBLOCKMAP = 0"
    "block_of t w = Some b" "b < length (w_blocklinks w)"
  shows "\<exists>w'. bindE (link_in blinks (w_blocklinks w ! b) x w) (\<lambda>w. set_block b x w) = Inr w' \<and> bframe w w' \<and>
    block_lists w' (insert x L) (B(b := x # B b)) \<and> (\<forall>p. p \<noteq> x \<and> p \<notin> members (place_b w) w L b \<longrightarrow> mobj_at p w' = mobj_at p w)"
proof -
  have "place_b w t = Some b" using x by (simp add: place_b_def)
  from bl.listed_in [OF li [unfolded block_lists_def] x(1,2) this x(5) place_b_core(2)] obtain v where
    r: "link_in blinks (w_blocklinks w ! b) x w = Inr v" "relinked blinks (insert x (members (place_b w) w L b)) w v" and
    lv: "listed blinks (place_b w) ((\<lambda>i. w_blocklinks w ! i)(b := x)) (length (w_blocklinks w)) v (insert x L) (B(b := x # B b))" by blast
  have f: "bframe w v" and hv: "w_blocklinks v = w_blocklinks w" using relinked_bframe [OF r(2)] by blast+
  obtain w' where w': "set_block b x v = Inr w'" "bframe w w'" "\<And>p. mobj_at p w' = mobj_at p v" "w_blocklinks w' = (w_blocklinks v)[b := x]"
    using set_block_ok [OF f x(5)] by blast
  have "block_lists w' (insert x L) (B(b := x # B b))"
    unfolding block_lists_def geometry_place [OF bframe_same(1) [OF w'(2)]]
    by (rule listed_at_cong [OF lv]) (simp_all add: w'(3,4) hv x(5) nth_list_update)
  then show ?thesis using r w'(1-3) by (auto simp: relinked_def)
qed

text \<open>The other lists, and the things themselves, are not affected.\<close>

lemma frame_map:
  assumes "\<forall>p. map_option (core l) (mobj_at p w') = map_option (core l) (mobj_at p w)" "\<And>t t'. core l t' = core l t \<Longrightarrow> f t' = f t"
  shows "map_option f (mobj_at p w') = map_option f (mobj_at p w)"
  using spec [OF assms(1), of p] by (cases "mobj_at p w"; cases "mobj_at p w'") (auto intro: assms(2))

lemma sframe_block_lists:
  assumes "sframe w w'"
  shows "block_lists w L B \<Longrightarrow> block_lists w' L B"
proof -
  have c: "\<forall>p. map_option (core slinks) (mobj_at p w') = map_option (core slinks) (mobj_at p w)" using assms by (simp add: sframe_def)
  assume "block_lists w L B"
  then show ?thesis unfolding block_lists_def geometry_place [OF sframe_same(1) [OF assms]]
    by (rule listed_frame) (simp_all add: sframe_same(2) [OF assms] frame_map [OF c place_s_core(3)] frame_map [OF c place_s_core(2)])
qed

lemma bframe_sector_lists:
  assumes "bframe w w'"
  shows "sector_lists w L S \<Longrightarrow> sector_lists w' L S"
proof -
  have c: "\<forall>p. map_option (core blinks) (mobj_at p w') = map_option (core blinks) (mobj_at p w)" using assms by (simp add: bframe_def)
  assume "sector_lists w L S"
  then show ?thesis unfolding sector_lists_def geometry_place [OF bframe_same(1) [OF assms]]
    by (rule listed_frame) (simp_all add: thinglist_def bframe_same(2) [OF assms] frame_map [OF c place_b_core(3)] frame_map [OF c place_b_core(1)])
qed

section \<open>The operations on the lists\<close>

definition drop_thing :: "nat option \<Rightarrow> int \<Rightarrow> (nat \<Rightarrow> int list) \<Rightarrow> nat \<Rightarrow> int list" where
  "drop_thing place x S = (case place of None \<Rightarrow> S | Some i \<Rightarrow> S(i := remove1 x (S i)))"

definition push_thing :: "nat option \<Rightarrow> int \<Rightarrow> (nat \<Rightarrow> int list) \<Rightarrow> nat \<Rightarrow> int list" where
  "push_thing place x S = (case place of None \<Rightarrow> S | Some i \<Rightarrow> S(i := x # S i))"

lemma listed_none:
  assumes "listed l place head n w L S" "mobj_at x w = Some t" "place t = None"
  shows "listed l place head n w (L - {x}) S" "listed l place head n w (insert x L) S"
proof -
  have "members place w (L - {x}) = members place w L" "members place w (insert x L) = members place w L"
    using assms(2,3) by (auto simp: members_def fun_eq_iff)
  then show "listed l place head n w (L - {x}) S" "listed l place head n w (insert x L) S"
    using assms(1) by (simp_all add: listed_def)
qed

lemma sframe_placed:
  assumes "sframe w w'" "mobj_at y w = Some t"
  obtains t' where "mobj_at y w' = Some t'" "core slinks t' = core slinks t" "placed w' t' = placed w t" "place_b w' t' = place_b w t"
proof -
  have c: "\<forall>p. map_option (core slinks) (mobj_at p w') = map_option (core slinks) (mobj_at p w)" using assms(1) by (simp add: sframe_def)
  obtain t' where t': "mobj_at y w' = Some t'" "core slinks t' = core slinks t" using spec [OF c, of y] assms(2) by auto
  then show thesis using that place_s_core(2,4) [OF t'(2), of w] geometry_place(2,8) [OF sframe_same(1) [OF assms(1)]] by simp
qed

lemma bframe_placed:
  assumes f: "bframe w w'" "mobj_at y w = Some t" "placed w t" and s: "place_b w t = None \<Longrightarrow> mobj_at y w' = mobj_at y w"
  shows "\<exists>t'. mobj_at y w' = Some t' \<and> placed w' t'"
proof -
  have c: "\<forall>p. map_option (core blinks) (mobj_at p w') = map_option (core blinks) (mobj_at p w)" using f(1) by (simp add: bframe_def)
  obtain t' where t': "mobj_at y w' = Some t'" "core blinks t' = core blinks t" using spec [OF c, of y] f(2) by auto
  note g = geometry_place [OF bframe_same(1) [OF f(1)]]
  have "placed w' t'"
  proof (cases "place_b w t")
    case None
    then show ?thesis using s f(2,3) t'(1) g(8) by simp
  next
    case (Some b)
    have "place_b w t' = Some b" using Some place_b_core(2) [OF t'(2)] by simp
    then show ?thesis using f(3) core_fields_b(2) [OF t'(2)] unfolding placed_def g by (auto simp: place_b_def split: if_splits)
  qed
  then show ?thesis using t'(1) by blast
qed

lemma unset_sector:
  assumes tl: "things_linked w L S B" and x: "x \<in> L" "mobj_at x w = Some t"
  obtains v where "(if mo_flags t AND MF_NOSECTOR = 0
      then link_out slinks (\<lambda>p w. bindE (sector_of (mo_subsector t) w) (\<lambda>s. set_thinglist s p w)) x w else Inr w) = Inr v"
    "sframe w v" "sector_lists v (L - {x}) (drop_thing (place_s w t) x S)"
proof (cases "mo_flags t AND MF_NOSECTOR = 0")
  case True
  then obtain s where "sector_of (mo_subsector t) w = Inr s" "s < length (lv_sectors (w_level w))" "place_s w t = Some s"
    using tl x by (auto simp: things_linked_def placed_def place_s_def)
  then show thesis using sector_out [of w L S x t s] tl x True that by (auto simp: things_linked_def drop_thing_def)
next
  case False
  then have "place_s w t = None" by (simp add: place_s_def)
  moreover have "sframe w w" by (simp add: sframe_def)
  ultimately show thesis using that [of w] listed_none(1) tl x(2) False
    by (auto simp: things_linked_def drop_thing_def sector_lists_def)
qed

lemma unset_block:
  assumes bl: "block_lists w L B" "bmap_ok w" and x: "x \<in> L" "mobj_at x w = Some t" "placed w t"
  obtains w' where "(if mo_flags t AND MF_NOBLOCKMAP = 0
      then link_out blinks (\<lambda>p w. case block_of t w of Some b \<Rightarrow> set_block b p w | None \<Rightarrow> Inr w) x w else Inr w) = Inr w'"
    "bframe w w'" "block_lists w' (L - {x}) (drop_thing (place_b w t) x B)"
    "\<And>p u. mobj_at p w = Some u \<Longrightarrow> place_b w u = None \<Longrightarrow> mobj_at p w' = mobj_at p w"
proof (cases "place_b w t")
  case (Some b)
  then have b: "mo_flags t AND MF_NOBLOCKMAP = 0" "block_of t w = Some b" by (auto simp: place_b_def split: if_splits)
  show thesis using block_out [OF bl(1) x(1,2) b block_of_less [OF bl(2) b(2)]] Some b(1) that
    by (auto simp: drop_thing_def members_def)
next
  case None
  have l: "link_out blinks (\<lambda>p w. case block_of t w of Some b \<Rightarrow> set_block b p w | None \<Rightarrow> Inr w) x w = Inr w" if "mo_flags t AND MF_NOBLOCKMAP = 0"
    using that None x(2,3) by (simp add: link_out_def get_mobj_eq place_b_def placed_def blinks_def)
  have "bframe w w" by (simp add: bframe_def)
  then show thesis using that [of w] l None listed_none(1) bl(1) x(2) by (auto simp: drop_thing_def block_lists_def)
qed

lemma P_UnsetThingPosition_ok:
  assumes tl: "things_linked w L S B" and x: "x \<in> L" "mobj_at x w = Some t"
  shows "\<exists>w'. P_UnsetThingPosition x w = Inr w' \<and>
    things_linked w' (L - {x}) (drop_thing (place_s w t) x S) (drop_thing (place_b w t) x B)"
proof -
  have pt: "placed w t" and bm: "bmap_ok w" using tl x by (auto simp: things_linked_def)
  obtain v where v: "(if mo_flags t AND MF_NOSECTOR = 0
      then link_out slinks (\<lambda>p w. bindE (sector_of (mo_subsector t) w) (\<lambda>s. set_thinglist s p w)) x w else Inr w) = Inr v"
    "sframe w v" "sector_lists v (L - {x}) (drop_thing (place_s w t) x S)" using unset_sector [OF assms] .
  obtain t' where t': "mobj_at x v = Some t'" "core slinks t' = core slinks t" "placed v t'" "place_b v t' = place_b w t"
    using sframe_placed [OF v(2) x(2)] pt by metis
  note cf = core_fields [OF t'(2)]
  have bl: "block_lists v L B" using tl sframe_block_lists [OF v(2)] by (simp add: things_linked_def)
  have bv: "bmap_ok v" using bm geometry_place(3) [OF sframe_same(1) [OF v(2)]] by simp
  have k: "block_of t' = block_of t" using cf by (simp add: block_of_def fun_eq_iff)
  obtain w' where w': "(if mo_flags t AND MF_NOBLOCKMAP = 0
      then link_out blinks (\<lambda>p w. case block_of t w of Some b \<Rightarrow> set_block b p w | None \<Rightarrow> Inr w) x v else Inr v) = Inr w'"
    "bframe v w'" "block_lists w' (L - {x}) (drop_thing (place_b w t) x B)"
    "\<And>p u. mobj_at p v = Some u \<Longrightarrow> place_b v u = None \<Longrightarrow> mobj_at p w' = mobj_at p v"
    by (rule unset_block [OF bl bv x(1) t'(1,3), unfolded k cf(1) t'(4)], rule that)
  have "\<exists>u. mobj_at y w' = Some u \<and> placed w' u" if y: "y \<in> L - {x}" for y
  proof -
    obtain ty where "mobj_at y w = Some ty" "placed w ty" using tl y by (auto simp: things_linked_def)
    then obtain u where u: "mobj_at y v = Some u" "placed v u" using sframe_placed [OF v(2)] by metis
    show ?thesis using bframe_placed [OF w'(2) u] w'(4) [OF u(1)] by blast
  qed
  then have "things_linked w' (L - {x}) (drop_thing (place_s w t) x S) (drop_thing (place_b w t) x B)"
    using bframe_sector_lists [OF w'(2) v(3)] w'(3) bv geometry_place(3) [OF bframe_same(1) [OF w'(2)]] by (simp add: things_linked_def)
  moreover have "P_UnsetThingPosition x w = Inr w'" using x(2) v(1) w'(1) by (auto simp: P_UnsetThingPosition_def get_mobj_eq split: if_splits)
  ultimately show ?thesis by blast
qed

text \<open>
  The BSP tree as the node builder makes it: a child is a subsector of the table or a node with a smaller number.
\<close>

definition child_ok :: "world \<Rightarrow> nat \<Rightarrow> int \<Rightarrow> bool" where
  "child_ok w i c \<longleftrightarrow> (if c AND NF_SUBSECTOR \<noteq> 0 then nat (c AND NOT NF_SUBSECTOR) < length (w_subsectors w) else 0 \<le> c \<and> c < int i)"

definition bsp_ok :: "world \<Rightarrow> bool" where
  "bsp_ok w \<longleftrightarrow> length (w_nodes w) \<le> 0x8000 \<and> w_subsectors w \<noteq> [] \<and>
     list_all (\<lambda>ss. ss_sector ss < length (lv_sectors (w_level w))) (w_subsectors w) \<and>
     list_all (\<lambda>i. child_ok w i (fst (nd_children (w_nodes w ! i))) \<and> child_ok w i (snd (nd_children (w_nodes w ! i)))) [0..<length (w_nodes w)]"

lemma point_loop_ok:
  assumes ok: "bsp_ok w"
  shows "child_ok w i c \<Longrightarrow> i \<le> length (w_nodes w) \<Longrightarrow> \<exists>ss. point_loop x y c w = Some (Inr ss) \<and> ss < length (w_subsectors w)"
proof (induction i arbitrary: c rule: less_induct)
  case (less i)
  show ?case
  proof (cases "c AND NF_SUBSECTOR = 0")
    case False
    then show ?thesis using less.prems by (subst point_loop.simps) (simp add: child_ok_def)
  next
    case True
    then have c: "0 \<le> c" "nat c < i" "nat c < length (w_nodes w)" using less.prems by (auto simp: child_ok_def)
    let ?n = "w_nodes w ! nat c"
    have "child_ok w (nat c) (if R_PointOnSide x y ?n then snd (nd_children ?n) else fst (nd_children ?n))"
      using ok c(3) by (auto simp: bsp_ok_def list_all_iff)
    from less.IH [OF c(2) this] c show ?thesis using True by (subst point_loop.simps) (auto simp: Let_def)
  qed
qed

lemma R_PointInSubsector_ok:
  assumes "bsp_ok w"
  shows "\<exists>ss. R_PointInSubsector x y w = Some (Inr ss) \<and> ss < length (w_subsectors w)"
proof (cases "w_nodes w = []")
  case True
  then show ?thesis using assms by (simp add: R_PointInSubsector_def bsp_ok_def)
next
  case False
  let ?c = "int (length (w_nodes w)) - 1"
  have c: "0 \<le> ?c" "?c < 2 ^ 15" using False assms by (auto simp: bsp_ok_def Suc_le_eq)
  have "take_bit 15 ?c = ?c" using c by (intro take_bit_int_eq_self) auto
  then have "\<not> bit ?c 15" by (metis bit_take_bit_iff less_irrefl)
  then have "?c AND NF_SUBSECTOR = 0" using and_exp_eq_0_iff_not_bit [of ?c 15] by (simp add: NF_SUBSECTOR_def)
  then have "child_ok w (length (w_nodes w)) ?c" using c by (simp add: child_ok_def)
  from point_loop_ok [OF assms this] show ?thesis using False by (simp add: R_PointInSubsector_def)
qed

lemma sector_of_addr:
  assumes "i < length (w_subsectors w)"
  shows "sector_of (subsector_addr i w) w = Inr (ss_sector (w_subsectors w ! i))"
  using assms by (cases "larch (w_level w)") (simp_all add: sector_of_def subsector_addr_def sizeof_subsector_def Let_def)

lemma set_sector:
  assumes sl: "sector_lists w L S" and x: "x \<notin> L" "mobj_at x w = Some t" and ss: "sector_of (mo_subsector t) w = Inr s" "s < length (lv_sectors (w_level w))"
  obtains v where "(if mo_flags t AND MF_NOSECTOR = 0 then bindE (link_in slinks (thinglist s w) x w) (\<lambda>w. set_thinglist s x w) else Inr w) = Inr v"
    "sframe w v" "sector_lists v (insert x L) (push_thing (place_s w t) x S)"
proof (cases "mo_flags t AND MF_NOSECTOR = 0")
  case True
  then show thesis using sector_in [OF sl x True ss] that ss by (auto simp: push_thing_def place_s_def)
next
  case False
  then have "place_s w t = None" by (simp add: place_s_def)
  moreover have "sframe w w" by (simp add: sframe_def)
  ultimately show thesis using that [of w] listed_none(2) sl x(2) False by (auto simp: push_thing_def sector_lists_def)
qed

lemma set_block_links:
  assumes bl: "block_lists w L B" "bmap_ok w" and x: "x \<notin> L" "mobj_at x w = Some t"
  obtains w' where "(if mo_flags t AND MF_NOBLOCKMAP = 0
       then (case block_of t w of
               Some b \<Rightarrow>
                 if b < length (w_blocklinks w)
                 then bindE (link_in blinks (w_blocklinks w ! b) x w) (\<lambda>w. set_block b x w)
                 else Inl Bad_Access
             | None \<Rightarrow> upd_mobj x (\<lambda>t. t\<lparr>mo_bnext := 0, mo_bprev := 0\<rparr>) w)
       else Inr w) = Inr w'"
    "bframe w w'" "block_lists w' (insert x L) (push_thing (place_b w t) x B)"
    "\<And>p u. p \<noteq> x \<Longrightarrow> mobj_at p w = Some u \<Longrightarrow> place_b w u = None \<Longrightarrow> mobj_at p w' = mobj_at p w"
    "mo_flags t AND MF_NOBLOCKMAP = 0 \<Longrightarrow> block_of t w = None \<Longrightarrow> \<exists>u. mobj_at x w' = Some u \<and> mo_bnext u = 0 \<and> mo_bprev u = 0"
proof (cases "place_b w t")
  case (Some b)
  then have b: "mo_flags t AND MF_NOBLOCKMAP = 0" "block_of t w = Some b" by (auto simp: place_b_def split: if_splits)
  note lt = block_of_less [OF bl(2) b(2)]
  show thesis using block_in [OF bl(1) x(1,2) b lt] Some b lt that by (auto simp: push_thing_def members_def)
next
  case None
  show thesis
  proof (cases "mo_flags t AND MF_NOBLOCKMAP = 0")
    case True
    let ?t = "t\<lparr>mo_bnext := 0, mo_bprev := 0\<rparr>"
    let ?w = "put_mobj x ?t w"
    have nz: "x \<noteq> 0" by (rule mobj_at_nz [OF x(2)])
    have at: "mobj_at p ?w = (if p = x then Some ?t else mobj_at p w)" for p using fun_cong [OF mobj_at_put [OF nz]] by simp
    have r: "relinked blinks {x} w ?w" by (rule relinked_put [OF x(2)]) (simp_all add: core_def blinks_def)
    have "block_lists ?w L B" unfolding block_lists_def geometry_place [OF bframe_same(1) [OF relinked_bframe(1) [OF r]]]
      using bl(1) [unfolded block_lists_def] by (rule listed_frame) (use x(1) at relinked_bframe(2) [OF r] in auto)
    moreover have "place_b ?w ?t = None"
      using None place_b_core(2) [of ?t t w] unfolding geometry_place [OF bframe_same(1) [OF relinked_bframe(1) [OF r]]]
      by (simp add: core_def blinks_def)
    ultimately have "block_lists ?w (insert x L) B" using listed_none(2) [of blinks "place_b ?w" _ _ ?w L B x ?t] at by (simp add: block_lists_def)
    then show thesis using that [of ?w] None True x(2) relinked_bframe(1) [OF r] at by (simp add: upd_mobj_eq place_b_def push_thing_def)
  next
    case False
    have "bframe w w" by (simp add: bframe_def)
    then show thesis using that [of w] False None listed_none(2) bl(1) x(2) by (auto simp: push_thing_def block_lists_def)
  qed
qed

text \<open>The thing with the subsector it stands in.\<close>

definition settled :: "world \<Rightarrow> mobj_t \<Rightarrow> mobj_t" where
  "settled w t = (case R_PointInSubsector (mo_x t) (mo_y t) w of
     Some (Inr ss) \<Rightarrow> t\<lparr>mo_subsector := subsector_addr ss w\<rparr> | _ \<Rightarrow> t)"

lemma P_SetThingPosition_ok:
  assumes tl: "things_linked w L S B" and ok: "bsp_ok w" and x: "x \<notin> L" "mobj_at x w = Some t"
  shows "\<exists>w'. P_SetThingPosition x w = Some (Inr w') \<and>
    things_linked w' (insert x L) (push_thing (place_s w (settled w t)) x S) (push_thing (place_b w t) x B)"
proof -
  obtain ss where ss: "R_PointInSubsector (mo_x t) (mo_y t) w = Some (Inr ss)" "ss < length (w_subsectors w)"
    using R_PointInSubsector_ok [OF ok] by blast
  define s where "s = ss_sector (w_subsectors w ! ss)"
  let ?t = "t\<lparr>mo_subsector := subsector_addr ss w\<rparr>"
  define u where "u = put_mobj x ?t w"
  have at: "mobj_at p u = (if p = x then Some ?t else mobj_at p w)" for p
    using fun_cong [OF mobj_at_put [OF mobj_at_nz [OF x(2)]]] by (simp add: u_def)
  have g: "geometry u = geometry w" "w_blocklinks u = w_blocklinks w" "lv_sectors (w_level u) = lv_sectors (w_level w)"
    by (simp_all add: u_def geometry_def put_mobj_def)
  have ad: "subsector_addr ss u = subsector_addr ss w" by (simp add: u_def put_mobj_def subsector_addr_def)
  note gu = geometry_place [OF g(1)]
  have lu: "sector_lists u L S" "block_lists u L B" "bmap_ok u"
    using tl listed_at_cong x(1) unfolding things_linked_def sector_lists_def block_lists_def gu g(2) thinglist_def g(3)
    by (auto intro!: listed_frame [where w = w and w' = u] simp: at)
  have s: "sector_of (mo_subsector ?t) u = Inr s" "s < length (lv_sectors (w_level u))"
    using sector_of_addr [OF ss(2)] ok ss(2) by (auto simp: gu s_def bsp_ok_def list_all_length g(3))
  obtain v where v: "(if mo_flags ?t AND MF_NOSECTOR = 0 then bindE (link_in slinks (thinglist s u) x u) (\<lambda>w. set_thinglist s x w) else Inr u) = Inr v"
    "sframe u v" "sector_lists v (insert x L) (push_thing (place_s u ?t) x S)"
    using set_sector [OF lu(1) x(1) _ s] at by auto
  note gv = geometry_place [OF sframe_same(1) [OF v(2)]]
  obtain t' where t': "mobj_at x v = Some t'" "core slinks t' = core slinks ?t" using sframe_placed [OF v(2), of x ?t] at by auto
  note cf = core_fields [OF t'(2), simplified]
  have bo: "block_of t' = block_of t" using cf by (simp add: block_of_def fun_eq_iff)
  have bv: "block_lists v L B" "bmap_ok v" using lu gv sframe_block_lists [OF v(2)] by auto
  have pb: "place_b v t' = place_b w t" using cf by (simp add: place_b_def bo gv gu)
  obtain w' where w': "(if mo_flags t AND MF_NOBLOCKMAP = 0
       then (case block_of t v of
               Some b \<Rightarrow>
                 if b < length (w_blocklinks v)
                 then bindE (link_in blinks (w_blocklinks v ! b) x v) (\<lambda>w. set_block b x w)
                 else Inl Bad_Access
             | None \<Rightarrow> upd_mobj x (\<lambda>t. t\<lparr>mo_bnext := 0, mo_bprev := 0\<rparr>) v)
       else Inr v) = Inr w'"
    "bframe v w'" "block_lists w' (insert x L) (push_thing (place_b w t) x B)"
    "\<And>p u. p \<noteq> x \<Longrightarrow> mobj_at p v = Some u \<Longrightarrow> place_b v u = None \<Longrightarrow> mobj_at p w' = mobj_at p v"
    "mo_flags t AND MF_NOBLOCKMAP = 0 \<Longrightarrow> block_of t v = None \<Longrightarrow> \<exists>u. mobj_at x w' = Some u \<and> mo_bnext u = 0 \<and> mo_bprev u = 0"
    by (rule set_block_links [OF bv x(1) t'(1), unfolded bo cf(1) pb], rule that)
  note gw = geometry_place [OF bframe_same(1) [OF w'(2)]]
  have "\<exists>u. mobj_at y w' = Some u \<and> placed w' u" if y: "y \<in> L" for y
  proof -
    obtain ty where "mobj_at y w = Some ty" "placed w ty" using tl y by (auto simp: things_linked_def)
    then have "mobj_at y u = Some ty" "placed u ty" using y x(1) at [of y] gu(8) [of ty] by auto
    then obtain r where r: "mobj_at y v = Some r" "placed v r" using sframe_placed [OF v(2)] by metis
    show ?thesis using bframe_placed [OF w'(2) r] w'(4) [OF _ r(1)] x(1) y by blast
  qed
  moreover have "\<exists>u. mobj_at x w' = Some u \<and> placed w' u"
  proof -
    have "map_option (core blinks) (mobj_at x w') = map_option (core blinks) (mobj_at x v)" using w'(2) by (simp add: bframe_def)
    then obtain r where r: "mobj_at x w' = Some r" "core blinks r = core blinks t'" using t'(1) by auto
    note cr = core_fields_b [OF r(2)]
    have "block_of r w' = block_of t v" "mo_flags r = mo_flags t" using place_b_core(4) [OF r(2)] cr cf by (simp_all add: gw bo)
    then have "placed w' r" using s w'(5) r(1) cr cf unfolding placed_def gw gv by auto
    then show ?thesis using r(1) by blast
  qed
  ultimately have "things_linked w' (insert x L) (push_thing (place_s u ?t) x S) (push_thing (place_b w t) x B)"
    using bframe_sector_lists [OF w'(2) v(3)] w'(3) bv(2) by (simp add: things_linked_def gw)
  moreover have "P_SetThingPosition x w = Some (Inr w')"
    unfolding P_SetThingPosition_def get_mobj_eq [OF x(2)] bindO_simps ss(1) upd_mobj_eq [OF x(2)] u_def [symmetric] ad bindE_simps
    using s(1) v(1) w'(1) by (cases "mo_flags t AND MF_NOSECTOR = 0") (auto simp: u_def)
  ultimately show ?thesis using ss(1) by (simp add: settled_def gu)
qed

section \<open>Reachable states\<close>

lemma bsp_ok_same:
  assumes "geometry w' = geometry w" "w_nodes w' = w_nodes w"
  shows "bsp_ok w' = bsp_ok w"
  using assms by (simp add: geometry_def bsp_ok_def child_ok_def)

text \<open>
  The things that are linked, from an empty map on. A thing that is not linked may change in any
  way: its position, its flags.
\<close>

inductive linked_reach :: "world \<Rightarrow> int set \<Rightarrow> bool" where
  empty: "bmap_ok w \<Longrightarrow> bsp_ok w \<Longrightarrow> list_all (\<lambda>b. b = 0) (w_blocklinks w) \<Longrightarrow>
    list_all (\<lambda>s. sc_thinglist s = 0) (lv_sectors (w_level w)) \<Longrightarrow> linked_reach w {}"
| change: "linked_reach w L \<Longrightarrow> x \<notin> L \<Longrightarrow> upd_mobj x f w = Inr w' \<Longrightarrow> linked_reach w' L"
| place: "linked_reach w L \<Longrightarrow> x \<notin> L \<Longrightarrow> P_SetThingPosition x w = Some (Inr w') \<Longrightarrow> linked_reach w' (insert x L)"
| unplace: "linked_reach w L \<Longrightarrow> x \<in> L \<Longrightarrow> P_UnsetThingPosition x w = Inr w' \<Longrightarrow> linked_reach w' (L - {x})"

lemma geometry_upd:
  assumes "upd_mobj x f w = Inr w'"
  shows "geometry w' = geometry w" "w_nodes w' = w_nodes w" "w_blocklinks w' = w_blocklinks w" "lv_sectors (w_level w') = lv_sectors (w_level w)"
    "y \<noteq> x \<Longrightarrow> mobj_at y w' = mobj_at y w"
  using assms by (auto simp: upd_mobj_def bindE_Inr_iff geometry_def mobj_at_def)

lemma things_linked_upd:
  assumes "things_linked w L S B" "x \<notin> L" "upd_mobj x f w = Inr w'"
  shows "things_linked w' L S B"
proof -
  note u = geometry_upd [OF assms(3)]
  note g = geometry_place [OF u(1)]
  have at: "y \<in> L \<Longrightarrow> mobj_at y w' = mobj_at y w" for y using assms(2) by (intro u(5)) auto
  have "sector_lists w' L S" "block_lists w' L B"
    using assms(1) at unfolding things_linked_def sector_lists_def block_lists_def g thinglist_def u(3,4) by (auto intro: listed_frame)
  then show ?thesis using assms(1) at by (auto simp: things_linked_def g)
qed

lemma things_linked_empty:
  assumes "bmap_ok w" "list_all (\<lambda>b. b = 0) (w_blocklinks w)" "list_all (\<lambda>s. sc_thinglist s = 0) (lv_sectors (w_level w))"
  shows "things_linked w {} (\<lambda>_. []) (\<lambda>_. [])"
  using assms by (auto simp: things_linked_def sector_lists_def block_lists_def listed_def members_def chain_def thinglist_def list_all_length)

lemma link_out_geometry:
  assumes "link_out l h x w = Inr w'" "\<And>q v v'. h q v = Inr v' \<Longrightarrow> geometry v' = geometry v \<and> w_nodes v' = w_nodes v"
  shows "geometry w' = geometry w \<and> w_nodes w' = w_nodes w"
  using assms geometry_upd(1,2) by (fastforce simp: link_out_def bindE_Inr_iff split: if_splits)

lemma set_geometry:
  "set_thinglist s q v = Inr v' \<Longrightarrow> geometry v' = geometry v \<and> w_nodes v' = w_nodes v"
  "set_block b q v = Inr v' \<Longrightarrow> geometry v' = geometry v \<and> w_nodes v' = w_nodes v"
  by (auto simp: set_thinglist_def set_block_def geometry_def split: if_splits)

lemma unset_geometry:
  assumes "P_UnsetThingPosition x w = Inr w'"
  shows "geometry w' = geometry w \<and> w_nodes w' = w_nodes w"
proof -
  obtain t v where t: "(if mo_flags t AND MF_NOSECTOR = 0
      then link_out slinks (\<lambda>p w. bindE (sector_of (mo_subsector t) w) (\<lambda>s. set_thinglist s p w)) x w else Inr w) = Inr v"
    "(if mo_flags t AND MF_NOBLOCKMAP = 0
      then link_out blinks (\<lambda>p w. case block_of t w of Some b \<Rightarrow> set_block b p w | None \<Rightarrow> Inr w) x v else Inr v) = Inr w'"
    using assms by (auto simp: P_UnsetThingPosition_def bindE_Inr_iff)
  have "geometry v = geometry w \<and> w_nodes v = w_nodes w" using t(1) set_geometry
    by (auto simp: bindE_Inr_iff dest!: link_out_geometry split: if_splits)
  moreover have "geometry w' = geometry v \<and> w_nodes w' = w_nodes v" using t(2) set_geometry
    by (auto dest!: link_out_geometry split: if_splits option.splits)
  ultimately show ?thesis by simp
qed

lemma link_in_geometry:
  assumes "link_in l q x w = Inr w'"
  shows "geometry w' = geometry w \<and> w_nodes w' = w_nodes w"
  using assms geometry_upd(1,2) by (fastforce simp: link_in_def bindE_Inr_iff split: if_splits)

lemma set_position_geometry:
  assumes "P_SetThingPosition x w = Some (Inr w')"
  shows "geometry w' = geometry w \<and> w_nodes w' = w_nodes w"
proof -
  obtain t where "get_mobj x w = Inr t" using assms by (cases "get_mobj x w") (auto simp: P_SetThingPosition_def)
  then obtain ss where "R_PointInSubsector (mo_x t) (mo_y t) w = Some (Inr ss)"
    using assms by (auto simp: P_SetThingPosition_def bindO_def split: option.splits sum.splits)
  with \<open>get_mobj x w = Inr t\<close> obtain u v where u: "upd_mobj x (\<lambda>t. t\<lparr>mo_subsector := subsector_addr ss w\<rparr>) w = Inr u"
    "(if mo_flags t AND MF_NOSECTOR = 0
              then bindE (sector_of (subsector_addr ss u) u) (\<lambda>sec.
                   bindE (link_in slinks (thinglist sec u) x u) (\<lambda>w. set_thinglist sec x w))
              else Inr u) = Inr v"
    "(if mo_flags t AND MF_NOBLOCKMAP = 0
       then (case block_of t v of
               Some b \<Rightarrow>
                 if b < length (w_blocklinks v)
                 then bindE (link_in blinks (w_blocklinks v ! b) x v) (\<lambda>w. set_block b x w)
                 else Inl Bad_Access
             | None \<Rightarrow> upd_mobj x (\<lambda>t. t\<lparr>mo_bnext := 0, mo_bprev := 0\<rparr>) v)
       else Inr v) = Inr w'"
    using assms by (auto simp: P_SetThingPosition_def bindE_Inr_iff)
  have "geometry v = geometry u \<and> w_nodes v = w_nodes u" using u(2) set_geometry(1) link_in_geometry
    by (fastforce simp: bindE_Inr_iff split: if_splits)
  moreover have "geometry w' = geometry v \<and> w_nodes w' = w_nodes v" using u(3) set_geometry(2) link_in_geometry geometry_upd(1,2)
    by (fastforce simp: bindE_Inr_iff split: if_splits option.splits)
  ultimately show ?thesis using geometry_upd(1,2) [OF u(1)] by simp
qed

lemma linked_reach_ok:
  assumes "linked_reach w L"
  shows "bsp_ok w \<and> (\<exists>S B. things_linked w L S B)"
  using assms
proof induction
  case (empty w)
  then show ?case using things_linked_empty by blast
next
  case (change w L x f w')
  then show ?case using things_linked_upd bsp_ok_same [OF geometry_upd(1,2)] by blast
next
  case (place w L x w')
  then obtain S B t where "things_linked w L S B" "mobj_at x w = Some t" 
    by (cases "mobj_at x w") (auto simp: P_SetThingPosition_def get_mobj_def)
  from P_SetThingPosition_ok [OF this(1) _ place(2) this(2)] place
  have "\<exists>S B. things_linked w' (insert x L) S B" by auto
  moreover have "bsp_ok w'" using set_position_geometry [OF place(3)] bsp_ok_same [of w' w] place by simp
  ultimately show ?case by blast
next
  case (unplace w L x w')
  then obtain S B t where "things_linked w L S B" "mobj_at x w = Some t" by (auto simp: things_linked_def)
  from P_UnsetThingPosition_ok [OF this(1) unplace(2) this(2)] unplace
  have "\<exists>S B. things_linked w' (L - {x}) S B" by auto
  moreover have "bsp_ok w'" using unset_geometry [OF unplace(3)] bsp_ok_same [of w' w] unplace by simp
  ultimately show ?case by blast
qed

text \<open>
  The iterator over a block as a recursion on its list: the function is called for one thing after the other, on the state
  that the calls before left, until it fails or says no. The function may do anything to the
  state but change which thing is behind which in a block.
\<close>

fun visit :: "(int \<Rightarrow> world \<Rightarrow> (bool \<times> world) result) \<Rightarrow> int list \<Rightarrow> world \<Rightarrow> (bool \<times> world) result" where
  "visit func [] w = Inr (True, w)"
| "visit func (x # xs) w = bindE (func x w) (\<lambda>(go, w). if go then visit func xs w else Inr (False, w))"

definition keeps_bnext :: "(int \<Rightarrow> world \<Rightarrow> (bool \<times> world) result) \<Rightarrow> bool" where
  "keeps_bnext func \<longleftrightarrow> (\<forall>y v go v'. func y v = Inr (go, v') \<longrightarrow>
     (\<forall>x. map_option mo_bnext (mobj_at x v') = map_option mo_bnext (mobj_at x v)))"

primrec bnexts :: "world \<Rightarrow> int \<Rightarrow> int list \<Rightarrow> bool" where
  "bnexts w q [] \<longleftrightarrow> q = 0"
| "bnexts w q (x # xs) \<longleftrightarrow> q = x \<and> x \<noteq> 0 \<and> (\<exists>n. map_option mo_bnext (mobj_at x w) = Some n \<and> bnexts w n xs)"

lemma seg_bnexts: "seg blinks (\<lambda>p. mobj_at p w) p q xs p' 0 \<Longrightarrow> bnexts w q xs"
  by (induction xs arbitrary: p q) (auto simp: blinks_def)

lemma bnexts_cong: "\<forall>x. map_option mo_bnext (mobj_at x w') = map_option mo_bnext (mobj_at x w) \<Longrightarrow> bnexts w' q xs = bnexts w q xs"
  by (induction xs arbitrary: q) simp_all

lemma block_things_loop_list:
  assumes "keeps_bnext func" "bnexts w q xs"
  shows "block_things_loop func q w = Some (visit func xs w)"
  using assms(2)
proof (induction xs arbitrary: q w)
  case Nil
  then show ?case by (subst block_things_loop.simps) simp
next
  case (Cons x xs)
  show ?case
  proof (cases "func x w")
    case (Inl e)
    then show ?thesis using Cons.prems by (subst block_things_loop.simps) simp
  next
    case (Inr r)
    obtain go w' where r: "func x w = Inr (go, w')" using Inr by (cases r) simp
    have k: "\<forall>x. map_option mo_bnext (mobj_at x w') = map_option mo_bnext (mobj_at x w)"
      using assms(1) r by (simp add: keeps_bnext_def)
    then have "bnexts w' q (x # xs)" using bnexts_cong [OF k] Cons.prems by blast
    then obtain t where t: "q = x" "x \<noteq> 0" "mobj_at x w' = Some t" "bnexts w' (mo_bnext t) xs" by auto
    show ?thesis using Cons.IH [OF t(4)] t(1-3) r by (subst block_things_loop.simps) (simp add: get_mobj_eq)
  qed
qed

section \<open>Properties\<close>

lemma iterator_list:
  assumes "things_linked w L S B" "0 \<le> bx" "bx < w_bmapwidth w" "0 \<le> by" "by < w_bmapheight w" "keeps_bnext func"
  shows "P_BlockThingsIterator bx by func w = Some (visit func (B (nat (by * w_bmapwidth w + bx))) w)"
proof -
  let ?b = "nat (by * w_bmapwidth w + bx)"
  have "by * w_bmapwidth w + bx < (by + 1) * w_bmapwidth w" using assms(3) by (simp add: algebra_simps)
  also have "\<dots> \<le> w_bmapheight w * w_bmapwidth w" using assms(2-5) by (intro mult_right_mono) simp_all
  finally have b: "?b < length (w_blocklinks w)"
    using assms by (simp add: things_linked_def bmap_ok_def mult.commute nat_less_iff)
  then obtain e where "seg blinks (\<lambda>p. mobj_at p w) 0 (w_blocklinks w ! ?b) (B ?b) e 0"
    using assms(1) by (auto simp: things_linked_def block_lists_def listed_def chain_def)
  then have "bnexts w (w_blocklinks w ! ?b) (B ?b)" by (rule seg_bnexts)
  then show ?thesis using assms b by (simp add: P_BlockThingsIterator_def block_things_loop_list)
qed

text \<open>
  C36: in every state that placing, moving and unplacing things can reach from an empty map, each linked thing is exactly once in
  the list of its sector and of its block, and every list is intact; the iterator over a block calls its function, which may change the state
  but not the links of the block map, once for each thing of the block's list, in the order of the list and each time on the state the call before left, until the function fails or says no, and
  then returns what the function said; a thing that is not linked can be placed, which puts it in front of its two lists; and a linked thing can be
  unplaced, which takes it out of both and changes no other list.
\<close>

theorem thing_links_sound:
  assumes "linked_reach w L"
  shows "\<exists>S B. things_linked w L S B \<and>
    (\<forall>bx by func. 0 \<le> bx \<and> bx < w_bmapwidth w \<and> 0 \<le> by \<and> by < w_bmapheight w \<and> keeps_bnext func \<longrightarrow>
       P_BlockThingsIterator bx by func w = Some (visit func (B (nat (by * w_bmapwidth w + bx))) w)) \<and>
    (\<forall>x t. x \<notin> L \<and> mobj_at x w = Some t \<longrightarrow> (\<exists>w'. P_SetThingPosition x w = Some (Inr w') \<and>
       things_linked w' (insert x L) (push_thing (place_s w (settled w t)) x S) (push_thing (place_b w t) x B))) \<and>
    (\<forall>x t. x \<in> L \<and> mobj_at x w = Some t \<longrightarrow> (\<exists>w'. P_UnsetThingPosition x w = Inr w' \<and>
       things_linked w' (L - {x}) (drop_thing (place_s w t) x S) (drop_thing (place_b w t) x B)))"
proof -
  obtain S B where tl: "things_linked w L S B" and ok: "bsp_ok w" using linked_reach_ok [OF assms] by blast
  have "\<forall>bx by func. 0 \<le> bx \<and> bx < w_bmapwidth w \<and> 0 \<le> by \<and> by < w_bmapheight w \<and> keeps_bnext func \<longrightarrow>
      P_BlockThingsIterator bx by func w = Some (visit func (B (nat (by * w_bmapwidth w + bx))) w)"
    using iterator_list [OF tl] by blast
  then show ?thesis using tl P_SetThingPosition_ok [OF tl ok] P_UnsetThingPosition_ok [OF tl] by (intro exI [of _ S] exI [of _ B]) simp
qed

text \<open>A map of one sector and one block, with two things on it.\<close>

definition demo_thing :: mobj_t where
  "demo_thing = \<lparr>mo_x = 65536, mo_y = 65536, mo_z = 0, mo_snext = 0, mo_sprev = 0, mo_angle = 0, mo_sprite = 0, mo_frame = 0,
     mo_bnext = 0, mo_bprev = 0, mo_subsector = 0, mo_floorz = 0, mo_ceilingz = 8388608, mo_radius = 1048576, mo_height = 3670016,
     mo_momx = 0, mo_momy = 0, mo_momz = 0, mo_validcount = 1, mo_type = 0, mo_info = 0, mo_tics = - 1, mo_state = 149,
     mo_flags = 0, mo_health = 100, mo_movedir = 0, mo_movecount = 0, mo_target = 0, mo_reactiontime = 0,
     mo_threshold = 0, mo_player = None, mo_lastlook = 0,
     mo_spawnpoint = \<lparr>mt_x = 1, mt_y = 1, mt_angle = 0, mt_type = 1, mt_options = 7\<rparr>, mo_tracer = 0\<rparr>"

definition demo_level :: level where
  "demo_level = \<lparr>lv_zone = small_zone, lv_cap = 16, lv_th = (\<lambda>_. \<lparr>th_prev = 16, th_next = 16, th_function = 0\<rparr>),
     lv_body = (\<lambda>_. No_Body)(4096 := B_mobj demo_thing, 8192 := B_mobj demo_thing),
     lv_sectors = [\<lparr>sc_floorheight = 0, sc_ceilingheight = 8388608, sc_floorpic = 0, sc_ceilingpic = 0, sc_lightlevel = 160, sc_special = 0,
       sc_tag = 0, sc_soundtraversed = 0, sc_soundtarget = 0, sc_blockbox = [0, 0, 0, 0],
       sc_soundorg = \<lparr>dm_thinker = \<lparr>th_prev = 0, th_next = 0, th_function = 0\<rparr>, dm_x = 0, dm_y = 0, dm_z = 0\<rparr>, sc_validcount = 0,
       sc_thinglist = 0, sc_specialdata = 0, sc_lines = []\<rparr>],
     lv_lines = [], lv_sides = [], lv_ceilings = [], lv_plats = [], lv_rng = \<lparr>rndindex = 0, prndindex = 0\<rparr>\<rparr>"

definition demo_world :: world where
  "demo_world = \<lparr>w_level = demo_level, w_subsectors_at = 512, w_subsectors = [\<lparr>ss_sector = 0, ss_numlines = 0, ss_firstline = 0\<rparr>], w_nodes = [],
     w_bmaporgx = 0, w_bmaporgy = 0, w_bmapwidth = 1, w_bmapheight = 1, w_blocklinks = [0],
     w_itemrespawnque = replicate ITEMQUESIZE (mo_spawnpoint demo_thing), w_itemrespawntime = replicate ITEMQUESIZE 0, w_iquehead = 0, w_iquetail = 0,
     w_leveltime = 0, w_players = [], w_consoleplayer = 0, w_gameskill = 2, w_netgame = False, w_deathmatch = 0, w_commercial = False, w_sounds = []\<rparr>"

lemma demo_world_reach: "linked_reach demo_world {}"
  by (rule linked_reach.empty)
    (simp_all add: demo_world_def demo_level_def bmap_ok_def bsp_ok_def)

lemma demo_world_at: "mobj_at 4096 demo_world = Some demo_thing"
  by (simp add: mobj_at_def demo_world_def demo_level_def)

text \<open>A function that records its calls.\<close>

definition record_call :: "int \<Rightarrow> world \<Rightarrow> (bool \<times> world) result" where
  "record_call y w = Inr (True, w\<lparr>w_sounds := w_sounds w @ [(y, 0)]\<rparr>)"

lemma record_call_keeps: "keeps_bnext record_call"
  by (auto simp: keeps_bnext_def record_call_def mobj_at_def)

theorem thing_links_sound_witness:
  "\<exists>w'. P_SetThingPosition 4096 demo_world = Some (Inr w') \<and> (\<exists>S B. things_linked w' {4096} S B \<and> B 0 = [4096]) \<and>
     P_BlockThingsIterator 0 0 record_call w' = Some (Inr (True, w'\<lparr>w_sounds := w_sounds w' @ [(4096, 0)]\<rparr>))"
proof -
  obtain S B where tl: "things_linked demo_world {} S B" and
    "\<forall>x t. x \<notin> {} \<and> mobj_at x demo_world = Some t \<longrightarrow> (\<exists>w'. P_SetThingPosition x demo_world = Some (Inr w') \<and>
       things_linked w' (insert x {}) (push_thing (place_s demo_world (settled demo_world t)) x S) (push_thing (place_b demo_world t) x B))"
    using thing_links_sound [OF demo_world_reach] by blast
  then obtain w' where w': "P_SetThingPosition 4096 demo_world = Some (Inr w')"
    "things_linked w' {4096} (push_thing (place_s demo_world (settled demo_world demo_thing)) 4096 S) (push_thing (place_b demo_world demo_thing) 4096 B)"
    using demo_world_at by blast
  have "geometry w' = geometry demo_world" using set_position_geometry [OF w'(1)] by simp
  then have g: "w_bmapwidth w' = 1" "w_bmapheight w' = 1" "length (w_blocklinks w') = 1" by (simp_all add: geometry_def demo_world_def)
  obtain S1 B1 where B1: "things_linked w' {4096} S1 B1"
    "P_BlockThingsIterator 0 0 record_call w' = Some (visit record_call (B1 (nat (0 * w_bmapwidth w' + 0))) w')"
    using thing_links_sound [OF linked_reach.place [OF demo_world_reach _ w'(1)]] record_call_keeps g by auto
  have "place_b demo_world demo_thing = Some 0"
    by (simp add: place_b_def block_of_def demo_world_def demo_thing_def MF_NOBLOCKMAP_def MAPBLOCKSHIFT_def FRACBITS_def i32_def Let_def)
  then have "4096 \<in> members (place_b w') w' {4096} 0"
    using w'(2) g by (auto simp: things_linked_def block_lists_def listed_def push_thing_def)
  then have "set (B1 0) = {4096}" "distinct (B1 0)"
    using B1(1) g by (auto simp: things_linked_def block_lists_def listed_def members_def)
  then have "B1 0 = [4096]" by (cases "B1 0"; cases "tl (B1 0)") auto
  then show ?thesis using w'(1) B1 by (auto simp: record_call_def)
qed

end
