(* ===== verification/Spec2Isabelle.thy ===== *)
theory Spec2Isabelle
  imports Cheat Saveg_Specials Wad_Add Clip Thing_Links
begin

text \<open>
  \<^bold>\<open>bareDOOM in Isabelle/HOL.\<close> bareDOOM is the game DOOM as a command of the boot loader
  barebox (\<^verbatim>\<open>src/commands/doom\<close>). The development models the parts of the game that work on memory,
  files, input and the state of a level, and the parts of barebox they go through, and
  proves what they promise to each other.

  \<^bold>\<open>The parts and how they interact.\<close> All memory comes from one zone (\<^verbatim>\<open>z_zone.c\<close>), whose blocks
  may be purged when their tag allows it. The WAD files (\<^verbatim>\<open>w_wad.c\<close>) are read through the files
  of barebox (\<^verbatim>\<open>std.c\<close>, \<^verbatim>\<open>fs/fs.c\<close>) into purgable blocks. A key goes from barebox into the
  key queue of the port (\<^verbatim>\<open>doomgeneric_barebox.c\<close>), is translated (\<^verbatim>\<open>i_input.c\<close>) and posted to the
  event queue (\<^verbatim>\<open>d_event.c\<close>), from which the cheat codes (\<^verbatim>\<open>m_cheat.c\<close>) are fed. A level is a map and a list
  of thinkers in the zone (\<^verbatim>\<open>p_tick.c\<close>), among them the lights (\<^verbatim>\<open>p_lights.c\<close>) and the active
  ceilings and platforms (\<^verbatim>\<open>p_ceilng.c\<close>, \<^verbatim>\<open>p_plats.c\<close>), which ask about neighbouring sectors
  (\<^verbatim>\<open>p_spec.c\<close>). Saving writes the level and the players to a file, loading rebuilds them
  (\<^verbatim>\<open>p_saveg.c\<close>). Things are linked into the lists of their sector and of their block (\<^verbatim>\<open>p_maputl.c\<close>), which the tree of \<^verbatim>\<open>r_main.c\<close>
  and their position determine. The renderer clips walls against the columns that are covered (\<^verbatim>\<open>r_bsp.c\<close>).

  \<^bold>\<open>Conventions\<close> (\<open>Prelude\<close>). A C integer is an \<open>int\<close> reduced by \<open>i32\<close>, \<open>i16\<close>, \<open>u32\<close> or \<open>u8\<close> where the
  source's type wraps; both data models the port is built for are covered by the parameter
  \<open>arch\<close>. An operation that can fail returns \<open>doom_error + 'a\<close>: \<open>I_Error\<close> is the game's fatal
  exit, \<open>Bad_Access\<close> an access outside of an object, \<open>Div_By_Zero\<close> a division by zero. A loop
  that might not end is a \<open>partial_function (option)\<close>, and the theorems about it show that it
  returns; a loop with a bound that the source gives is a \<open>function\<close> with a measure. No definition uses fuel. Pointers are addresses, or indices where a comment says so; functions a
  thinker points to have addresses given by the linker, the parameter \<open>fnp\<close> (\<open>symbols\<close>). C structs are
  records, enums that are only compared are integers.

  \<^bold>\<open>Theories.\<close>
  \<^item> \<open>Fixed\<close>: \<open>FixedMul\<close>, \<open>FixedDiv\<close> (\<^verbatim>\<open>m_fixed.c\<close>), \<open>P_Random\<close>, \<open>M_Random\<close> (\<^verbatim>\<open>m_random.c\<close>), \<open>M_AddToBox\<close>
    (\<^verbatim>\<open>m_bbox.c\<close>). Shown: when \<open>FixedDiv\<close> saturates, when it divides by zero and that it truncates otherwise, that multiplying back loses only
    the truncation where it does not saturate, that the two generators do not disturb each other, and what the bounding box is.
  \<^item> \<open>Input\<close>, \<open>Cheat\<close>: the key queue, the key map, \<open>I_GetEvent\<close>, the event queue, \<open>cht_CheckCheat\<close>. The locale \<open>fifo\<close> is
    the interface of both ring buffers. Shown: which events arrive in which order, when a cheat
    fires, and that a cheat with a character the key map of the port takes away never fires.
  \<^item> \<open>Zone\<close>, \<open>Zone_Inv\<close>, \<open>Zone_Alloc\<close>, \<open>Zone_Heap\<close>: the operations of \<^verbatim>\<open>z_zone.c\<close>, their invariant, the scan of \<open>Z_Malloc\<close>,
    and the refinement of a heap (a partial function from pointers to size, tag and owner). The locale \<open>allocator\<close>
    is what the other components rely on; it is interpreted on \<open>Z_Malloc\<close> and \<open>Z_Free\<close>.
  \<^item> \<open>Level\<close>, \<open>Spec\<close>, \<open>Lights\<close>, \<open>Active\<close>: the map, the thinker list and its loop, the queries on neighbouring sectors, the
    lights, and the lists of active movers. The locale \<open>thinker_actions\<close> is the contract between the loop and the functions it
    calls, \<open>mover_event\<close> that of the four events on active movers. Shown: a tic ends, frees exactly what was marked and keeps every
    light within its bounds, in every state that can be reached.
  \<^item> \<open>Stdio\<close>, \<open>Saveg_IO\<close>, \<open>Saveg_Structs\<close>, \<open>Player\<close>, \<open>Saveg\<close>, \<open>Saveg_Specials\<close>: files, the bytes of a saved game in a state
    monad, one reader and writer per structure, and the sections of the file. The locale \<open>codec\<close> is a writer with its reader and its bytes;
    it is interpreted for every structure but the map object, whose reader also changes a player and is described by \<open>reads_to\<close>. Shown: the header, the players,
    the map, the movers and lights, and a single map object read back as they were written, up to
    what the format leaves out, and which errors and which movers the code loses. The section of map objects is only written: \<open>P_UnArchiveThinkers\<close> is not modelled.
  \<^item> \<open>Cstring\<close>, \<open>Wad\<close>, \<open>Wad_Lookup\<close>, \<open>Wad_Cache\<close>, \<open>Wad_Add\<close>: the string functions, the lumps, the hash table, the cache and adding a
    file. Shown: the hash table finds what the linear search finds, cached pointers lead to the
    bytes of their lump even when the zone purges blocks, and adding a file keeps all of it.
  \<^item> \<open>Clip\<close>: the posts of covered columns. The locale \<open>column_clipper\<close> is the clipper as the
    renderer sees it. Shown: a wall is drawn in exactly the open columns of its range, 30 walls always fit, and which walls overflow the array.
  \<^item> \<open>Things\<close>, \<open>Thing_Links\<close>: the position of a thing in the tree and the block map, linking and unlinking, the iterator over a block and
    removal, with the lists as chains of pointers through the things. The locale \<open>thing_links\<close> is the contract of a
    kind of list, interpreted for sectors and blocks. Shown: in every state that can be reached the lists are intact and hold each linked thing once, and the
    iterator is a recursion over its list.

  \<^bold>\<open>Hypotheses.\<close> Invariants (\<open>zone_ok\<close>, \<open>clip_ok\<close>, \<open>lights_ok\<close>, and so on) are established by the initialising
  operations and kept by all others; the reachability theorems state it without a hypothesis on the state.
  The file system calls the driver of a device through a table of functions (\<open>fs_driver_d\<close> of \<open>Stdio\<close>, as in \<^verbatim>\<open>include/fs.h\<close>); the table is
  a component of the file, so the operations are defined for any driver, with the operations it lacks and the errors it returns. The drivers in \<^verbatim>\<open>src/fs\<close> are
  not modelled; the theorems that need a driver to work have \<open>driver_reads\<close> or \<open>driver_writes\<close> as a hypothesis (within \<open>file_readable\<close>, \<open>unread\<close> and \<open>at_end\<close>), and
  \<open>memory_driver\<close> is the instance their witnesses use.

  \<^bold>\<open>Not modelled.\<close> Drawing, sound and the frame buffer (device I/O); collision, movement, pick-ups and the
  enemies (\<^verbatim>\<open>p_map.c\<close>, \<^verbatim>\<open>p_enemy.c\<close>), which call each other through the state tables; the menus and the status bar; the
  main loop and the configuration files; the command line; and barebox beyond the files, the
  keys and the string functions the game calls.
\<close>

end
